(* ===== verification/Teamy_Prelude.thy ===== *)
theory Teamy_Prelude
  imports Main "HOL-Library.Word"
begin

unbundle bit_operations_syntax

text \<open>
  Shared vocabulary of the development: the machine integer types of the modelled C code,
  the wrap-around arithmetic of \<open>size_t\<close>, the conversions between byte lists and numbers,
  and the collections of rules the component theories extend.

  The target of the build is a 64 bit Apple platform: \<open>size_t\<close> has 64 bits, \<open>unsigned\<close> and
  \<open>int\<close> have 32. A length or a count is a \<open>nat\<close>, with the wrap-around of \<open>size_t\<close> additions
  written out (\<open>size_add\<close>) where the code tests for it; a value whose bits matter is a word.
\<close>

section \<open>Machine types\<close>

type_synonym u8 = "8 word"
type_synonym u16 = "16 word"
type_synonym u32 = "32 word"
type_synonym u64 = "64 word"
type_synonym bytes = "u8 list"

named_theorems bytes_simps \<open>rewrites on byte lists and their numeric values\<close>
named_theorems stream_simps \<open>rewrites that execute stream operations\<close>
named_theorems bit_lemmas \<open>facts that recombine words from their parts\<close>

section \<open>Sizes\<close>

abbreviation SIZE_MAX :: nat where
  "SIZE_MAX \<equiv> 18446744073709551615"

definition size_add :: "nat \<Rightarrow> nat \<Rightarrow> nat" where
  "size_add a b = (a + b) mod 18446744073709551616"

definition size_mul :: "nat \<Rightarrow> nat \<Rightarrow> nat" where
  "size_mul a b = (a * b) mod 18446744073709551616"

lemma size_add_small: "a + b \<le> SIZE_MAX \<Longrightarrow> size_add a b = a + b"
  by (simp add: size_add_def)

lemma size_add_le_max [simp]: "size_add a b \<le> SIZE_MAX"
  using mod_less_divisor [of 18446744073709551616 "a + b"] unfolding size_add_def by linarith

text \<open>The overflow test \<open>a + b < a\<close> of the code is exact: it fails precisely when the sum fits.\<close>

lemma size_add_overflow:
  assumes "a \<le> SIZE_MAX" "b \<le> SIZE_MAX"
  shows "size_add a b < a \<longleftrightarrow> SIZE_MAX < a + b"
proof (cases "a + b \<le> SIZE_MAX")
  case True
  then show ?thesis by (simp add: size_add_small)
next
  case False
  have "(a + b) mod 18446744073709551616 = a + b - 18446744073709551616"
    using assms False by (simp add: mod_if)
  then show ?thesis using assms False by (simp add: size_add_def)
qed

lemma size_mul_small: "a * b \<le> SIZE_MAX \<Longrightarrow> size_mul a b = a * b"
  by (simp add: size_mul_def)

lemma size_mul_le_max [simp]: "size_mul a b \<le> SIZE_MAX"
  using mod_less_divisor [of 18446744073709551616 "a * b"] unfolding size_mul_def by linarith

section \<open>Byte lists\<close>

text \<open>\<open>write_at xs i ys\<close> is the memory \<open>xs\<close> after \<open>memcpy(&xs[i], ys, length ys)\<close>. A write that
  leaves the block would make the list longer, so that keeping the length is memory safety.\<close>

definition write_at :: "'a list \<Rightarrow> nat \<Rightarrow> 'a list \<Rightarrow> 'a list" where
  "write_at xs i ys = take i xs @ ys @ drop (i + length ys) xs"

lemma length_write_at [bytes_simps]:
  "i + length ys \<le> length xs \<Longrightarrow> length (write_at xs i ys) = length xs"
  by (simp add: write_at_def)

lemma take_write_at_before [bytes_simps]:
  "n \<le> i \<Longrightarrow> i \<le> length xs \<Longrightarrow> take n (write_at xs i ys) = take n xs"
  by (simp add: write_at_def min_absorb1)

lemma take_write_at_all [bytes_simps]:
  "i \<le> length xs \<Longrightarrow> take (i + length ys) (write_at xs i ys) = take i xs @ ys"
  by (simp add: write_at_def)

lemma drop_write_at_after [bytes_simps]:
  "i + length ys \<le> length xs \<Longrightarrow> i + length ys \<le> n \<Longrightarrow> drop n (write_at xs i ys) = drop n xs"
  by (simp add: write_at_def)

lemma write_at_Nil [simp]: "i \<le> length xs \<Longrightarrow> write_at xs i [] = xs"
  by (simp add: write_at_def)

lemma write_at_append [bytes_simps]:
  assumes "i + length ys + length zs \<le> length xs"
  shows "write_at (write_at xs i ys) (i + length ys) zs = write_at xs i (ys @ zs)"
  using assms by (simp add: write_at_def ac_simps)

text \<open>Big-endian value of a byte list, and the \<open>n\<close> low bytes of a number, most significant
  first.\<close>

definition be_val :: "bytes \<Rightarrow> nat" where
  "be_val bs = foldl (\<lambda>v b. v * 256 + unat b) 0 bs"

fun be_bytes :: "nat \<Rightarrow> nat \<Rightarrow> bytes" where
  "be_bytes 0 v = []"
| "be_bytes (Suc n) v = be_bytes n (v div 256) @ [of_nat (v mod 256)]"

fun le_bytes :: "nat \<Rightarrow> nat \<Rightarrow> bytes" where
  "le_bytes 0 v = []"
| "le_bytes (Suc n) v = of_nat (v mod 256) # le_bytes n (v div 256)"

fun le_val :: "bytes \<Rightarrow> nat" where
  "le_val [] = 0"
| "le_val (b # bs) = unat b + 256 * le_val bs"

lemma be_val_Nil [simp]: "be_val [] = 0"
  by (simp add: be_val_def)

lemma be_val_snoc [simp]: "be_val (bs @ [b]) = be_val bs * 256 + unat b"
  by (simp add: be_val_def)

lemma be_val_single [simp]: "be_val [b] = unat b"
  by (simp add: be_val_def)

lemma be_val_Cons: "be_val (b # bs) = unat b * 256 ^ length bs + be_val bs"
  by (induction bs rule: rev_induct) (simp_all add: algebra_simps flip: append_Cons)

lemma length_be_bytes [simp]: "length (be_bytes n v) = n"
  by (induction n arbitrary: v) auto

lemma length_le_bytes [simp]: "length (le_bytes n v) = n"
  by (induction n arbitrary: v) auto

lemma unat_of_nat_byte [simp]: "unat (of_nat (v mod 256) :: u8) = v mod 256"
  by (simp add: unat_of_nat)

lemma unat_u8_less [simp]: "unat (b :: u8) < 256"
proof -
  have "unat b < 2 ^ LENGTH(8)" by (rule unsigned_less)
  then show ?thesis by simp
qed

lemma unat_u32_less: "unat (w :: u32) < 2 ^ 32"
proof -
  have "unat w < 2 ^ LENGTH(32)" by (rule unsigned_less)
  then show ?thesis by simp
qed

lemma unat_u64_less: "unat (w :: u64) < 2 ^ 64"
proof -
  have "unat w < 2 ^ LENGTH(64)" by (rule unsigned_less)
  then show ?thesis by simp
qed

lemma of_nat_unat_mod_byte [simp]: "(of_nat (unat (b :: u8) mod 256) :: u8) = b"
  by (simp add: mod_less [OF unat_u8_less])

lemma be_val_less: "be_val bs < 256 ^ length bs"
proof (induction bs rule: rev_induct)
  case (snoc b bs)
  have "be_val bs * 256 + unat b < (be_val bs + 1) * 256" by simp
  also have "\<dots> \<le> 256 ^ length bs * 256" using snoc by (intro mult_right_mono) simp_all
  finally show ?case by simp
qed simp

lemma be_bytes_be_val: "be_bytes (length bs) (be_val bs) = bs"
proof (induction bs rule: rev_induct)
  case (snoc b bs)
  have "(be_val bs * 256 + unat b) div 256 = be_val bs" by simp
  moreover have "(be_val bs * 256 + unat b) mod 256 = unat b" by simp
  ultimately show ?case using snoc by simp
qed simp

lemma be_val_be_bytes: "be_val (be_bytes n v) = v mod 256 ^ n"
proof (induction n arbitrary: v)
  case (Suc n)
  have "v mod 256 ^ Suc n = 256 * (v div 256 mod 256 ^ n) + v mod 256"
    by (simp add: mod_mult2_eq)
  then show ?case using Suc by (simp add: mult.commute)
qed simp

lemma le_val_less: "le_val bs < 256 ^ length bs"
proof (induction bs)
  case (Cons b bs)
  then have "le_val bs + 1 \<le> 256 ^ length bs" by simp
  then have "256 * (le_val bs + 1) \<le> 256 * 256 ^ length bs" by (rule mult_le_mono2)
  then show ?case using unat_u8_less [of b] by (simp del: unat_u8_less)
qed simp

lemma le_bytes_le_val: "le_bytes (length bs) (le_val bs) = bs"
  by (induction bs) auto

lemma le_val_le_bytes: "le_val (le_bytes n v) = v mod 256 ^ n"
proof (induction n arbitrary: v)
  case (Suc n)
  then show ?case by (simp add: mod_mult2_eq)
qed simp

section \<open>Words\<close>

lemma unat_ucast_u8 [simp]: "unat (ucast (w :: 'a::len word) :: u8) = unat w mod 256"
  by (simp add: unsigned_ucast_eq take_bit_eq_mod)

text \<open>Appending a field of \<open>n\<close> bits above \<open>p\<close> bits already collected.\<close>

lemma take_bit_append [bit_lemmas]:
  fixes v :: "'a::len word"
  shows "take_bit p v OR push_bit p (take_bit n (drop_bit p v)) = take_bit (p + n) v"
  by (rule bit_word_eqI) (auto simp: bit_simps)

text \<open>A word below a power of two has no bit at or above it.\<close>

lemma take_bit_word_self [bit_lemmas]:
  fixes w :: "'a::len word"
  assumes "unat w < 2 ^ n"
  shows "take_bit n w = w"
proof -
  have "unat (take_bit n w) = unat w"
    using assms by (simp add: unsigned_take_bit_eq take_bit_nat_eq_self)
  then show ?thesis by (simp add: word_unat_eq_iff)
qed

lemma drop_bit_word_0 [bit_lemmas]:
  fixes w :: "'a::len word"
  assumes "unat w < 2 ^ n"
  shows "drop_bit n w = 0"
proof -
  have "unat (drop_bit n w) = drop_bit n (unat w)" by (simp only: unat_drop_bit_eq)
  also have "\<dots> = 0" using assms by (simp add: drop_bit_eq_div)
  finally show ?thesis by (simp add: word_unat_eq_iff)
qed

lemma unat_drop_bit_div: "unat (drop_bit n w) = unat w div 2 ^ n"
  by (subst unat_drop_bit_eq) (rule drop_bit_eq_div)

lemma unat_take_bit_mod: "unat (take_bit n w) = unat w mod 2 ^ n"
  by (subst unsigned_take_bit_eq) (rule take_bit_eq_mod)

text \<open>The masks and the single bits that occur in the code.\<close>

lemma bit_0x80 [bit_lemmas]:
  "bit (0x80 :: int) n \<longleftrightarrow> n = 7"
  "bit (0x80 :: nat) n \<longleftrightarrow> n = 7"
proof -
  have "(0x80 :: int) = 2 ^ 7" "(0x80 :: nat) = 2 ^ 7" by simp_all
  then show "bit (0x80 :: int) n \<longleftrightarrow> n = 7" "bit (0x80 :: nat) n \<longleftrightarrow> n = 7"
    by (simp_all only: bit_simps) auto
qed

lemma mask_words [bit_lemmas]:
  "(0x7F :: u8) = mask 7" "(0x7F :: u32) = mask 7" "(0x7F :: u64) = mask 7"
  "(0xFF :: u32) = mask 8" "(0xFF :: u64) = mask 8" "(0xFF :: u8) = mask 8"
  by (simp_all add: mask_eq_exp_minus_1)

lemma le_be_bytes_rev: "le_bytes n v = rev (be_bytes n v)"
  by (induction n arbitrary: v) auto

lemma bit_less_of_unat: "unat (m :: 'a::len word) < 2 ^ k \<Longrightarrow> bit m n \<Longrightarrow> n < k"
  using take_bit_word_self [of m k] by (metis bit_take_bit_iff)

text \<open>Shifting in a digit: the \<open>v << k | d\<close> of every big-endian reader is \<open>v * 2^k + d\<close>, as long
  as nothing is shifted out.\<close>

lemma unat_push_or:
  fixes v m :: "'a::len word"
  assumes "unat m < 2 ^ k" "unat v * 2 ^ k + unat m < 2 ^ LENGTH('a)"
  shows "unat (push_bit k v OR m) = unat v * 2 ^ k + unat m"
proof -
  have "push_bit k v + m = push_bit k v OR m"
    by (intro disjunctive_add) (use bit_less_of_unat [OF assms(1)] in \<open>force simp: bit_simps not_le\<close>)
  moreover have "unat (push_bit k v) = unat v * 2 ^ k"
    using assms(2)
    by (subst unsigned_push_bit_eq) (simp add: push_bit_eq_mult take_bit_nat_eq_self)
  ultimately show ?thesis
    using assms(2) by (metis (no_types, lifting) mod_less unat_word_ariths(1))
qed

lemma unat_and_mask: "unat (w AND mask n :: 'a::len word) = unat w mod 2 ^ n"
  by (simp add: unat_take_bit_mod flip: take_bit_eq_mask)

lemma unat_and_7F: "unat ((b::u8) AND 0x7F) = unat b mod 128"
  using unat_and_mask [of b 7] by (simp add: mask_words)
text \<open>The top bit of a byte is a comparison with 128.\<close>

lemma bit_8_7: "bit (b::u8) 7 \<longleftrightarrow> 128 \<le> unat b"
proof -
  have "bit b 7 \<longleftrightarrow> bit (unat b) 7" by (simp add: bit_simps)
  also have "\<dots> \<longleftrightarrow> odd (unat b div 128)" by (simp add: bit_iff_odd)
  also have "\<dots> \<longleftrightarrow> 128 \<le> unat b"
  proof -
    have "unat b div 128 < 2" using unat_u8_less [of b] by (subst div_less_iff_less_mult) simp_all
    then have "unat b div 128 = 0 \<or> unat b div 128 = 1" by linarith
    then show ?thesis by (auto simp: div_eq_0_iff dvd_def; linarith)
  qed
  finally show ?thesis .
qed

lemma and_0x80_eq_0: "((b::u8) AND 0x80 = 0) = (unat b < 128)"
  using and_exp_eq_0_iff_not_bit [of b 7] by (simp add: bit_8_7 not_le)

lemma div_128_lt: "n < 2 ^ 64 \<Longrightarrow> n div 128 < 2 ^ 57"
  for n :: nat
  by (subst div_less_iff_less_mult) simp_all

lemma drop_bit_eq_0_iff: "drop_bit n w = 0 \<longleftrightarrow> unat w < 2 ^ n"
  for w :: "'a::len word"
proof
  assume "drop_bit n w = 0"
  then have "unat w div 2 ^ n = 0" by (metis unat_drop_bit_div unsigned_0)
  then show "unat w < 2 ^ n" by (simp add: div_eq_0_iff)
qed (rule drop_bit_word_0)

lemma mod_128_high: "128 \<le> n \<Longrightarrow> n < 256 \<Longrightarrow> n = 128 + n mod 128" for n :: nat
proof -
  assume "128 \<le> n" "n < 256"
  then have "n mod 128 = (n - 128) mod 128" "n - 128 < 128" by (simp_all add: le_mod_geq)
  then have "n mod 128 = n - 128" by simp
  with \<open>128 \<le> n\<close> show ?thesis by simp
qed

lemma word_eq_of_nat: "unat w = n \<Longrightarrow> w = of_nat n"
  by auto

lemma unat_of_nat_u8: "n < 256 \<Longrightarrow> unat (of_nat n :: u8) = n"
  by (simp add: unat_of_nat)

lemma word_xor_eq_0: "a XOR b = 0 \<longleftrightarrow> a = b" for a b :: "'a::len word"
  by (auto simp: bit_eq_iff bit_xor_iff)

end
