(* ===== verification/Nanopb_Stream.thy ===== *)
theory Nanopb_Stream
  imports Teamy_Prelude
begin

text \<open>
  The byte streams of nanopb (\<open>nanopb/pb_encode.c\<close>, \<open>nanopb/pb_decode.c\<close>, the structures of
  \<open>pb_encode.h\<close> and \<open>pb_decode.h\<close>), as configured by the Pod: 64 bit integers, malloc enabled,
  error messages kept, callbacks allowed (\<open>PB_BUFFER_ONLY\<close> is not set).

  In C a stream is a callback with an untyped \<open>state\<close> pointer. Here the pair of the two is one
  value: \<open>Sizing\<close> is the NULL callback, \<open>BufWrite\<close> and \<open>BufRead\<close> are \<open>buf_write\<close> and \<open>buf_read\<close>
  with the memory their pointer points into, \<open>UserWrite\<close> and \<open>UserRead\<close> are a client's
  callback, a parameter of the model, with the client's own state of any type. A client
  callback is taken to change its own state only. A function returns the stream it leaves
  behind and \<open>None\<close> or \<open>False\<close> where the C code returns \<open>false\<close>.
\<close>

section \<open>Output streams\<close>

datatype 's osink =
    Sizing
  | BufWrite bytes nat \<comment> \<open>the buffer and the index \<open>state\<close> points to\<close>
  | UserWrite "'s \<Rightarrow> bytes \<Rightarrow> 's \<times> bool" 's

record 's pb_ostream =
  os_sink :: "'s osink"
  os_max_size :: nat
  os_bytes_written :: nat
  os_errmsg :: "string option"

definition os_set_error :: "'s pb_ostream \<Rightarrow> string \<Rightarrow> 's pb_ostream" where
  "os_set_error s msg =
     s\<lparr>os_errmsg := (case os_errmsg s of None \<Rightarrow> Some msg | Some m \<Rightarrow> Some m)\<rparr>"

definition buf_write :: "bytes \<Rightarrow> nat \<Rightarrow> bytes \<Rightarrow> bytes \<times> nat" where
  "buf_write mem pos buf = (write_at mem pos buf, pos + length buf)"

definition pb_ostream_from_buffer :: "bytes \<Rightarrow> nat \<Rightarrow> 's pb_ostream" where
  "pb_ostream_from_buffer buf bufsize =
     \<lparr>os_sink = BufWrite buf 0, os_max_size = bufsize, os_bytes_written = 0, os_errmsg = None\<rparr>"

definition PB_OSTREAM_SIZING :: "'s pb_ostream" where
  "PB_OSTREAM_SIZING =
     \<lparr>os_sink = Sizing, os_max_size = 0, os_bytes_written = 0, os_errmsg = None\<rparr>"

text \<open>\<open>stream->callback(stream, buf, count)\<close>; the sizing stream has none to call.\<close>

definition os_callback :: "'s pb_ostream \<Rightarrow> bytes \<Rightarrow> 's pb_ostream \<times> bool" where
  "os_callback s buf =
     (case os_sink s of
        Sizing \<Rightarrow> (s, True)
      | BufWrite mem pos \<Rightarrow>
          (let (mem', pos') = buf_write mem pos buf in (s\<lparr>os_sink := BufWrite mem' pos'\<rparr>, True))
      | UserWrite f u \<Rightarrow> (let (u', ok) = f u buf in (s\<lparr>os_sink := UserWrite f u'\<rparr>, ok)))"

text \<open>\<open>pb_write(stream, buf, count)\<close>. The \<open>count\<close> bytes are the first ones of \<open>buf\<close>, which is
  empty where the code passes NULL: it does so only for a sizing stream.\<close>

definition pb_write :: "'s pb_ostream \<Rightarrow> bytes \<Rightarrow> nat \<Rightarrow> 's pb_ostream \<times> bool" where
  "pb_write s buf count =
     (if 0 < count \<and> os_sink s \<noteq> Sizing then
        if size_add (os_bytes_written s) count < os_bytes_written s
           \<or> os_max_size s < size_add (os_bytes_written s) count
        then (os_set_error s ''stream full'', False)
        else
          (case os_callback s (take count buf) of
             (s', False) \<Rightarrow> (os_set_error s' ''io error'', False)
           | (s', True) \<Rightarrow>
               (s'\<lparr>os_bytes_written := size_add (os_bytes_written s') count\<rparr>, True))
      else (s\<lparr>os_bytes_written := size_add (os_bytes_written s) count\<rparr>, True))"

section \<open>Input streams\<close>

datatype 's isource =
    BufRead bytes \<comment> \<open>the memory from the position \<open>state\<close> points to\<close>
  | UserRead "'s \<Rightarrow> nat \<Rightarrow> 's \<times> bytes option" 's

record 's pb_istream =
  is_source :: "'s isource"
  is_bytes_left :: nat
  is_errmsg :: "string option"

definition is_set_error :: "'s pb_istream \<Rightarrow> string \<Rightarrow> 's pb_istream" where
  "is_set_error s msg =
     s\<lparr>is_errmsg := (case is_errmsg s of None \<Rightarrow> Some msg | Some m \<Rightarrow> Some m)\<rparr>"

definition buf_read :: "bytes \<Rightarrow> nat \<Rightarrow> bytes \<times> bytes" where
  "buf_read mem count = (drop count mem, take count mem)"

definition pb_istream_from_buffer :: "bytes \<Rightarrow> nat \<Rightarrow> 's pb_istream" where
  "pb_istream_from_buffer buf bufsize =
     \<lparr>is_source = BufRead buf, is_bytes_left = bufsize, is_errmsg = None\<rparr>"

definition is_callback :: "'s pb_istream \<Rightarrow> nat \<Rightarrow> 's pb_istream \<times> bytes option" where
  "is_callback s count =
     (case is_source s of
        BufRead mem \<Rightarrow>
          (let (mem', out) = buf_read mem count in (s\<lparr>is_source := BufRead mem'\<rparr>, Some out))
      | UserRead f u \<Rightarrow> (let (u', out) = f u count in (s\<lparr>is_source := UserRead f u'\<rparr>, out)))"

text \<open>\<open>pb_read(stream, buf, count)\<close> with a buffer.\<close>

definition pb_read :: "'s pb_istream \<Rightarrow> nat \<Rightarrow> 's pb_istream \<times> bytes option" where
  "pb_read s count =
     (if count = 0 then (s, Some [])
      else if is_bytes_left s < count then (is_set_error s ''end-of-stream'', None)
      else
        (case is_callback s count of
           (s', None) \<Rightarrow> (is_set_error s' ''io error'', None)
         | (s', Some out) \<Rightarrow> (s'\<lparr>is_bytes_left := is_bytes_left s' - count\<rparr>, Some out)))"

text \<open>\<open>pb_read(stream, NULL, count)\<close>: a memory stream skips in one step, any other callback is
  asked for chunks of at most 16 bytes.\<close>

function pb_skip_chunks :: "'s pb_istream \<Rightarrow> nat \<Rightarrow> 's pb_istream \<times> bool" where
  "pb_skip_chunks s count =
     (if 16 < count then
        (case pb_read s 16 of
           (s', None) \<Rightarrow> (s', False)
         | (s', Some _) \<Rightarrow> pb_skip_chunks s' (count - 16))
      else (case pb_read s count of (s', out) \<Rightarrow> (s', out \<noteq> None)))"
  by pat_completeness auto
termination
  by (relation "measure snd") auto

declare pb_skip_chunks.simps [simp del]

definition pb_read_null :: "'s pb_istream \<Rightarrow> nat \<Rightarrow> 's pb_istream \<times> bool" where
  "pb_read_null s count =
     (if count = 0 then (s, True)
      else case is_source s of
          UserRead _ _ \<Rightarrow> pb_skip_chunks s count
        | BufRead _ \<Rightarrow> (case pb_read s count of (s', out) \<Rightarrow> (s', out \<noteq> None)))"

definition pb_readbyte :: "'s pb_istream \<Rightarrow> 's pb_istream \<times> u8 option" where
  "pb_readbyte s =
     (if is_bytes_left s = 0 then (is_set_error s ''end-of-stream'', None)
      else
        (case is_callback s 1 of
           (s', None) \<Rightarrow> (is_set_error s' ''io error'', None)
         | (s', Some out) \<Rightarrow> (s'\<lparr>is_bytes_left := is_bytes_left s' - 1\<rparr>, Some (hd out))))"

section \<open>What every stream does\<close>

lemma is_set_error_left [simp]: "is_bytes_left (is_set_error s m) = is_bytes_left s"
  by (simp add: is_set_error_def)

lemma is_callback_left: "is_callback s n = (s', r) \<Longrightarrow> is_bytes_left s' = is_bytes_left s"
  by (auto simp: is_callback_def split: isource.splits prod.splits)

text \<open>A successful read shortens the stream by exactly what it returned, a failed one leaves the
  length alone: the measure of every decoding loop.\<close>

lemma pb_readbyte_left:
  "pb_readbyte s = (s', Some b) \<Longrightarrow> is_bytes_left s = Suc (is_bytes_left s')"
  by (auto simp: pb_readbyte_def dest: is_callback_left split: if_splits prod.splits option.splits)

lemmas pb_readbyte_left_sym = pb_readbyte_left [OF sym]

lemma pb_readbyte_None_left:
  "pb_readbyte s = (s', None) \<Longrightarrow> is_bytes_left s' = is_bytes_left s"
  by (auto simp: pb_readbyte_def dest: is_callback_left split: if_splits prod.splits option.splits)

lemma pb_read_left:
  "pb_read s n = (s', Some bs) \<Longrightarrow> is_bytes_left s = is_bytes_left s' + n"
  by (auto simp: pb_read_def dest: is_callback_left split: if_splits prod.splits option.splits)

lemmas pb_read_left_sym = pb_read_left [OF sym]

lemma pb_read_None_left:
  "pb_read s n = (s', None) \<Longrightarrow> is_bytes_left s' = is_bytes_left s"
  by (auto simp: pb_read_def dest: is_callback_left split: if_splits prod.splits option.splits)

lemma os_set_error_simps [simp]:
  "os_sink (os_set_error s m) = os_sink s"
  "os_max_size (os_set_error s m) = os_max_size s"
  "os_bytes_written (os_set_error s m) = os_bytes_written s"
  by (simp_all add: os_set_error_def)

lemma os_callback_frame:
  "os_callback s buf = (s', ok) \<Longrightarrow>
     os_max_size s' = os_max_size s \<and> os_bytes_written s' = os_bytes_written s"
  by (auto simp: os_callback_def split: osink.splits prod.splits)

text \<open>The accounting of every output stream: a callback stream never counts past its limit.\<close>

lemma pb_write_within:
  assumes "pb_write s buf count = (s', ok)" "os_sink s \<noteq> Sizing"
    "os_bytes_written s \<le> os_max_size s" "os_max_size s \<le> SIZE_MAX" "count \<le> SIZE_MAX"
  shows "os_bytes_written s' \<le> os_max_size s' \<and> os_max_size s' = os_max_size s"
  using assms
  by (auto simp: pb_write_def size_add_small dest!: os_callback_frame
      split: if_splits prod.splits bool.splits)

section \<open>The interface of input streams\<close>

text \<open>
  What a decoder relies on: a stream in a good state (\<open>wf\<close>) has \<open>content\<close>, the bytes still to be
  read; the callback delivers them in order and \<open>adv s n\<close> is the stream \<open>n\<close> bytes later;
  shortening \<open>bytes_left\<close> cuts the content, which is how a length-delimited field is read.
\<close>

locale pb_input =
  fixes wf :: "'s pb_istream \<Rightarrow> bool"
    and content :: "'s pb_istream \<Rightarrow> bytes"
    and adv :: "'s pb_istream \<Rightarrow> nat \<Rightarrow> 's pb_istream"
  assumes left: "wf s \<Longrightarrow> is_bytes_left s = length (content s)"
    and pull: "wf s \<Longrightarrow> 0 < n \<Longrightarrow> n \<le> length (content s) \<Longrightarrow>
      \<exists>s'. is_callback s n = (s', Some (take n (content s)))
           \<and> s'\<lparr>is_bytes_left := is_bytes_left s' - n\<rparr> = adv s n"
    and adv_0: "wf s \<Longrightarrow> adv s 0 = s"
    and adv_add: "wf s \<Longrightarrow> m + n \<le> length (content s) \<Longrightarrow> adv (adv s m) n = adv s (m + n)"
    and wf_adv: "wf s \<Longrightarrow> n \<le> length (content s) \<Longrightarrow> wf (adv s n)"
    and content_adv: "wf s \<Longrightarrow> n \<le> length (content s) \<Longrightarrow> content (adv s n) = drop n (content s)"
    and wf_limit: "wf s \<Longrightarrow> n \<le> length (content s) \<Longrightarrow> wf (s\<lparr>is_bytes_left := n\<rparr>)"
    and content_limit: "wf s \<Longrightarrow> n \<le> length (content s) \<Longrightarrow>
      content (s\<lparr>is_bytes_left := n\<rparr>) = take n (content s)"
begin

lemma read_ok:
  assumes "wf s" "n \<le> length (content s)"
  shows "pb_read s n = (adv s n, Some (take n (content s)))"
proof (cases "n = 0")
  case True
  then show ?thesis using assms by (simp add: pb_read_def adv_0)
next
  case False
  then obtain s' where "is_callback s n = (s', Some (take n (content s)))"
    "s'\<lparr>is_bytes_left := is_bytes_left s' - n\<rparr> = adv s n"
    using pull [OF assms(1), of n] assms(2) by auto
  then show ?thesis using False assms by (simp add: pb_read_def left)
qed

lemma read_short:
  assumes "wf s" "length (content s) < n"
  shows "pb_read s n = (is_set_error s ''end-of-stream'', None)"
  using assms by (auto simp: pb_read_def left)

lemma readbyte_ok:
  assumes "wf s" "content s = b # bs"
  shows "pb_readbyte s = (adv s 1, Some b)"
proof -
  obtain s' where "is_callback s 1 = (s', Some (take 1 (content s)))"
    "s'\<lparr>is_bytes_left := is_bytes_left s' - 1\<rparr> = adv s 1"
    using pull [OF assms(1), of 1] assms(2) by auto
  then show ?thesis using assms by (simp add: pb_readbyte_def left)
qed

lemma readbyte_end:
  assumes "wf s" "content s = []"
  shows "pb_readbyte s = (is_set_error s ''end-of-stream'', None)"
  using assms by (simp add: pb_readbyte_def left)

lemma content_adv_Cons: "wf s \<Longrightarrow> content s = b # bs \<Longrightarrow> content (adv s 1) = bs"
  by (simp add: content_adv)

lemma wf_adv_Cons: "wf s \<Longrightarrow> content s = b # bs \<Longrightarrow> wf (adv s 1)"
  by (simp add: wf_adv)

lemma skip_chunks_ok:
  "wf s \<Longrightarrow> n \<le> length (content s) \<Longrightarrow> pb_skip_chunks s n = (adv s n, True)"
proof (induction s n rule: pb_skip_chunks.induct)
  case (1 s n)
  show ?case
  proof (cases "16 < n")
    case True
    then have r: "pb_read s 16 = (adv s 16, Some (take 16 (content s)))"
      using "1.prems" by (intro read_ok) auto
    have "pb_skip_chunks (adv s 16) (n - 16) = (adv (adv s 16) (n - 16), True)"
      using True "1.prems" by (intro "1.IH" [OF True r [symmetric] refl])
        (simp_all add: wf_adv content_adv)
    moreover have "adv (adv s 16) (n - 16) = adv s n"
      using True "1.prems" by (simp add: adv_add)
    ultimately show ?thesis using True r by (simp add: pb_skip_chunks.simps [of s n])
  next
    case False
    then show ?thesis
      using "1.prems" by (simp add: pb_skip_chunks.simps [of s n] read_ok)
  qed
qed

lemma read_null_ok:
  assumes "wf s" "n \<le> length (content s)"
  shows "pb_read_null s n = (adv s n, True)"
  using assms
  by (auto simp: pb_read_null_def adv_0 skip_chunks_ok read_ok split: isource.splits)

end

section \<open>Memory streams implement the interface\<close>

definition is_buf_wf :: "'s pb_istream \<Rightarrow> bool" where
  "is_buf_wf s =
     (case is_source s of BufRead mem \<Rightarrow> is_bytes_left s \<le> length mem | UserRead _ _ \<Rightarrow> False)"

definition is_buf_content :: "'s pb_istream \<Rightarrow> bytes" where
  "is_buf_content s =
     (case is_source s of BufRead mem \<Rightarrow> take (is_bytes_left s) mem | UserRead _ _ \<Rightarrow> [])"

definition is_buf_adv :: "'s pb_istream \<Rightarrow> nat \<Rightarrow> 's pb_istream" where
  "is_buf_adv s n =
     (case is_source s of
        BufRead mem \<Rightarrow>
          s\<lparr>is_source := BufRead (drop n mem), is_bytes_left := is_bytes_left s - n\<rparr>
      | UserRead _ _ \<Rightarrow> s)"

lemmas is_buf_defs = is_buf_wf_def is_buf_content_def is_buf_adv_def

interpretation buf_in: pb_input is_buf_wf is_buf_content is_buf_adv
proof unfold_locales
  fix s :: "'s pb_istream" and n
  assume "is_buf_wf s" "0 < n" "n \<le> length (is_buf_content s)"
  then show "\<exists>s'. is_callback s n = (s', Some (take n (is_buf_content s)))
      \<and> s'\<lparr>is_bytes_left := is_bytes_left s' - n\<rparr> = is_buf_adv s n"
    by (auto simp: is_buf_defs is_callback_def buf_read_def min_absorb1 min_absorb2
        split: isource.splits)
qed (auto simp: is_buf_defs min_absorb1 min_absorb2 ac_simps drop_take split: isource.splits)

lemma wf_from_buffer [simp, intro]: "n \<le> length bs \<Longrightarrow> is_buf_wf (pb_istream_from_buffer bs n)"
  by (simp add: is_buf_wf_def pb_istream_from_buffer_def)

lemma content_from_buffer [simp]: "is_buf_content (pb_istream_from_buffer bs n) = take n bs"
  by (simp add: is_buf_content_def pb_istream_from_buffer_def)

lemma adv_from_buffer [simp]:
  "is_buf_adv (pb_istream_from_buffer bs n) k = pb_istream_from_buffer (drop k bs) (n - k)"
  by (simp add: is_buf_adv_def pb_istream_from_buffer_def)

section \<open>The interface of output streams\<close>

text \<open>
  What an encoder relies on: \<open>room s n\<close> says that \<open>n\<close> more bytes fit, \<open>put s bs\<close> is the stream
  after they are written. A write that fits is exactly \<open>put\<close>, and two writes are one write of
  the concatenation. A bounded stream also refuses what does not fit, and says so.
\<close>

locale pb_output =
  fixes wf :: "'s pb_ostream \<Rightarrow> bool"
    and room :: "'s pb_ostream \<Rightarrow> nat \<Rightarrow> bool"
    and put :: "'s pb_ostream \<Rightarrow> bytes \<Rightarrow> 's pb_ostream"
  assumes write_ok: "wf s \<Longrightarrow> room s (length bs) \<Longrightarrow> pb_write s bs (length bs) = (put s bs, True)"
    and wf_put: "wf s \<Longrightarrow> room s (length bs) \<Longrightarrow> wf (put s bs)"
    and room_add: "wf s \<Longrightarrow> room s (length bs + n) \<longleftrightarrow> room s (length bs) \<and> room (put s bs) n"
    and put_append: "wf s \<Longrightarrow> room s (length bs + length cs) \<Longrightarrow> put (put s bs) cs = put s (bs @ cs)"
    and put_written: "wf s \<Longrightarrow> room s (length bs) \<Longrightarrow>
      os_bytes_written (put s bs) = os_bytes_written s + length bs"
    and wf_set_error: "wf s \<Longrightarrow> wf (os_set_error s m)"
begin

text \<open>The two-step idiom of every length-delimited encoder.\<close>

lemma write_write:
  assumes "wf s" "room s (length bs + length cs)"
  shows "(case pb_write s bs (length bs) of
            (s', ok) \<Rightarrow> if ok then pb_write s' cs (length cs) else (s', False))
         = (put s (bs @ cs), True)"
  using assms by (simp add: room_add write_ok wf_put put_append)

end

locale pb_bounded_output = pb_output +
  assumes write_full: "wf s \<Longrightarrow> length bs \<le> SIZE_MAX \<Longrightarrow> \<not> room s (length bs) \<Longrightarrow>
      pb_write s bs (length bs) = (os_set_error s ''stream full'', False)"
begin

lemma write_succeeds_iff:
  assumes "wf s" "length bs \<le> SIZE_MAX"
  shows "snd (pb_write s bs (length bs)) \<longleftrightarrow> room s (length bs)"
  using assms by (cases "room s (length bs)") (simp_all add: write_ok write_full)

end

text \<open>A memory stream, bound to a limit inside its buffer.\<close>

definition os_buf_wf :: "'s pb_ostream \<Rightarrow> bool" where
  "os_buf_wf s =
     (case os_sink s of
        BufWrite mem pos \<Rightarrow>
          os_bytes_written s \<le> os_max_size s \<and> os_max_size s \<le> SIZE_MAX
          \<and> pos + (os_max_size s - os_bytes_written s) \<le> length mem
      | _ \<Rightarrow> False)"

definition os_buf_room :: "'s pb_ostream \<Rightarrow> nat \<Rightarrow> bool" where
  "os_buf_room s n \<longleftrightarrow> os_bytes_written s + n \<le> os_max_size s"

definition os_buf_put :: "'s pb_ostream \<Rightarrow> bytes \<Rightarrow> 's pb_ostream" where
  "os_buf_put s bs =
     (case os_sink s of
        BufWrite mem pos \<Rightarrow>
          s\<lparr>os_sink := BufWrite (write_at mem pos bs) (pos + length bs),
            os_bytes_written := os_bytes_written s + length bs\<rparr>
      | _ \<Rightarrow> s)"

lemmas os_buf_defs = os_buf_wf_def os_buf_room_def os_buf_put_def

lemma os_buf_write_ok:
  assumes "os_buf_wf s" "os_buf_room s (length bs)"
  shows "pb_write s bs (length bs) = (os_buf_put s bs, True)"
proof -
  obtain mem pos where src: "os_sink s = BufWrite mem pos"
    using assms(1) by (auto simp: os_buf_wf_def split: osink.splits)
  have add: "size_add (os_bytes_written s) (length bs) = os_bytes_written s + length bs"
    using assms src by (intro size_add_small) (auto simp: os_buf_defs)
  have mem: "pos \<le> length mem" using assms(1) src by (simp add: os_buf_wf_def)
  show ?thesis
  proof (cases "bs = []")
    case True
    then show ?thesis using src add mem by (cases s) (auto simp: pb_write_def os_buf_put_def)
  next
    case False
    then show ?thesis using assms src add
      by (simp add: pb_write_def os_callback_def buf_write_def os_buf_defs)
  qed
qed

lemma os_buf_write_full:
  assumes "os_buf_wf s" "length bs \<le> SIZE_MAX" "\<not> os_buf_room s (length bs)"
  shows "pb_write s bs (length bs) = (os_set_error s ''stream full'', False)"
proof -
  have "os_sink s \<noteq> Sizing" "os_bytes_written s \<le> os_max_size s" "os_max_size s \<le> SIZE_MAX"
    using assms(1) by (auto simp: os_buf_wf_def split: osink.splits)
  moreover have "os_max_size s < os_bytes_written s + length bs"
    using assms(3) by (simp add: os_buf_room_def)
  moreover have "0 < length bs" using calculation by linarith
  ultimately show ?thesis
    using assms(2) size_add_overflow [of "os_bytes_written s" "length bs"]
      size_add_small [of "os_bytes_written s" "length bs"]
    by (simp add: pb_write_def) linarith
qed

interpretation buf_out: pb_bounded_output os_buf_wf os_buf_room os_buf_put
  by unfold_locales
    (auto simp: os_buf_write_ok os_buf_write_full os_buf_defs length_write_at write_at_append
      os_set_error_def split: osink.splits)

text \<open>A sizing stream, which only counts.\<close>

definition os_sizing_wf :: "'s pb_ostream \<Rightarrow> bool" where
  "os_sizing_wf s \<longleftrightarrow> os_sink s = Sizing \<and> os_bytes_written s \<le> SIZE_MAX"

definition os_sizing_room :: "'s pb_ostream \<Rightarrow> nat \<Rightarrow> bool" where
  "os_sizing_room s n \<longleftrightarrow> os_bytes_written s + n \<le> SIZE_MAX"

definition os_sizing_put :: "'s pb_ostream \<Rightarrow> bytes \<Rightarrow> 's pb_ostream" where
  "os_sizing_put s bs = s\<lparr>os_bytes_written := os_bytes_written s + length bs\<rparr>"

lemmas os_sizing_defs = os_sizing_wf_def os_sizing_room_def os_sizing_put_def

interpretation sizing_out: pb_output os_sizing_wf os_sizing_room os_sizing_put
  by unfold_locales
    (auto simp: os_sizing_defs pb_write_def size_add_small os_set_error_def)

lemma wf_ostream_from_buffer [simp, intro]:
  "n \<le> length buf \<Longrightarrow> n \<le> SIZE_MAX \<Longrightarrow> os_buf_wf (pb_ostream_from_buffer buf n)"
  by (simp add: os_buf_wf_def pb_ostream_from_buffer_def)

lemma wf_ostream_sizing [simp, intro]: "os_sizing_wf PB_OSTREAM_SIZING"
  by (simp add: os_sizing_wf_def PB_OSTREAM_SIZING_def)

end
