(* ===== verification/Nanopb_Varint.thy ===== *)
theory Nanopb_Varint
  imports Nanopb_Stream
begin

text \<open>
  The wire format primitives of nanopb over its streams: base 128 varints, zigzag integers,
  fixed width integers, tags, length-delimited strings and substreams
  (\<open>nanopb/pb_encode.c\<close>, helper functions; \<open>nanopb/pb_decode.c\<close>, helper functions).
  The encoders of the first part and the decoders of the second are proved inverse to each
  other at the end, for any stream that implements the interface of Nanopb\_Stream.
\<close>

section \<open>Encoders\<close>

text \<open>The loop of \<open>pb_encode_varint\<close> that fills the local buffer; \<open>uint_fast8_t\<close> and
  \<open>pb_byte_t\<close> have 8 bits.\<close>

function varint_loop :: "u64 \<Rightarrow> bytes" where
  "varint_loop value =
     (if value = 0 then []
      else (ucast (value AND 0x7F) OR 0x80) # varint_loop (drop_bit 7 value))"
  by pat_completeness auto
termination
proof (relation "measure unat")
  fix v :: u64
  assume "v \<noteq> 0"
  then have "unat v \<noteq> 0" by (simp add: unat_eq_zero)
  then show "(drop_bit 7 v, v) \<in> measure unat"
    by (simp add: unat_drop_bit_eq) (simp add: drop_bit_eq_div)
qed simp

declare varint_loop.simps [simp del]

definition varint_buffer :: "u64 \<Rightarrow> bytes" where
  "varint_buffer value =
     (let buffer = varint_loop value; i = length buffer
      in buffer[i - 1 := buffer ! (i - 1) AND 0x7F])"

definition pb_encode_varint :: "'s pb_ostream \<Rightarrow> u64 \<Rightarrow> 's pb_ostream \<times> bool" where
  "pb_encode_varint s value =
     (if value \<le> 0x7F then pb_write s [ucast value] 1
      else let buffer = varint_buffer value in pb_write s buffer (length buffer))"

text \<open>\<open>pb_int64_t\<close> is a 64 bit two's complement value: the same word, read with \<open>sint\<close>.\<close>

definition zigzag :: "u64 \<Rightarrow> u64" where
  "zigzag value = (if sint value < 0 then NOT (push_bit 1 value) else push_bit 1 value)"

definition pb_encode_svarint :: "'s pb_ostream \<Rightarrow> u64 \<Rightarrow> 's pb_ostream \<times> bool" where
  "pb_encode_svarint s value = pb_encode_varint s (zigzag value)"

definition fixed32_bytes :: "u32 \<Rightarrow> bytes" where
  "fixed32_bytes val =
     [ucast (val AND 0xFF), ucast (drop_bit 8 val AND 0xFF),
      ucast (drop_bit 16 val AND 0xFF), ucast (drop_bit 24 val AND 0xFF)]"

definition pb_encode_fixed32 :: "'s pb_ostream \<Rightarrow> u32 \<Rightarrow> 's pb_ostream \<times> bool" where
  "pb_encode_fixed32 s val = pb_write s (fixed32_bytes val) 4"

definition fixed64_bytes :: "u64 \<Rightarrow> bytes" where
  "fixed64_bytes val =
     [ucast (val AND 0xFF), ucast (drop_bit 8 val AND 0xFF),
      ucast (drop_bit 16 val AND 0xFF), ucast (drop_bit 24 val AND 0xFF),
      ucast (drop_bit 32 val AND 0xFF), ucast (drop_bit 40 val AND 0xFF),
      ucast (drop_bit 48 val AND 0xFF), ucast (drop_bit 56 val AND 0xFF)]"

definition pb_encode_fixed64 :: "'s pb_ostream \<Rightarrow> u64 \<Rightarrow> 's pb_ostream \<times> bool" where
  "pb_encode_fixed64 s val = pb_write s (fixed64_bytes val) 8"

text \<open>\<open>pb_wire_type_t\<close>: the decoder casts any value of three bits to the enumeration.\<close>

type_synonym pb_wire_type = u32

abbreviation PB_WT_VARINT :: pb_wire_type where "PB_WT_VARINT \<equiv> 0"
abbreviation PB_WT_64BIT :: pb_wire_type where "PB_WT_64BIT \<equiv> 1"
abbreviation PB_WT_STRING :: pb_wire_type where "PB_WT_STRING \<equiv> 2"
abbreviation PB_WT_32BIT :: pb_wire_type where "PB_WT_32BIT \<equiv> 5"

definition pb_encode_tag :: "'s pb_ostream \<Rightarrow> pb_wire_type \<Rightarrow> u32 \<Rightarrow> 's pb_ostream \<times> bool" where
  "pb_encode_tag s wiretype field_number =
     pb_encode_varint s (push_bit 3 (ucast field_number) OR ucast wiretype)"

definition pb_encode_string :: "'s pb_ostream \<Rightarrow> bytes \<Rightarrow> nat \<Rightarrow> 's pb_ostream \<times> bool" where
  "pb_encode_string s buffer count =
     (case pb_encode_varint s (of_nat count) of
        (s', False) \<Rightarrow> (s', False)
      | (s', True) \<Rightarrow> pb_write s' buffer count)"

section \<open>Decoders\<close>

text \<open>
  The do-while loop of \<open>pb_decode_varint32_eof\<close>, entered after a first byte with the
  continuation bit. \<open>bitpos\<close> is a \<open>uint_fast8_t\<close>, an 8 bit value on the target, so the
  addition of 7 wraps around at 256. The result carries the last byte, which the code tests
  after the loop.
\<close>

function varint32_loop ::
    "'s pb_istream \<Rightarrow> u8 \<Rightarrow> u32 \<Rightarrow> 's pb_istream \<times> (u8 \<times> u32 \<times> u8) option" where
  "varint32_loop s bitpos result =
     (case pb_readbyte s of
        (s', None) \<Rightarrow> (s', None)
      | (s', Some byte) \<Rightarrow>
          (let sign_extension = (if bitpos < 63 then 0xFF else 0x01) in
           if 32 \<le> bitpos \<and> byte AND 0x7F \<noteq> 0
              \<and> (drop_bit 31 result = 0 \<or> byte \<noteq> sign_extension)
           then (is_set_error s' ''varint overflow'', None)
           else
             (let result' = (if 32 \<le> bitpos then result
                             else result OR push_bit (unat bitpos) (ucast (byte AND 0x7F)));
                  bitpos' = bitpos + 7
              in if byte AND 0x80 \<noteq> 0 then varint32_loop s' bitpos' result'
                 else (s', Some (bitpos', result', byte)))))"
  by pat_completeness auto
termination
  by (relation "measure (\<lambda>(s, _, _). is_bytes_left s)") (auto dest: pb_readbyte_left_sym)

declare varint32_loop.simps [simp del]

text \<open>\<open>pb_decode_varint32_eof\<close>: the second component is what the code stores in \<open>*dest\<close> when it
  returns true, the third tells whether it sets \<open>*eof\<close>.\<close>

definition pb_decode_varint32_eof :: "'s pb_istream \<Rightarrow> 's pb_istream \<times> u32 option \<times> bool" where
  "pb_decode_varint32_eof s =
     (case pb_readbyte s of
        (s', None) \<Rightarrow> (s', None, is_bytes_left s' = 0)
      | (s', Some byte) \<Rightarrow>
          if byte AND 0x80 = 0 then (s', Some (ucast byte), False)
          else
            (case varint32_loop s' 7 (ucast (byte AND 0x7F)) of
               (s2, None) \<Rightarrow> (s2, None, False)
             | (s2, Some (bitpos, result, byte)) \<Rightarrow>
                 if bitpos = 35 \<and> byte AND 0x70 \<noteq> 0
                 then (is_set_error s2 ''varint overflow'', None, False)
                 else (s2, Some result, False)))"

definition pb_decode_varint32 :: "'s pb_istream \<Rightarrow> 's pb_istream \<times> u32 option" where
  "pb_decode_varint32 s = (case pb_decode_varint32_eof s of (s', r, _) \<Rightarrow> (s', r))"

function varint_decode_loop :: "'s pb_istream \<Rightarrow> u8 \<Rightarrow> u64 \<Rightarrow> 's pb_istream \<times> u64 option" where
  "varint_decode_loop s bitpos result =
     (if 64 \<le> bitpos then (is_set_error s ''varint overflow'', None)
      else
        (case pb_readbyte s of
           (s', None) \<Rightarrow> (s', None)
         | (s', Some byte) \<Rightarrow>
             (let result' = result OR push_bit (unat bitpos) (ucast (byte AND 0x7F));
                  bitpos' = bitpos + 7
              in if byte AND 0x80 \<noteq> 0 then varint_decode_loop s' bitpos' result'
                 else (s', Some result'))))"
  by pat_completeness auto
termination
  by (relation "measure (\<lambda>(s, _, _). is_bytes_left s)") (auto dest: pb_readbyte_left_sym)

declare varint_decode_loop.simps [simp del]

definition pb_decode_varint :: "'s pb_istream \<Rightarrow> 's pb_istream \<times> u64 option" where
  "pb_decode_varint s = varint_decode_loop s 0 0"

definition unzigzag :: "u64 \<Rightarrow> u64" where
  "unzigzag value = (if value AND 1 \<noteq> 0 then NOT (drop_bit 1 value) else drop_bit 1 value)"

definition pb_decode_svarint :: "'s pb_istream \<Rightarrow> 's pb_istream \<times> u64 option" where
  "pb_decode_svarint s =
     (case pb_decode_varint s of (s', r) \<Rightarrow> (s', map_option unzigzag r))"

definition fixed32_value :: "bytes \<Rightarrow> u32" where
  "fixed32_value bs =
     push_bit 0 (ucast (bs ! 0)) OR push_bit 8 (ucast (bs ! 1)) OR
     push_bit 16 (ucast (bs ! 2)) OR push_bit 24 (ucast (bs ! 3))"

definition pb_decode_fixed32 :: "'s pb_istream \<Rightarrow> 's pb_istream \<times> u32 option" where
  "pb_decode_fixed32 s = (case pb_read s 4 of (s', r) \<Rightarrow> (s', map_option fixed32_value r))"

definition fixed64_value :: "bytes \<Rightarrow> u64" where
  "fixed64_value bs =
     push_bit 0 (ucast (bs ! 0)) OR push_bit 8 (ucast (bs ! 1)) OR
     push_bit 16 (ucast (bs ! 2)) OR push_bit 24 (ucast (bs ! 3)) OR
     push_bit 32 (ucast (bs ! 4)) OR push_bit 40 (ucast (bs ! 5)) OR
     push_bit 48 (ucast (bs ! 6)) OR push_bit 56 (ucast (bs ! 7))"

definition pb_decode_fixed64 :: "'s pb_istream \<Rightarrow> 's pb_istream \<times> u64 option" where
  "pb_decode_fixed64 s = (case pb_read s 8 of (s', r) \<Rightarrow> (s', map_option fixed64_value r))"

function pb_skip_varint :: "'s pb_istream \<Rightarrow> 's pb_istream \<times> bool" where
  "pb_skip_varint s =
     (case pb_read s 1 of
        (s', None) \<Rightarrow> (s', False)
      | (s', Some bs) \<Rightarrow> if hd bs AND 0x80 \<noteq> 0 then pb_skip_varint s' else (s', True))"
  by pat_completeness auto
termination
  by (relation "measure is_bytes_left") (auto dest: pb_read_left_sym)

declare pb_skip_varint.simps [simp del]

definition pb_skip_string :: "'s pb_istream \<Rightarrow> 's pb_istream \<times> bool" where
  "pb_skip_string s =
     (case pb_decode_varint32 s of
        (s', None) \<Rightarrow> (s', False)
      | (s', Some len) \<Rightarrow> pb_read_null s' (unat len))"

text \<open>\<open>pb_decode_tag\<close> returns the wire type, the tag and \<open>eof\<close>; the status is whether there is a
  tag.\<close>

definition pb_decode_tag :: "'s pb_istream \<Rightarrow> 's pb_istream \<times> (pb_wire_type \<times> u32) option \<times> bool"
  where
  "pb_decode_tag s =
     (case pb_decode_varint32_eof s of
        (s', None, eof) \<Rightarrow> (s', None, eof)
      | (s', Some temp, _) \<Rightarrow>
          if temp = 0 then (s', None, True)
          else (s', Some (temp AND 7, drop_bit 3 temp), False))"

definition pb_skip_field :: "'s pb_istream \<Rightarrow> pb_wire_type \<Rightarrow> 's pb_istream \<times> bool" where
  "pb_skip_field s wire_type =
     (if wire_type = PB_WT_VARINT then pb_skip_varint s
      else if wire_type = PB_WT_64BIT then pb_read_null s 8
      else if wire_type = PB_WT_STRING then pb_skip_string s
      else if wire_type = PB_WT_32BIT then pb_read_null s 4
      else (is_set_error s ''invalid wire_type'', False))"

text \<open>The loop of \<open>read_raw_value\<close> on a varint, with the bytes stored so far.\<close>

function raw_varint_loop :: "'s pb_istream \<Rightarrow> nat \<Rightarrow> bytes \<Rightarrow> 's pb_istream \<times> bytes option" where
  "raw_varint_loop s max_size buf =
     (if max_size < Suc (length buf) then (s, None)
      else
        (case pb_read s 1 of
           (s', None) \<Rightarrow> (s', None)
         | (s', Some bs) \<Rightarrow>
             if hd bs AND 0x80 \<noteq> 0 then raw_varint_loop s' max_size (buf @ [hd bs])
             else (s', Some (buf @ [hd bs]))))"
  by pat_completeness auto
termination
  by (relation "measure (\<lambda>(_, max_size, buf). max_size - length buf)") auto

declare raw_varint_loop.simps [simp del]

definition read_raw_value ::
    "'s pb_istream \<Rightarrow> pb_wire_type \<Rightarrow> nat \<Rightarrow> 's pb_istream \<times> bytes option" where
  "read_raw_value s wire_type max_size =
     (if wire_type = PB_WT_VARINT then raw_varint_loop s max_size []
      else if wire_type = PB_WT_64BIT then pb_read s 8
      else if wire_type = PB_WT_32BIT then pb_read s 4
      else (is_set_error s ''invalid wire_type'', None))"

definition pb_make_string_substream ::
    "'s pb_istream \<Rightarrow> 's pb_istream \<times> 's pb_istream option" where
  "pb_make_string_substream s =
     (case pb_decode_varint32 s of
        (s', None) \<Rightarrow> (s', None)
      | (s', Some sz) \<Rightarrow>
          if is_bytes_left s' < unat sz
          then (is_set_error s' ''parent stream too short'', None)
          else (s'\<lparr>is_bytes_left := is_bytes_left s' - unat sz\<rparr>,
                Some (s'\<lparr>is_bytes_left := unat sz\<rparr>)))"

text \<open>\<open>pb_close_string_substream\<close> changes both streams: it returns the parent and the
  substream.\<close>

definition pb_close_string_substream ::
    "'s pb_istream \<Rightarrow> 's pb_istream \<Rightarrow> 's pb_istream \<times> 's pb_istream \<times> bool" where
  "pb_close_string_substream s sub =
     (let (sub', ok) =
        (if is_bytes_left sub \<noteq> 0 then pb_read_null sub (is_bytes_left sub) else (sub, True))
      in if ok then (s\<lparr>is_source := is_source sub', is_errmsg := is_errmsg sub'\<rparr>, sub', True)
         else (s, sub', False))"

section \<open>The bytes of a varint\<close>

text \<open>What \<open>pb_encode_varint\<close> hands to \<open>pb_write\<close>, and its recursion on groups of 7 bits.\<close>

definition varint_bytes :: "u64 \<Rightarrow> bytes" where
  "varint_bytes v = (if v \<le> 0x7F then [ucast v] else varint_buffer v)"

lemma pb_encode_varint_write:
  "pb_encode_varint s v = pb_write s (varint_bytes v) (length (varint_bytes v))"
  by (simp add: pb_encode_varint_def varint_bytes_def Let_def)

lemma low7_more: "(ucast ((ucast (d AND 0x7F) OR 0x80) AND 0x7F :: u8) :: u64) = take_bit 7 d" for d :: u64
  unfolding mask_words by (rule bit_word_eqI) (auto simp: bit_simps bit_0x80)

lemma low7_last: "(ucast (ucast d AND 0x7F :: u8) :: u64) = take_bit 7 d" for d :: u64
  unfolding mask_words by (rule bit_word_eqI) (auto simp: bit_simps)

lemma continues: "(x OR 0x80 :: u8) AND 0x80 \<noteq> 0"
proof -
  have "(x OR 0x80 :: u8) AND 0x80 = 0x80" by (rule bit_word_eqI) (auto simp: bit_simps)
  then show ?thesis by simp
qed

lemma le_0x7F: "d \<le> 0x7F \<longleftrightarrow> unat d < 128" for d :: u64
  by (simp add: word_le_nat_alt less_Suc_eq_le [of _ 127, simplified])

lemma stops:
  fixes d :: u64
  assumes "d \<le> 0x7F"
  shows "(ucast d :: u8) AND 0x80 = 0"
proof -
  have "take_bit 7 d = d" using assms by (intro take_bit_word_self) (simp add: le_0x7F)
  moreover have "(ucast (take_bit 7 d) :: u8) AND 0x80 = 0"
    by (rule bit_word_eqI) (auto simp: bit_simps bit_0x80)
  ultimately show ?thesis by simp
qed

lemma last_low7:
  fixes d :: u64
  assumes "d \<le> 0x7F"
  shows "(ucast (d AND 0x7F) OR 0x80) AND 0x7F = (ucast d :: u8)"
proof -
  have "take_bit 7 d = d" using assms by (intro take_bit_word_self) (simp add: le_0x7F)
  moreover have "(ucast (take_bit 7 d AND 0x7F) OR 0x80) AND 0x7F = (ucast (take_bit 7 d) :: u8)"
    unfolding mask_words by (rule bit_word_eqI) (auto simp: bit_simps bit_0x80)
  ultimately show ?thesis by simp
qed

lemma drop7_eq_0: "drop_bit 7 v = 0 \<longleftrightarrow> v \<le> 0x7F" for v :: u64
  by (simp add: le_0x7F word_unat_eq_iff unat_drop_bit_div)
    (simp add: div_eq_0_iff)

lemma varint_loop_0 [simp]: "varint_loop 0 = []"
  by (simp add: varint_loop.simps)

lemma varint_loop_small:
  assumes "v \<noteq> 0" "v \<le> 0x7F"
  shows "varint_loop v = [ucast (v AND 0x7F) OR 0x80]"
proof -
  have "drop_bit 7 v = 0" using assms(2) drop7_eq_0 by blast
  then show ?thesis using assms(1) by (simp only: varint_loop.simps [of v]) simp
qed

lemma varint_buffer_small: "v \<noteq> 0 \<Longrightarrow> v \<le> 0x7F \<Longrightarrow> varint_buffer v = [ucast v]"
  by (simp add: varint_buffer_def varint_loop_small last_low7 Let_def)

lemma varint_buffer_step:
  assumes "0x7F < v"
  shows "varint_buffer v = (ucast (v AND 0x7F) OR 0x80) # varint_buffer (drop_bit 7 v)"
proof -
  have "v \<noteq> 0" "drop_bit 7 v \<noteq> 0" using assms drop7_eq_0 [of v] by auto
  then obtain b bs where "varint_loop (drop_bit 7 v) = b # bs"
    by (simp add: varint_loop.simps [of "drop_bit 7 v"])
  then show ?thesis using \<open>v \<noteq> 0\<close>
    by (simp add: varint_buffer_def varint_loop.simps [of v] Let_def split: nat.split)
qed

lemma varint_bytes_step:
  assumes "0x7F < v"
  shows "varint_bytes v = (ucast (v AND 0x7F) OR 0x80) # varint_bytes (drop_bit 7 v)"
proof -
  have "drop_bit 7 v \<noteq> 0" using assms drop7_eq_0 [of v] by auto
  then show ?thesis using assms
    by (simp add: varint_bytes_def varint_buffer_step varint_buffer_small not_le)
qed

lemma varint_bytes_small: "v \<le> 0x7F \<Longrightarrow> varint_bytes v = [ucast v]"
  by (simp add: varint_bytes_def)

lemma length_varint_bytes:
  "0 < k \<Longrightarrow> unat v < 2 ^ (7 * k) \<Longrightarrow> length (varint_bytes v) \<le> k"
proof (induction k arbitrary: v)
  case (Suc k)
  show ?case
  proof (cases "v \<le> 0x7F")
    case True
    then show ?thesis by (simp add: varint_bytes_small)
  next
    case False
    then have "2 ^ 7 \<le> unat v" by (simp add: le_0x7F)
    then have "k \<noteq> 0" using Suc.prems(2) by (cases k) auto
    have "unat v < 2 ^ (7 * k) * 2 ^ 7" using Suc.prems(2) by (simp add: power_add)
    then have "unat (drop_bit 7 v) < 2 ^ (7 * k)"
      by (simp add: unat_drop_bit_div less_mult_imp_div_less)
    then have "length (varint_bytes (drop_bit 7 v)) \<le> k"
      using \<open>k \<noteq> 0\<close> by (intro Suc.IH) auto
    then show ?thesis using False by (simp add: varint_bytes_step)
  qed
qed simp

lemma varint_loop_fits: "length (varint_loop v) \<le> 10"
proof (cases "v \<le> 0x7F")
  case True
  then show ?thesis by (cases "v = 0") (simp_all add: varint_loop_small)
next
  case False
  then have "length (varint_loop v) = length (varint_bytes v)"
    by (simp add: varint_bytes_def varint_buffer_def Let_def)
  also have "\<dots> \<le> 10"
    using unat_u64_less [of v] by (intro length_varint_bytes) simp_all
  finally show ?thesis .
qed

section \<open>Decoding what was encoded\<close>

lemma of_nat_u8_le: "p < 256 \<Longrightarrow> c < 256 \<Longrightarrow> (of_nat c :: u8) \<le> of_nat p \<longleftrightarrow> c \<le> p"
  by (simp add: word_le_nat_alt unat_of_nat_u8)

lemma of_nat_u8_plus7: "(of_nat p :: u8) + 7 = of_nat (p + 7)"
  by simp

lemma drop_bit_63: "drop_bit 63 v \<le> 0x7F" for v :: u64
proof -
  have "unat v div 2 ^ 63 < 128" using unat_u64_less [of v] by (simp add: less_mult_imp_div_less)
  then show ?thesis by (simp add: le_0x7F unat_drop_bit_div)
qed

lemma take_bit_full:
  fixes v :: u64
  assumes "drop_bit p v \<le> 0x7F"
  shows "take_bit (p + 7) v = v"
proof (rule take_bit_word_self)
  have "unat v div 2 ^ p < 2 ^ 7" using assms by (simp add: le_0x7F unat_drop_bit_div)
  then have "unat v < 2 ^ 7 * 2 ^ p" by (simp add: div_less_iff_less_mult)
  then show "unat v < 2 ^ (p + 7)" by (simp add: power_add mult.commute)
qed

lemma drop_bit_add: "drop_bit 7 (drop_bit p v) = drop_bit (p + 7) v" for v :: "'a::len word"
  by (simp add: add.commute)

context pb_input
begin

lemma varint_decode_loop_ok:
  assumes "wf s" "content s = varint_bytes (drop_bit p v) @ rest" "7 dvd p" "p \<le> 63"
  shows "varint_decode_loop s (of_nat p) (take_bit p v)
         = (adv s (length (varint_bytes (drop_bit p v))), Some v)"
  using assms
proof (induction "63 - p" arbitrary: p s rule: less_induct)
  case less
  let ?d = "drop_bit p v"
  have start: "\<not> (64 :: u8) \<le> of_nat p"
    using of_nat_u8_le [of p 64] less.prems(4) by simp
  have pos: "unat (of_nat p :: u8) = p" using less.prems(4) by (simp add: unat_of_nat_u8)
  show ?case
  proof (cases "?d \<le> 0x7F")
    case True
    have "content s = ucast ?d # rest" using less.prems(2) True by (simp add: varint_bytes_small)
    then have "pb_readbyte s = (adv s 1, Some (ucast ?d))"
      using less.prems(1) by (rule readbyte_ok [rotated])
    then show ?thesis using True start
      by (simp add: varint_decode_loop.simps [of s] varint_bytes_small stops pos low7_last
          take_bit_append take_bit_full)
  next
    case False
    let ?b = "ucast (?d AND 0x7F) OR 0x80 :: u8"
    have step: "varint_bytes ?d = ?b # varint_bytes (drop_bit (p + 7) v)"
      using False varint_bytes_step [of ?d] by (simp add: drop_bit_add [symmetric])
    then have c: "content s = ?b # varint_bytes (drop_bit (p + 7) v) @ rest"
      using less.prems(2) by simp
    have read: "pb_readbyte s = (adv s 1, Some ?b)" using less.prems(1) c by (rule readbyte_ok)
    have "p \<noteq> 63" using False drop_bit_63 [of v] by auto
    then have p: "p + 7 \<le> 63" using less.prems(3,4) by (auto elim!: dvdE)
    have "varint_decode_loop (adv s 1) (of_nat (p + 7)) (take_bit (p + 7) v)
        = (adv (adv s 1) (length (varint_bytes (drop_bit (p + 7) v))), Some v)"
      using p less.prems(3) wf_adv_Cons [OF less.prems(1) c] content_adv_Cons [OF less.prems(1) c]
      by (intro less.hyps) auto
    moreover have "adv (adv s 1) (length (varint_bytes (drop_bit (p + 7) v)))
        = adv s (length (varint_bytes ?d))"
      using less.prems(1) c step by (subst adv_add) auto
    ultimately show ?thesis using start read
      by (simp add: varint_decode_loop.simps [of s] continues pos low7_more take_bit_append
          of_nat_u8_plus7 del: of_nat_add)
  qed
qed

lemma decode_varint_ok:
  assumes "wf s" "content s = varint_bytes v @ rest"
  shows "pb_decode_varint s = (adv s (length (varint_bytes v)), Some v)"
  using varint_decode_loop_ok [of s 0 v rest] assms by (simp add: pb_decode_varint_def)

end

section \<open>32 bit varints\<close>

text \<open>\<open>pb_decode_varint32\<close> accepts a value that fits in 32 bits, and the ten byte form of a
  negative \<open>int32\<close>: every bit from 31 on is set.\<close>

lemma low7_more32:
  "(ucast ((ucast ((d::u64) AND 0x7F) OR 0x80) AND 0x7F :: u8) :: u32) = take_bit 7 (ucast d)"
  unfolding mask_words by (rule bit_word_eqI) (auto simp: bit_simps bit_0x80)

lemma low7_last32: "(ucast (ucast (d::u64) AND 0x7F :: u8) :: u32) = take_bit 7 (ucast d)"
  unfolding mask_words by (rule bit_word_eqI) (auto simp: bit_simps)

lemma append32:
  "take_bit p (ucast v :: u32) OR push_bit p (take_bit 7 (ucast (drop_bit p v)))
     = take_bit (p + 7) (ucast v)" for v :: u64
  by (rule bit_word_eqI) (auto simp: bit_simps)

lemma take_bit_full32: "drop_bit p v \<le> 0x7F \<Longrightarrow> take_bit (p + 7) (ucast v :: u32) = ucast v" for v :: u64
proof -
  assume "drop_bit p v \<le> 0x7F"
  then have "take_bit (p + 7) v = v" by (rule take_bit_full)
  moreover have "take_bit (p + 7) (ucast v :: u32) = ucast (take_bit (p + 7) v)"
    by (rule bit_word_eqI) (auto simp: bit_simps)
  ultimately show ?thesis by simp
qed

definition sign_extended :: "u64 \<Rightarrow> bool" where
  "sign_extended v \<longleftrightarrow> (\<forall>n. 31 \<le> n \<and> n < 64 \<longrightarrow> bit v n)"

lemma sign_extended_big: assumes "sign_extended v" "p \<le> 56" shows "\<not> drop_bit p v \<le> 0x7F"
proof
  assume "drop_bit p v \<le> 0x7F"
  then have "drop_bit 7 (drop_bit p v) = 0" using drop7_eq_0 by blast
  then have "\<not> bit (drop_bit 7 (drop_bit p v)) (56 - p)" by simp
  moreover have "bit v 63" using assms(1) by (simp add: sign_extended_def)
  ultimately show False using assms(2) by (simp add: bit_simps)
qed

lemma sign_extended_payload:
  assumes "sign_extended v" "31 \<le> p" "p \<le> 56" 
  shows "(ucast (drop_bit p v AND 0x7F) OR 0x80 :: u8) = 0xFF"
proof -
  have "take_bit 7 (drop_bit p v) = mask 7"
    using assms by (intro bit_word_eqI) (auto simp: bit_simps sign_extended_def)
  then have "drop_bit p v AND 0x7F = 0x7F" by (simp add: mask_words take_bit_eq_mask)
  then show ?thesis by simp
qed

lemma sign_extended_63: "sign_extended v \<Longrightarrow> drop_bit 63 v = 1"
  by (rule bit_word_eqI) (auto simp: bit_simps sign_extended_def bit_1_iff dest: bit_imp_le_length)

lemma sign_extended_top: "sign_extended v \<Longrightarrow> drop_bit 31 (ucast v :: u32) = 1"
  by (rule bit_word_eqI) (auto simp: bit_simps sign_extended_def bit_1_iff)
lemma take_bit_32: "32 \<le> p \<Longrightarrow> take_bit p (w::u32) = w"
  by (rule bit_word_eqI) (auto simp: bit_simps)

lemma bit_0x70: "bit (0x70 :: int) n \<longleftrightarrow> 4 \<le> n \<and> n < 7"  "bit (0x70 :: nat) n \<longleftrightarrow> 4 \<le> n \<and> n < 7"
proof -
  have "(0x70 :: int) = push_bit 4 (mask 3)" "(0x70 :: nat) = push_bit 4 (mask 3)" by (simp_all add: mask_eq_exp_minus_1)
  then show "bit (0x70 :: int) n \<longleftrightarrow> 4 \<le> n \<and> n < 7"  "bit (0x70 :: nat) n \<longleftrightarrow> 4 \<le> n \<and> n < 7"
    by (simp_all only: bit_simps) auto
qed
lemma last28: assumes "unat (v::u64) < 2^32" shows "(ucast (drop_bit 28 v) :: u8) AND 0x70 = 0"
proof -
  have "take_bit 4 (drop_bit 28 v) = drop_bit 28 v"
    using assms by (intro take_bit_word_self) (simp add: unat_drop_bit_div less_mult_imp_div_less)
  moreover have "(ucast (take_bit 4 (drop_bit 28 v)) :: u8) AND 0x70 = 0"
    by (rule bit_word_eqI) (auto simp: bit_simps bit_0x70)
  ultimately show ?thesis by simp
qed

lemma stop28: assumes "unat (v::u64) < 2^32" shows "drop_bit 28 v \<le> 0x7F"
  using assms by (simp add: le_0x7F unat_drop_bit_div less_mult_imp_div_less)

definition fits32 :: "u64 \<Rightarrow> nat \<Rightarrow> bool" where
  "fits32 v p \<longleftrightarrow> sign_extended v \<or> (unat v < 2 ^ 32 \<and> p \<le> 28)"

context pb_input
begin

lemma varint32_loop_ok:
  assumes "wf s" "content s = varint_bytes (drop_bit p v) @ rest" "7 dvd p" "p \<le> 63" "7 \<le> p"
    "fits32 v p"
  shows "\<exists>bp b. varint32_loop s (of_nat p) (take_bit p (ucast v))
         = (adv s (length (varint_bytes (drop_bit p v))), Some (bp, ucast v, b))
         \<and> (bp = 35 \<longrightarrow> b AND 0x70 = 0)"
  using assms
proof (induction "63 - p" arbitrary: p s rule: less_induct)
  case less
  let ?d = "drop_bit p v"
  let ?w = "ucast v :: u32"
  obtain k where k: "p = 7 * k" using less.prems(3) by (rule dvdE)
  have pos: "unat (of_nat p :: u8) = p" "(32 :: u8) \<le> of_nat p \<longleftrightarrow> 32 \<le> p"
    "(of_nat p :: u8) < 63 \<longleftrightarrow> p < 63"
    using less.prems(4) of_nat_u8_le [of p 32] of_nat_u8_le [of 63 p]
    by (simp_all add: unat_of_nat_u8 word_less_nat_alt)
  have high: "take_bit p ?w = ?w \<and> drop_bit 31 ?w \<noteq> 0 \<and> sign_extended v" if "32 \<le> p"
    using that less.prems(6) sign_extended_top [of v] take_bit_32 [of p ?w] by (auto simp: fits32_def)
  show ?case
  proof (cases "?d \<le> 0x7F")
    case True
    have "content s = ucast ?d # rest" using less.prems(2) True by (simp add: varint_bytes_small)
    then have read: "pb_readbyte s = (adv s 1, Some (ucast ?d))"
      using less.prems(1) by (rule readbyte_ok [rotated])
    show ?thesis
    proof (cases "32 \<le> p")
      case True': True
      have "p = 63"
      proof -
        have "\<not> p \<le> 56" using high [OF True'] True sign_extended_big [of v p] by blast
        then show ?thesis using k less.prems(4) by arith
      qed
      then show ?thesis using read high True sign_extended_63 [of v]
        by (simp add: varint32_loop.simps [of s] varint_bytes_small)
    next
      case False
      then have p: "unat v < 2 ^ 32" "p \<le> 28"
      proof -
        have "p \<le> 28" using k False by arith
        then have "\<not> sign_extended v" using True sign_extended_big [of v p] by auto
        then show "unat v < 2 ^ 32" "p \<le> 28" using less.prems(6) by (simp_all add: fits32_def)
      qed
      have "(of_nat p :: u8) + 7 = 35 \<Longrightarrow> p = 28"
      proof -
        assume "(of_nat p :: u8) + 7 = 35"
        then have "(of_nat (p + 7) :: u8) = of_nat 35" by simp
        then have "unat (of_nat (p + 7) :: u8) = unat (of_nat 35 :: u8)" by (rule arg_cong)
        then show "p = 28" using p(2) unat_of_nat_u8 [of "p + 7"] unat_of_nat_u8 [of 35] by linarith
      qed
      then have last: "(of_nat p :: u8) + 7 = 35 \<Longrightarrow> (ucast ?d :: u8) AND 0x70 = 0"
        using last28 [OF p(1)] by auto
      have "take_bit p ?w OR push_bit p (take_bit 7 (ucast ?d)) = ?w"
        using take_bit_full32 [OF True] by (simp add: append32)
      then show ?thesis using read True False last
        by (simp add: varint32_loop.simps [of s] varint_bytes_small stops pos low7_last32)
    qed
  next
    case False
    let ?b = "ucast (?d AND 0x7F) OR 0x80 :: u8"
    have step: "varint_bytes ?d = ?b # varint_bytes (drop_bit (p + 7) v)"
      using False varint_bytes_step [of ?d] by (simp add: drop_bit_add [symmetric])
    then have c: "content s = ?b # varint_bytes (drop_bit (p + 7) v) @ rest"
      using less.prems(2) by simp
    have read: "pb_readbyte s = (adv s 1, Some ?b)" using less.prems(1) c by (rule readbyte_ok)
    have "p \<noteq> 63" using False drop_bit_63 [of v] by auto
    then have p: "p + 7 \<le> 63" using k less.prems(4) by arith
    have fits: "fits32 v (p + 7)"
    proof (cases "sign_extended v")
      case s: False
      then have u: "unat v < 2 ^ 32" "p \<le> 28" using less.prems(6) by (simp_all add: fits32_def)
      then have "p \<noteq> 28" using False stop28 [OF u(1)] by blast
      then have "p + 7 \<le> 28" using u(2) k by arith
      then show ?thesis using u(1) by (simp add: fits32_def)
    qed (simp add: fits32_def)
    obtain bp b where IH: "varint32_loop (adv s 1) (of_nat (p + 7)) (take_bit (p + 7) ?w)
        = (adv (adv s 1) (length (varint_bytes (drop_bit (p + 7) v))), Some (bp, ?w, b))"
      "bp = 35 \<longrightarrow> b AND 0x70 = 0"
    proof -
      have "63 - (p + 7) < 63 - p" "7 dvd p + 7" "7 \<le> p + 7" using p less.prems(3) by auto
      then show ?thesis
        using less.hyps [OF _ wf_adv_Cons [OF less.prems(1) c] content_adv_Cons [OF less.prems(1) c] _ p _ fits]
          that by blast
    qed
    have eq: "adv (adv s 1) (length (varint_bytes (drop_bit (p + 7) v)))
        = adv s (length (varint_bytes ?d))"
      using less.prems(1) c step by (subst adv_add) auto
    have "varint32_loop s (of_nat p) (take_bit p ?w)
        = varint32_loop (adv s 1) (of_nat (p + 7)) (take_bit (p + 7) ?w)"
    proof (cases "32 \<le> p")
      case True
      have "?b = 0xFF" using high [OF True] True p by (intro sign_extended_payload) auto
      moreover have "take_bit (p + 7) ?w = ?w" using take_bit_32 [of "p + 7" ?w] True by simp
      ultimately show ?thesis using True high [OF True] read p
        by (simp add: varint32_loop.simps [of s] pos of_nat_u8_plus7 del: of_nat_add)
    next
      case False
      then show ?thesis using read
        by (simp add: varint32_loop.simps [of s] pos continues low7_more32 append32
            of_nat_u8_plus7 del: of_nat_add)
    qed
    then show ?thesis using IH eq by auto
  qed
qed


lemma decode_varint32_ok:
  assumes "wf s" "content s = varint_bytes v @ rest" "sign_extended v \<or> unat v < 2 ^ 32"
  shows "pb_decode_varint32_eof s = (adv s (length (varint_bytes v)), Some (ucast v), False)"
proof (cases "v \<le> 0x7F")
  case True
  have small: "(ucast (ucast v :: u8) :: u32) = ucast v"
  proof -
    have "take_bit 7 v = v" using True by (intro take_bit_word_self) (simp add: le_0x7F)
    moreover have "(ucast (ucast (take_bit 7 v) :: u8) :: u32) = ucast (take_bit 7 v)"
      by (rule bit_word_eqI) (auto simp: bit_simps)
    ultimately show ?thesis by simp
  qed
  have "content s = ucast v # rest" using assms(2) True by (simp add: varint_bytes_small)
  then have "pb_readbyte s = (adv s 1, Some (ucast v))" using assms(1) by (rule readbyte_ok [rotated])
  then show ?thesis using True small
    by (simp add: pb_decode_varint32_eof_def stops varint_bytes_small)
next
  case False
  let ?b = "ucast (v AND 0x7F) OR 0x80 :: u8"
  have step: "varint_bytes v = ?b # varint_bytes (drop_bit 7 v)"
    using False by (intro varint_bytes_step) simp
  then have c: "content s = ?b # varint_bytes (drop_bit 7 v) @ rest" using assms(2) by simp
  have read: "pb_readbyte s = (adv s 1, Some ?b)" using assms(1) c by (rule readbyte_ok)
  have "fits32 v 7" using assms(3) by (auto simp: fits32_def)
  then obtain bp b where "varint32_loop (adv s 1) (of_nat 7) (take_bit 7 (ucast v))
      = (adv (adv s 1) (length (varint_bytes (drop_bit 7 v))), Some (bp, ucast v, b))"
    "bp = 35 \<longrightarrow> b AND 0x70 = 0"
    using varint32_loop_ok [of "adv s 1" 7 v rest] assms(1) c
      wf_adv_Cons [OF assms(1) c] content_adv_Cons [OF assms(1) c] by auto
  moreover have "adv (adv s 1) (length (varint_bytes (drop_bit 7 v))) = adv s (length (varint_bytes v))"
    using assms(1) c step by (subst adv_add) auto
  ultimately show ?thesis using read
    by (auto simp: pb_decode_varint32_eof_def continues low7_more32)
qed

end

text \<open>Both 32 bit readings of a field arrive: an \<open>uint32\<close> is zero extended by the encoder, an
  \<open>int32\<close> sign extended to 64 bits.\<close>

lemma sign_or_zero_extended:
  fixes w :: u32
  shows "sign_extended (ucast w) \<or> unat (ucast w :: u64) < 2 ^ 32"
    and "sign_extended (scast w) \<or> unat (scast w :: u64) < 2 ^ 32"
proof -
  show "sign_extended (ucast w) \<or> unat (ucast w :: u64) < 2 ^ 32"
    using unat_u32_less [of w] by (simp add: unsigned_ucast_eq take_bit_nat_eq_self)
  show "sign_extended (scast w) \<or> unat (scast w :: u64) < 2 ^ 32"
  proof (cases "bit w 31")
    case True
    then show ?thesis by (auto simp: sign_extended_def bit_simps min_def)
  next
    case False
    then have "(scast w :: u64) = take_bit 32 (scast w)"
      by (intro bit_word_eqI) (auto simp: bit_simps min_def dest: bit_imp_le_length)
    then have "unat (scast w :: u64) = unat (take_bit 32 (scast w :: u64))" by (rule arg_cong)
    also have "\<dots> < 2 ^ 32" by (simp only: unat_take_bit_mod) simp
    finally show ?thesis ..
  qed
qed

lemma ucast_ucast_extend: "ucast (ucast w :: u64) = w" for w :: u32
  by (rule bit_word_eqI) (auto simp: bit_simps)

lemma ucast_scast_extend: "ucast (scast w :: u64) = w" for w :: u32
proof (rule bit_word_eqI)
  fix n
  assume "n < LENGTH(32)"
  then have "n < 31 \<or> n = 31" by auto
  then show "bit (ucast (scast w :: u64) :: u32) n = bit w n" by (auto simp: bit_simps)
qed

section \<open>Fixed width integers, zigzag, tags\<close>

lemma byte_field:
  "(ucast (ucast (w AND 0xFF :: u32) :: u8) :: u32) = take_bit 8 w"
  "(ucast (ucast (v AND 0xFF :: u64) :: u8) :: u64) = take_bit 8 v"
  unfolding mask_words by (rule bit_word_eqI; auto simp: bit_simps)+

lemma fixed32_roundtrip: "fixed32_value (fixed32_bytes w) = w"
proof -
  have "fixed32_value (fixed32_bytes w) = take_bit 8 w OR push_bit 8 (take_bit 8 (drop_bit 8 w))
      OR push_bit 16 (take_bit 8 (drop_bit 16 w)) OR push_bit 24 (take_bit 8 (drop_bit 24 w))"
    by (simp add: fixed32_value_def fixed32_bytes_def byte_field)
  also have "\<dots> = take_bit 32 w"
    by (simp add: or.assoc [symmetric] take_bit_append)
  also have "\<dots> = w" using unat_u32_less [of w] by (intro take_bit_word_self) simp
  finally show ?thesis .
qed

lemma fixed64_roundtrip: "fixed64_value (fixed64_bytes w) = w"
proof -
  have "fixed64_value (fixed64_bytes w) = take_bit 8 w OR push_bit 8 (take_bit 8 (drop_bit 8 w))
      OR push_bit 16 (take_bit 8 (drop_bit 16 w)) OR push_bit 24 (take_bit 8 (drop_bit 24 w))
      OR push_bit 32 (take_bit 8 (drop_bit 32 w)) OR push_bit 40 (take_bit 8 (drop_bit 40 w))
      OR push_bit 48 (take_bit 8 (drop_bit 48 w)) OR push_bit 56 (take_bit 8 (drop_bit 56 w))"
    by (simp add: fixed64_value_def fixed64_bytes_def byte_field)
  also have "\<dots> = take_bit 64 w"
    by (simp add: or.assoc [symmetric] take_bit_append)
  also have "\<dots> = w" using unat_u64_less [of w] by (intro take_bit_word_self) simp
  finally show ?thesis .
qed

lemma unzigzag_zigzag: "unzigzag (zigzag v) = v"
proof (cases "sint v < 0")
  case True
  then have top: "bit v 63" using bit_last_iff [of v] by simp
  have odd: "NOT (push_bit 1 v) AND 1 \<noteq> 0"
    by (simp add: and_one_eq mod_2_eq_odd)
  have "NOT (drop_bit 1 (NOT (push_bit 1 v))) = v"
  proof (rule bit_word_eqI)
    fix n
    assume "n < LENGTH(64)"
    then have "n < 63 \<or> n = 63" by auto
    then show "bit (NOT (drop_bit 1 (NOT (push_bit 1 v)))) n = bit v n"
      using top by (auto simp: bit_simps bit_double_iff mult.commute [of v 2])
  qed
  then show ?thesis using True odd by (simp add: unzigzag_def zigzag_def)
next
  case False
  then have top: "\<not> bit v 63" using bit_last_iff [of v] by simp
  have "drop_bit 1 (push_bit 1 v) = v"
  proof (rule bit_word_eqI)
    fix n
    assume "n < LENGTH(64)"
    then have "n < 63 \<or> n = 63" by auto
    then show "bit (drop_bit 1 (push_bit 1 v)) n = bit v n"
      using top by (auto simp: bit_simps bit_double_iff mult.commute [of v 2])
  qed
  moreover have "push_bit 1 v AND 1 = 0" by (simp add: and_one_eq mod_2_eq_odd)
  ultimately show ?thesis using False by (simp add: unzigzag_def zigzag_def)
qed

lemma pb_encode_fixed32_write:
  "pb_encode_fixed32 s w = pb_write s (fixed32_bytes w) (length (fixed32_bytes w))"
  by (simp add: pb_encode_fixed32_def fixed32_bytes_def eval_nat_numeral)

lemma pb_encode_fixed64_write:
  "pb_encode_fixed64 s w = pb_write s (fixed64_bytes w) (length (fixed64_bytes w))"
  by (simp add: pb_encode_fixed64_def fixed64_bytes_def eval_nat_numeral)

text \<open>The number a tag is sent as, and its two parts read back.\<close>

definition tag_value :: "pb_wire_type \<Rightarrow> u32 \<Rightarrow> u64" where
  "tag_value wiretype field_number = push_bit 3 (ucast field_number) OR ucast wiretype"

lemma tag_value_parts:
  assumes "unat wt < 8" "unat tag < 2 ^ 29"
  shows "(ucast (tag_value wt tag) :: u32) AND 7 = wt"
    and "drop_bit 3 (ucast (tag_value wt tag) :: u32) = tag"
    and "unat (tag_value wt tag) < 2 ^ 32"
proof -
  have wt: "take_bit 3 wt = wt" and tag: "take_bit 29 tag = tag"
    using assms by (auto intro: take_bit_word_self)
  have bwt: "n < 3" if "bit wt n" for n using that wt by (metis bit_take_bit_iff)
  have btag: "n < 29" if "bit tag n" for n using that tag by (metis bit_take_bit_iff)
  have m: "(7 :: u32) = mask 3" by (simp add: mask_eq_exp_minus_1)
  show "(ucast (tag_value wt tag) :: u32) AND 7 = wt"
    unfolding m by (rule bit_word_eqI) (auto simp: bit_simps tag_value_def dest: bwt)
  show "drop_bit 3 (ucast (tag_value wt tag) :: u32) = tag"
    by (rule bit_word_eqI)
      (auto simp: bit_simps tag_value_def dest: bwt btag bit_imp_le_length)
  have "tag_value wt tag = take_bit 32 (tag_value wt tag)"
    by (rule bit_word_eqI) (auto simp: bit_simps tag_value_def dest: bwt btag)
  then have "unat (tag_value wt tag) = unat (take_bit 32 (tag_value wt tag))" by (rule arg_cong)
  also have "\<dots> < 2 ^ 32" by (simp only: unat_take_bit_mod) simp
  finally show "unat (tag_value wt tag) < 2 ^ 32" .
qed
section \<open>Fields read back through the stream interface\<close>

context pb_input
begin

lemma decode_tag_ok:
  assumes "wf s" "content s = varint_bytes (tag_value wt tag) @ rest"
    "unat wt < 8" "unat tag < 2 ^ 29" "tag \<noteq> 0"
  shows "pb_decode_tag s = (adv s (length (varint_bytes (tag_value wt tag))), Some (wt, tag), False)"
proof -
  note parts = tag_value_parts [OF assms(3,4)]
  have "(ucast (tag_value wt tag) :: u32) \<noteq> 0" using parts(2) assms(5) by auto
  then show ?thesis
    using decode_varint32_ok [OF assms(1,2)] parts by (simp add: pb_decode_tag_def)
qed

lemma decode_svarint_ok:
  assumes "wf s" "content s = varint_bytes (zigzag v) @ rest"
  shows "pb_decode_svarint s = (adv s (length (varint_bytes (zigzag v))), Some v)"
  using decode_varint_ok [OF assms] by (simp add: pb_decode_svarint_def unzigzag_zigzag)

lemma decode_fixed32_ok:
  assumes "wf s" "content s = fixed32_bytes w @ rest"
  shows "pb_decode_fixed32 s = (adv s 4, Some w)"
proof -
  have "pb_read s 4 = (adv s 4, Some (take 4 (content s)))"
    using assms by (intro read_ok) (simp_all add: fixed32_bytes_def)
  moreover have "take 4 (content s) = fixed32_bytes w" using assms by (simp add: fixed32_bytes_def)
  ultimately show ?thesis by (simp add: pb_decode_fixed32_def fixed32_roundtrip)
qed

lemma decode_fixed64_ok:
  assumes "wf s" "content s = fixed64_bytes w @ rest"
  shows "pb_decode_fixed64 s = (adv s 8, Some w)"
proof -
  have "pb_read s 8 = (adv s 8, Some (take 8 (content s)))"
    using assms by (intro read_ok) (simp_all add: fixed64_bytes_def)
  moreover have "take 8 (content s) = fixed64_bytes w" using assms by (simp add: fixed64_bytes_def)
  ultimately show ?thesis by (simp add: pb_decode_fixed64_def fixed64_roundtrip)
qed

lemma skip_varint_ok:
  "wf s \<Longrightarrow> content s = varint_bytes v @ rest \<Longrightarrow>
     pb_skip_varint s = (adv s (length (varint_bytes v)), True)"
proof (induction "unat v" arbitrary: v s rule: less_induct)
  case less
  show ?case
  proof (cases "v \<le> 0x7F")
    case True
    then have c: "content s = ucast v # rest" using less.prems(2) by (simp add: varint_bytes_small)
    then have "pb_read s 1 = (adv s 1, Some [ucast v])"
      using read_ok [of s 1] less.prems(1) by simp
    then show ?thesis using True
      by (simp add: pb_skip_varint.simps [of s] varint_bytes_small stops)
  next
    case False
    let ?b = "ucast (v AND 0x7F) OR 0x80 :: u8"
    have step: "varint_bytes v = ?b # varint_bytes (drop_bit 7 v)"
      using False by (intro varint_bytes_step) simp
    then have c: "content s = ?b # varint_bytes (drop_bit 7 v) @ rest" using less.prems(2) by simp
    have smaller: "unat (drop_bit 7 v) < unat v"
      using False by (simp add: unat_drop_bit_div le_0x7F)
    have "pb_read s 1 = (adv s 1, Some [?b])"
      using read_ok [of s 1] less.prems(1) c by simp
    moreover have "pb_skip_varint (adv s 1)
        = (adv (adv s 1) (length (varint_bytes (drop_bit 7 v))), True)"
      using less.hyps [OF smaller wf_adv_Cons [OF less.prems(1) c]
          content_adv_Cons [OF less.prems(1) c]] .
    moreover have "adv (adv s 1) (length (varint_bytes (drop_bit 7 v)))
        = adv s (length (varint_bytes v))"
      using less.prems(1) c step by (subst adv_add) auto
    ultimately show ?thesis by (simp add: pb_skip_varint.simps [of s] continues)
  qed
qed

lemma decode_length_ok:
  assumes "wf s" "content s = varint_bytes (of_nat (length bs)) @ bs @ rest" "length bs < 2 ^ 32"
  shows "pb_decode_varint32 s
    = (adv s (length (varint_bytes (of_nat (length bs)))), Some (of_nat (length bs)))"
proof -
  have "unat (of_nat (length bs) :: u64) < 2 ^ 32" using assms(3) by (simp add: unat_of_nat)
  then have "pb_decode_varint32_eof s
    = (adv s (length (varint_bytes (of_nat (length bs)))), Some (ucast (of_nat (length bs) :: u64)), False)"
    using assms by (intro decode_varint32_ok) auto
  moreover have "(ucast (of_nat (length bs) :: u64) :: u32) = of_nat (length bs)"
    using assms(3) by (simp add: word_unat_eq_iff unsigned_ucast_eq unat_of_nat take_bit_nat_eq_self)
  ultimately show ?thesis by (simp add: pb_decode_varint32_def)
qed

lemma skip_string_ok:
  assumes "wf s" "content s = varint_bytes (of_nat (length bs)) @ bs @ rest" "length bs < 2 ^ 32"
  shows "pb_skip_string s = (adv s (length (varint_bytes (of_nat (length bs))) + length bs), True)"
proof -
  let ?n = "length (varint_bytes (of_nat (length bs)))"
  have "wf (adv s ?n)" "content (adv s ?n) = bs @ rest"
    using assms by (auto simp: wf_adv content_adv)
  then have "pb_read_null (adv s ?n) (length bs) = (adv (adv s ?n) (length bs), True)"
    by (intro read_null_ok) auto
  moreover have "adv (adv s ?n) (length bs) = adv s (?n + length bs)"
    using assms by (intro adv_add) auto
  moreover have "unat (of_nat (length bs) :: u32) = length bs"
    using assms(3) by (simp add: unat_of_nat)
  ultimately show ?thesis
    using decode_length_ok [OF assms] by (simp add: pb_skip_string_def)
qed

text \<open>A length-delimited field becomes a substream with exactly its bytes, and the parent's length
  shrinks by as much; closing the substream leaves the parent right behind the field.\<close>

lemma make_substream_ok:
  assumes "wf s" "content s = varint_bytes (of_nat (length bs)) @ bs @ rest" "length bs < 2 ^ 32"
  defines "s1 \<equiv> adv s (length (varint_bytes (of_nat (length bs))))"
  shows "pb_make_string_substream s
    = (s1\<lparr>is_bytes_left := length rest\<rparr>, Some (s1\<lparr>is_bytes_left := length bs\<rparr>))"
    and "wf (s1\<lparr>is_bytes_left := length bs\<rparr>)"
    and "content (s1\<lparr>is_bytes_left := length bs\<rparr>) = bs"
proof -
  have s1: "wf s1" "content s1 = bs @ rest"
    unfolding s1_def using assms by (auto simp: wf_adv content_adv)
  have "unat (of_nat (length bs) :: u32) = length bs" using assms(3) by (simp add: unat_of_nat)
  then show "pb_make_string_substream s
    = (s1\<lparr>is_bytes_left := length rest\<rparr>, Some (s1\<lparr>is_bytes_left := length bs\<rparr>))"
    using decode_length_ok [OF assms(1-3)] s1 left [OF s1(1)]
    by (simp add: pb_make_string_substream_def s1_def)
  show "wf (s1\<lparr>is_bytes_left := length bs\<rparr>)" "content (s1\<lparr>is_bytes_left := length bs\<rparr>) = bs"
    using s1 by (simp_all add: wf_limit content_limit)
qed

end

text \<open>Reading with a decoder what a write put into a fresh buffer.\<close>

lemma buffer_after_write:
  fixes s' :: "'s pb_ostream"
  assumes "n \<le> length buf" "n \<le> SIZE_MAX"
    "pb_write (pb_ostream_from_buffer buf n) bs (length bs) = (s', True)"
    "os_sink s' = BufWrite mem pos" "length bs \<le> SIZE_MAX"
  shows "pos = length bs" "mem = bs @ drop (length bs) buf" "length mem = length buf"
proof -
  let ?s = "pb_ostream_from_buffer buf n :: 's pb_ostream"
  have wf: "os_buf_wf ?s" using assms(1,2) ..
  have room: "os_buf_room ?s (length bs)"
    using buf_out.write_succeeds_iff [OF wf assms(5)] assms(3) by simp
  then show "pos = length bs" "mem = bs @ drop (length bs) buf" "length mem = length buf"
    using buf_out.write_ok [OF wf room] assms
    by (auto simp: os_buf_put_def pb_ostream_from_buffer_def write_at_def os_buf_room_def)
qed

lemma decode_after_write:
  fixes dec :: "'t pb_istream \<Rightarrow> 't pb_istream \<times> 'r"
  assumes "n \<le> length buf" "n \<le> SIZE_MAX"
    "pb_write (pb_ostream_from_buffer buf n) bs (length bs) = (s', True)"
    "os_sink s' = BufWrite mem pos" "length bs \<le> SIZE_MAX" "pos \<le> k" "k \<le> length mem"
    and dec: "\<And>s rest. is_buf_wf s \<Longrightarrow> is_buf_content s = bs @ rest \<Longrightarrow>
      dec s = (is_buf_adv s (length bs), r)"
  shows "dec (pb_istream_from_buffer mem k) = (pb_istream_from_buffer (drop pos mem) (k - pos), r)"
proof -
  note mem = buffer_after_write [OF assms(1-5)]
  let ?s = "pb_istream_from_buffer mem k :: 't pb_istream"
  have "is_buf_wf ?s" using assms(7) ..
  moreover have "is_buf_content ?s = bs @ take (k - pos) (drop (length bs) buf)"
    using mem assms(6) by simp
  ultimately show ?thesis using dec mem(1) by simp
qed

lemma length_varint_bytes_10: "length (varint_bytes v) \<le> 10"
  using unat_u64_less [of v] by (intro length_varint_bytes) simp_all

lemma varint_bytes_size: "length (varint_bytes v) \<le> SIZE_MAX"
  using length_varint_bytes_10 [of v] by simp

end
