(* ===== verification/Nanopb_Wire.thy ===== *)
theory Nanopb_Wire
  imports Nanopb_Varint
begin

text \<open>
  Whole fields on the nanopb streams: strings and skipped fields through the interfaces of
  Nanopb\_Stream, the bound on what a varint read consumes, and the properties of the wire
  format, each stated on memory streams from an encoder call to a decoder call.
\<close>

section \<open>Whole fields\<close>

context pb_bounded_output
begin

text \<open>A string goes out exactly when its length and its bytes fit together.\<close>

lemma encode_string_ok:
  assumes "wf s" "room s (length (varint_bytes (of_nat (length bs)) @ bs))"
  shows "pb_encode_string s bs (length bs) = (put s (varint_bytes (of_nat (length bs)) @ bs), True)"
  using assms
  by (simp add: pb_encode_string_def pb_encode_varint_write room_add write_ok wf_put put_append)

lemma encode_string_fails:
  assumes "wf s" "\<not> room s (length (varint_bytes (of_nat (length bs)) @ bs))" "length bs \<le> SIZE_MAX"
  shows "\<not> snd (pb_encode_string s bs (length bs))"
proof (cases "room s (length (varint_bytes (of_nat (length bs))))")
  case True
  then show ?thesis using assms
    by (simp add: pb_encode_string_def pb_encode_varint_write room_add write_ok write_full wf_put)
next
  case False
  then show ?thesis using assms varint_bytes_size
    by (simp add: pb_encode_string_def pb_encode_varint_write write_full)
qed

end

text \<open>The bytes that follow a tag of each wire type.\<close>

definition wire_payload :: "pb_wire_type \<Rightarrow> bytes \<Rightarrow> bool" where
  "wire_payload wt bs \<longleftrightarrow>
     wt = PB_WT_VARINT \<and> (\<exists>v. bs = varint_bytes v) \<or>
     wt = PB_WT_64BIT \<and> length bs = 8 \<or>
     wt = PB_WT_STRING \<and> (\<exists>b. bs = varint_bytes (of_nat (length b)) @ b \<and> length b < 2 ^ 32) \<or>
     wt = PB_WT_32BIT \<and> length bs = 4"

context pb_input
begin

lemma skip_field_ok:
  assumes "wf s" "content s = bs @ rest" "wire_payload wt bs"
  shows "pb_skip_field s wt = (adv s (length bs), True)"
  using assms(3) unfolding wire_payload_def
proof (elim disjE conjE exE)
  fix v assume "wt = PB_WT_VARINT" "bs = varint_bytes v"
  then show ?thesis using skip_varint_ok [of s v rest] assms(1,2) by (simp add: pb_skip_field_def)
next
  fix b assume "wt = PB_WT_STRING" "bs = varint_bytes (of_nat (length b)) @ b" "length b < 2 ^ 32"
  then show ?thesis using skip_string_ok [of s b rest] assms(1,2) by (simp add: pb_skip_field_def)
qed (use assms(1,2) in \<open>simp_all add: pb_skip_field_def read_null_ok\<close>)

end

lemma from_buffer_limit [simp]:
  "(pb_istream_from_buffer mem k)\<lparr>is_bytes_left := j\<rparr> = pb_istream_from_buffer mem j"
  by (simp add: pb_istream_from_buffer_def)

lemma from_buffer_rejoin [simp]:
  "(pb_istream_from_buffer mem k)
     \<lparr>is_source := is_source (pb_istream_from_buffer mem' j :: 's pb_istream),
      is_errmsg := is_errmsg (pb_istream_from_buffer mem'' j' :: 's pb_istream)\<rparr>
   = (pb_istream_from_buffer mem' k :: 's pb_istream)"
  by (simp add: pb_istream_from_buffer_def)

lemma from_buffer_left [simp]: "is_bytes_left (pb_istream_from_buffer mem k) = k"
  by (simp add: pb_istream_from_buffer_def)

lemma buffer_close_substream:
  assumes "j \<le> length mem"
  shows "pb_close_string_substream (pb_istream_from_buffer mem' r :: 's pb_istream)
      (pb_istream_from_buffer mem j)
    = (pb_istream_from_buffer (drop j mem) r, pb_istream_from_buffer (drop j mem) 0, True)"
proof (cases "j = 0")
  case True
  then show ?thesis by (simp add: pb_close_string_substream_def)
next
  case False
  have "pb_read_null (pb_istream_from_buffer mem j :: 's pb_istream) j
      = (pb_istream_from_buffer (drop j mem) 0, True)"
    using buf_in.read_null_ok [of "pb_istream_from_buffer mem j :: 's pb_istream" j] assms by simp
  then show ?thesis using False by (simp add: pb_close_string_substream_def)
qed

section \<open>How much a varint consumes\<close>

lemma varint_decode_loop_bound:
  "varint_decode_loop s (of_nat (7 * k)) r = (s', q) \<Longrightarrow> k \<le> 10 \<Longrightarrow>
     is_bytes_left s' \<le> is_bytes_left s \<and> is_bytes_left s \<le> is_bytes_left s' + (10 - k)"
proof (induction "10 - k" arbitrary: k s r)
  case 0
  then have "k = 10" by simp
  then show ?case using 0 by (auto simp: varint_decode_loop.simps [of s])
next
  case (Suc n)
  have eq: "(of_nat (7 * k) :: u8) + 7 = of_nat (7 * Suc k)" by simp
  show ?case
  proof (cases "(64 :: u8) \<le> of_nat (7 * k)")
    case True
    then show ?thesis using Suc.prems by (auto simp: varint_decode_loop.simps [of s])
  next
    case False
    show ?thesis
    proof (cases "pb_readbyte s")
      case (Pair s1 b)
      show ?thesis
      proof (cases b)
        case None
        then show ?thesis
          using Suc.prems False Pair
          by (auto simp: varint_decode_loop.simps [of s] dest: pb_readbyte_None_left)
      next
        case (Some byte)
        have l: "is_bytes_left s = Suc (is_bytes_left s1)"
          using Pair Some by (auto dest: pb_readbyte_left)
        show ?thesis
        proof (cases "byte AND 0x80 = 0")
          case True
          then show ?thesis using Suc.prems Suc.hyps(2) False Pair Some l
            by (auto simp: varint_decode_loop.simps [of s])
        next
          case more: False
          have "varint_decode_loop s1 (of_nat (7 * Suc k))
              (r OR push_bit (unat (of_nat (7 * k) :: u8)) (ucast (byte AND 0x7F))) = (s', q)"
            using Suc.prems False Pair Some more
            by (simp add: varint_decode_loop.simps [of s] eq del: of_nat_Suc of_nat_mult mult_Suc_right)
          moreover have "n = 10 - Suc k" "Suc k \<le> 10" using Suc.hyps(2) by auto
          ultimately have "is_bytes_left s' \<le> is_bytes_left s1
              \<and> is_bytes_left s1 \<le> is_bytes_left s' + (10 - Suc k)"
            using Suc.hyps(1) by blast
          then show ?thesis using l Suc.hyps(2) by auto
        qed
      qed
    qed
  qed
qed

text \<open>A varint of 38 bytes: 37 continuation bytes without payload, then 1.\<close>

definition overlong_varint :: bytes where
  "overlong_varint = replicate 37 0x80 @ [1]"

section \<open>Properties\<close>

text \<open>Evaluating encoders on a small memory stream.\<close>

lemmas eval_encode =
  pb_encode_varint_def pb_encode_svarint_def pb_encode_tag_def pb_encode_string_def
  varint_buffer_def zigzag_def varint_loop.simps pb_write_def os_callback_def buf_write_def
  pb_ostream_from_buffer_def write_at_def size_add_def Let_def

text \<open>C1: Every 64 bit value that \<open>pb_encode_varint\<close> manages to put into a memory stream is read
  back by \<open>pb_decode_varint\<close> from that memory, which consumes exactly the bytes written.\<close>

theorem pb_varint_roundtrip:
  assumes "n \<le> length buf" "n \<le> SIZE_MAX"
    "pb_encode_varint (pb_ostream_from_buffer buf n) v = (s', True)"
    "os_sink s' = BufWrite mem pos" "pos \<le> k" "k \<le> length mem"
  shows "pb_decode_varint (pb_istream_from_buffer mem k)
    = (pb_istream_from_buffer (drop pos mem) (k - pos), Some v)"
  using assms unfolding pb_encode_varint_write
  by (intro decode_after_write [where bs = "varint_bytes v"])
    (auto intro: buf_in.decode_varint_ok varint_bytes_size)

theorem pb_varint_roundtrip_witness:
  "pb_encode_varint (pb_ostream_from_buffer [0, 0, 0, 0] 4 :: unit pb_ostream) 300
     = (\<lparr>os_sink = BufWrite [0xAC, 2, 0, 0] 2, os_max_size = 4, os_bytes_written = 2,
         os_errmsg = None\<rparr>, True)
   \<and> pb_decode_varint (pb_istream_from_buffer [0xAC, 2, 0, 0] 3 :: unit pb_istream)
     = (pb_istream_from_buffer (drop 2 [0xAC, 2, 0, 0]) (3 - 2), Some 300)"
proof -
  have e: "pb_encode_varint (pb_ostream_from_buffer [0, 0, 0, 0] 4 :: unit pb_ostream) 300
     = (\<lparr>os_sink = BufWrite [0xAC, 2, 0, 0] 2, os_max_size = 4, os_bytes_written = 2,
         os_errmsg = None\<rparr>, True)"
    by (simp add: eval_encode)
  show ?thesis by (intro conjI e, rule pb_varint_roundtrip [OF _ _ e]) simp_all
qed

text \<open>C2: 32 bit fields survive both ways they are sent: an unsigned value is widened with zeros,
  a signed one with its sign, and \<open>pb_decode_varint32\<close> returns the 32 bits in either case.\<close>

theorem pb_varint32_roundtrip:
  assumes "n \<le> length buf" "n \<le> SIZE_MAX" "x = ucast w \<or> x = scast w"
    "pb_encode_varint (pb_ostream_from_buffer buf n) x = (s', True)"
    "os_sink s' = BufWrite mem pos" "pos \<le> k" "k \<le> length mem"
  shows "pb_decode_varint32 (pb_istream_from_buffer mem k)
    = (pb_istream_from_buffer (drop pos mem) (k - pos), Some w)"
proof (rule decode_after_write [where bs = "varint_bytes x"])
  fix s :: "'b pb_istream" and rest
  assume "is_buf_wf s" "is_buf_content s = varint_bytes x @ rest"
  then have "pb_decode_varint32_eof s
      = (is_buf_adv s (length (varint_bytes x)), Some (ucast x), False)"
    using assms(3) sign_or_zero_extended [of w] by (intro buf_in.decode_varint32_ok) auto
  then show "pb_decode_varint32 s = (is_buf_adv s (length (varint_bytes x)), Some w)"
    using assms(3) by (auto simp: pb_decode_varint32_def ucast_ucast_extend ucast_scast_extend)
qed (use assms varint_bytes_size in \<open>auto simp: pb_encode_varint_write\<close>)

theorem pb_varint32_roundtrip_witness:
  "pb_encode_varint (pb_ostream_from_buffer (replicate 10 0) 10 :: unit pb_ostream) (scast (-2 :: u32))
     = (\<lparr>os_sink = BufWrite [0xFE, 0xFF, 0xFF, 0xFF, 0xFF, 0xFF, 0xFF, 0xFF, 0xFF, 1] 10,
         os_max_size = 10, os_bytes_written = 10, os_errmsg = None\<rparr>, True)
   \<and> pb_decode_varint32 (pb_istream_from_buffer
         [0xFE, 0xFF, 0xFF, 0xFF, 0xFF, 0xFF, 0xFF, 0xFF, 0xFF, 1] 10 :: unit pb_istream)
     = (pb_istream_from_buffer
         (drop 10 [0xFE, 0xFF, 0xFF, 0xFF, 0xFF, 0xFF, 0xFF, 0xFF, 0xFF, 1]) (10 - 10), Some (-2))"
proof -
  have e: "pb_encode_varint (pb_ostream_from_buffer (replicate 10 0) 10 :: unit pb_ostream)
       (scast (-2 :: u32))
     = (\<lparr>os_sink = BufWrite [0xFE, 0xFF, 0xFF, 0xFF, 0xFF, 0xFF, 0xFF, 0xFF, 0xFF, 1] 10,
         os_max_size = 10, os_bytes_written = 10, os_errmsg = None\<rparr>, True)"
    by (simp add: eval_encode)
  show ?thesis by (intro conjI e, rule pb_varint32_roundtrip [OF _ _ disjI2 [OF refl] e]) simp_all
qed

text \<open>C3: Zigzag encoded signed values round-trip through the streams.\<close>

theorem pb_svarint_roundtrip:
  assumes "n \<le> length buf" "n \<le> SIZE_MAX"
    "pb_encode_svarint (pb_ostream_from_buffer buf n) v = (s', True)"
    "os_sink s' = BufWrite mem pos" "pos \<le> k" "k \<le> length mem"
  shows "pb_decode_svarint (pb_istream_from_buffer mem k)
    = (pb_istream_from_buffer (drop pos mem) (k - pos), Some v)"
  using assms unfolding pb_encode_svarint_def pb_encode_varint_write
  by (intro decode_after_write [where bs = "varint_bytes (zigzag v)"])
    (auto intro: buf_in.decode_svarint_ok varint_bytes_size)

theorem pb_svarint_roundtrip_witness:
  "pb_encode_svarint (pb_ostream_from_buffer [0, 0] 2 :: unit pb_ostream) (-3)
     = (\<lparr>os_sink = BufWrite [5, 0] 1, os_max_size = 2, os_bytes_written = 1,
         os_errmsg = None\<rparr>, True)
   \<and> pb_decode_svarint (pb_istream_from_buffer [5, 0] 2 :: unit pb_istream)
     = (pb_istream_from_buffer (drop 1 [5, 0]) (2 - 1), Some (-3))"
proof -
  have e: "pb_encode_svarint (pb_ostream_from_buffer [0, 0] 2 :: unit pb_ostream) (-3)
     = (\<lparr>os_sink = BufWrite [5, 0] 1, os_max_size = 2, os_bytes_written = 1,
         os_errmsg = None\<rparr>, True)"
    by (simp add: eval_encode)
  show ?thesis by (intro conjI e, rule pb_svarint_roundtrip [OF _ _ e]) simp_all
qed

text \<open>C5: Skipping an unknown field of any wire type consumes exactly its bytes, so that the next
  tag is read where it starts.\<close>

theorem pb_skip_field_exact:
  assumes "wire_payload wt bs"
  shows "pb_skip_field (pb_istream_from_buffer (bs @ rest) (length bs + length rest)) wt
    = (pb_istream_from_buffer rest (length rest), True)"
  using buf_in.skip_field_ok
    [of "pb_istream_from_buffer (bs @ rest) (length bs + length rest)" bs rest wt] assms
  by simp

theorem pb_skip_field_exact_witness:
  "wire_payload PB_WT_STRING [2, 65, 66]
   \<and> pb_skip_field (pb_istream_from_buffer ([2, 65, 66] @ [8, 1]) (length [2, 65, 66 :: u8] + length [8, 1 :: u8])) PB_WT_STRING
     = (pb_istream_from_buffer [8, 1] (length [8, 1 :: u8]), True)"
proof -
  have "wire_payload PB_WT_STRING [2, 65, 66]"
    unfolding wire_payload_def by (simp add: varint_bytes_small exI [of _ "[65, 66]"])
  then show ?thesis using pb_skip_field_exact by blast
qed

text \<open>A tag round-trips: field number and wire type are recovered, without end of message.\<close>

lemma pb_tag_roundtrip:
  assumes "n \<le> length buf" "n \<le> SIZE_MAX" "unat wt < 8" "tag \<noteq> 0" "unat tag < 2 ^ 29"
    "pb_encode_tag (pb_ostream_from_buffer buf n) wt tag = (s', True)"
    "os_sink s' = BufWrite mem pos" "pos \<le> k" "k \<le> length mem"
  shows "pb_decode_tag (pb_istream_from_buffer mem k)
    = (pb_istream_from_buffer (drop pos mem) (k - pos), Some (wt, tag), False)"
proof (rule decode_after_write [where bs = "varint_bytes (tag_value wt tag)"])
  show "pb_write (pb_ostream_from_buffer buf n) (varint_bytes (tag_value wt tag))
      (length (varint_bytes (tag_value wt tag))) = (s', True)"
    using assms(6) by (simp add: pb_encode_tag_def pb_encode_varint_write tag_value_def)
qed (use assms varint_bytes_size buf_in.decode_tag_ok in auto)

lemma pb_tag_example:
  "pb_encode_tag (pb_ostream_from_buffer [0, 0] 2 :: unit pb_ostream) PB_WT_STRING 3
     = (\<lparr>os_sink = BufWrite [26, 0] 1, os_max_size = 2, os_bytes_written = 1,
         os_errmsg = None\<rparr>, True)
   \<and> pb_decode_tag (pb_istream_from_buffer [26, 0] 2 :: unit pb_istream)
     = (pb_istream_from_buffer (drop 1 [26, 0]) (2 - 1), Some (PB_WT_STRING, 3), False)"
proof -
  have e: "pb_encode_tag (pb_ostream_from_buffer [0, 0] 2 :: unit pb_ostream) PB_WT_STRING 3
     = (\<lparr>os_sink = BufWrite [26, 0] 1, os_max_size = 2, os_bytes_written = 1,
         os_errmsg = None\<rparr>, True)"
    by (simp add: eval_encode)
  show ?thesis by (intro conjI e, rule pb_tag_roundtrip [OF _ _ _ _ _ e]) simp_all
qed

text \<open>C4: A length-delimited field that \<open>pb_encode_string\<close> wrote is read back through a substream
  that holds exactly its bytes; after reading any part of it, closing the substream leaves the
  parent stream right behind the field.\<close>

theorem pb_string_roundtrip:
  assumes "n \<le> length buf" "n \<le> SIZE_MAX" "length bs < 2 ^ 32" "m \<le> length bs"
    "pb_encode_string (pb_ostream_from_buffer buf n :: 's pb_ostream) bs (length bs) = (s', True)"
    "os_sink s' = BufWrite mem pos" "pos \<le> k" "k \<le> length mem"
  shows "\<exists>s1 sub sub' sub2.
    pb_make_string_substream (pb_istream_from_buffer mem k :: 't pb_istream) = (s1, Some sub)
    \<and> is_bytes_left sub = length bs
    \<and> pb_read sub m = (sub', Some (take m bs))
    \<and> pb_close_string_substream s1 sub' = (pb_istream_from_buffer (drop pos mem) (k - pos), sub2, True)"
proof -
  let ?v = "varint_bytes (of_nat (length bs))"
  let ?s = "pb_ostream_from_buffer buf n :: 's pb_ostream"
  let ?i = "pb_istream_from_buffer mem k :: 't pb_istream"
  have wf: "os_buf_wf ?s" using assms(1,2) ..
  have room: "os_buf_room ?s (length (?v @ bs))"
    using buf_out.encode_string_fails [OF wf] assms(3,5) by fastforce
  have small: "length (?v @ bs) \<le> SIZE_MAX"
    using length_varint_bytes_10 [of "of_nat (length bs)"] assms(3) by simp
  have "pb_write ?s (?v @ bs) (length (?v @ bs)) = (s', True)"
    using buf_out.write_ok [OF wf room] buf_out.encode_string_ok [OF wf room] assms(5) by simp
  note mem = buffer_after_write [OF assms(1,2) this assms(6) small]
  have c: "is_buf_content ?i = ?v @ bs @ take (k - pos) (drop pos buf)"
    using mem assms(7) by simp
  have i: "is_buf_wf ?i" using assms(8) ..
  define d where "d = drop (length ?v) mem"
  have d: "length bs \<le> length d" "take (length bs) d = bs" "drop (length bs) d = drop pos mem"
    using mem by (auto simp: d_def ac_simps)
  have "pb_make_string_substream ?i
      = (pb_istream_from_buffer d (k - pos), Some (pb_istream_from_buffer d (length bs)))"
    using buf_in.make_substream_ok(1) [OF i c assms(3)] mem assms(7,8) by (simp add: d_def)
  moreover have "pb_read (pb_istream_from_buffer d (length bs) :: 't pb_istream) m
      = (pb_istream_from_buffer (drop m d) (length bs - m), Some (take m bs))"
    using buf_in.read_ok [of "pb_istream_from_buffer d (length bs) :: 't pb_istream" m] assms(4) d
    by simp
  moreover have "pb_close_string_substream (pb_istream_from_buffer d (k - pos) :: 't pb_istream)
      (pb_istream_from_buffer (drop m d) (length bs - m))
      = (pb_istream_from_buffer (drop pos mem) (k - pos),
         pb_istream_from_buffer (drop pos mem) 0, True)"
    using buffer_close_substream [of "length bs - m" "drop m d" d "k - pos", where 's = 't] assms(4) d
    by (simp add: diff_le_mono)
  ultimately show ?thesis by (intro exI conjI) auto
qed

theorem pb_string_roundtrip_witness:
  "pb_encode_string (pb_ostream_from_buffer [0, 0, 0, 0] 4 :: unit pb_ostream) [65, 66] (length [65, 66 :: u8])
     = (\<lparr>os_sink = BufWrite [2, 65, 66, 0] 3, os_max_size = 4, os_bytes_written = 3,
         os_errmsg = None\<rparr>, True)
   \<and> (\<exists>s1 sub sub' sub2.
    pb_make_string_substream (pb_istream_from_buffer [2, 65, 66, 0] 4 :: unit pb_istream) = (s1, Some sub)
    \<and> is_bytes_left sub = length [65, 66 :: u8]
    \<and> pb_read sub 1 = (sub', Some (take 1 [65, 66]))
    \<and> pb_close_string_substream s1 sub'
      = (pb_istream_from_buffer (drop 3 [2, 65, 66, 0]) (4 - 3), sub2, True))"
proof -
  have e: "pb_encode_string (pb_ostream_from_buffer [0, 0, 0, 0] 4 :: unit pb_ostream) [65, 66]
       (length [65, 66 :: u8])
     = (\<lparr>os_sink = BufWrite [2, 65, 66, 0] 3, os_max_size = 4, os_bytes_written = 3,
         os_errmsg = None\<rparr>, True)"
    by (simp add: eval_encode)
  show ?thesis by (intro conjI e, rule pb_string_roundtrip [OF _ _ _ _ e]) simp_all
qed

text \<open>C6: A varint read never takes more than ten bytes off the stream, whatever its input.\<close>
theorem pb_decode_varint_bounded:
  assumes "pb_decode_varint s = (s', r)"
  shows "is_bytes_left s' \<le> is_bytes_left s \<and> is_bytes_left s \<le> is_bytes_left s' + 10"
  using varint_decode_loop_bound [of s 0 0 s' r] assms by (simp add: pb_decode_varint_def)

theorem pb_decode_varint_bounded_witness:
  "is_bytes_left (fst (pb_decode_varint (pb_istream_from_buffer [0xAC, 2, 0, 0] 4 :: unit pb_istream))) = 2
   \<and> 4 \<le> (2::nat) + 10"
proof -
  have e: "pb_decode_varint (pb_istream_from_buffer [0xAC, 2, 0, 0] 4 :: unit pb_istream)
     = (pb_istream_from_buffer [0, 0] 2, Some 300)"
    by (simp add: pb_decode_varint_def varint_decode_loop.simps pb_readbyte_def is_callback_def
        buf_read_def pb_istream_from_buffer_def)
  show ?thesis using pb_decode_varint_bounded [OF e] e by simp
qed

text \<open>The 32 bit decoder does not limit the length of a varint, and its 8 bit position counter
  wraps around: the 38th byte of an overlong encoding of a huge number is taken for bits 3 to 9,
  and the result is 8. The 64 bit decoder refuses the same bytes.\<close>

lemma pb_decode_varint32_overlong:
  "snd (pb_decode_varint32 (pb_istream_from_buffer overlong_varint 38 :: unit pb_istream)) = Some 8
   \<and> is_bytes_left (fst (pb_decode_varint32
        (pb_istream_from_buffer overlong_varint 38 :: unit pb_istream))) = 0
   \<and> snd (pb_decode_varint (pb_istream_from_buffer overlong_varint 38 :: unit pb_istream)) = None"
  by code_simp

text \<open>C7: The local buffer of ten bytes in \<open>pb_encode_varint\<close> is large enough: the loop never
  stores an eleventh byte, whatever the value.\<close>

theorem pb_encode_varint_buffer_fits: "length (varint_loop v) \<le> 10"
  by (rule varint_loop_fits)

text \<open>C8: Writing to a memory stream stays inside the part of the buffer the stream may use: the
  buffer keeps its size, nothing before the current position and nothing behind the limit
  changes, and the count of written bytes respects the limit, also when the write fails.\<close>

theorem pb_write_memory_safe:
  assumes "os_buf_wf s" "length bs \<le> SIZE_MAX" "pb_write s bs (length bs) = (s', ok)"
    "os_sink s = BufWrite mem pos" "os_sink s' = BufWrite mem' pos'"
  shows "length mem' = length mem \<and> take pos mem' = take pos mem
    \<and> drop (pos + (os_max_size s - os_bytes_written s)) mem'
      = drop (pos + (os_max_size s - os_bytes_written s)) mem
    \<and> os_bytes_written s' \<le> os_max_size s' \<and> os_buf_wf s'"
proof (cases "os_buf_room s (length bs)")
  case True
  then have fit: "pos + length bs \<le> pos + (os_max_size s - os_bytes_written s)"
    "pos + (os_max_size s - os_bytes_written s) \<le> length mem"
    using assms(1,4) by (auto simp: os_buf_defs)
  have s': "s' = os_buf_put s bs" using buf_out.write_ok [OF assms(1) True] assms(3) by simp
  then have "mem' = write_at mem pos bs" using assms(4,5) by (simp add: os_buf_put_def)
  moreover have "os_buf_wf s'" using buf_out.wf_put [OF assms(1) True] s' by simp
  moreover from this have "os_bytes_written s' \<le> os_max_size s'"
    using assms(5) by (simp add: os_buf_wf_def)
  ultimately show ?thesis using fit
    by (simp add: length_write_at take_write_at_before drop_write_at_after)
next
  case False
  then have s': "s' = os_set_error s ''stream full''"
    using buf_out.write_full [OF assms(1,2) False] assms(3) by simp
  then have "mem' = mem" using assms(4,5) by simp
  moreover have "os_buf_wf s'" using buf_out.wf_set_error [OF assms(1)] s' by simp
  moreover from this have "os_bytes_written s' \<le> os_max_size s'"
    using assms(5) by (simp add: os_buf_wf_def)
  ultimately show ?thesis by simp
qed

theorem pb_write_memory_safe_witness:
  "os_buf_wf (pb_ostream_from_buffer [7, 7, 7] 2 :: unit pb_ostream)
   \<and> length [1, 2, 7 :: u8] = length [7, 7, 7 :: u8] \<and> drop 2 [1, 2, 7 :: u8] = drop 2 [7, 7, 7]"
proof -
  let ?s = "pb_ostream_from_buffer [7, 7, 7] 2 :: unit pb_ostream"
  have wf: "os_buf_wf ?s" by (rule wf_ostream_from_buffer) simp_all
  have w: "pb_write ?s [1, 2] (length [1, 2 :: u8])
      = (\<lparr>os_sink = BufWrite [1, 2, 7] 2, os_max_size = 2, os_bytes_written = 2, os_errmsg = None\<rparr>, True)"
    by (simp add: eval_encode)
  have "os_sink ?s = BufWrite [7, 7, 7] 0" by (simp add: pb_ostream_from_buffer_def)
  from pb_write_memory_safe [OF wf _ w this] wf show ?thesis
    by (simp add: pb_ostream_from_buffer_def)
qed

end
