(* ===== verification/Nanopb_Field.thy ===== *)
theory Nanopb_Field
  imports Teamy_Prelude
begin

unbundle bit_operations_syntax

text \<open>
  Message descriptors of nanopb (\<open>nanopb/pb.h\<close>) and the iterator over the fields of a message in memory
  (\<open>nanopb/pb_common.c\<close>), as configured by the Pod: \<open>pb_size_t\<close> has 32 bits (\<open>PB_FIELD_32BIT\<close>).

  A pointer is a 64 bit address. The generated array of field descriptors is the list of its entries, with
  \<open>PB_LAST_FIELD\<close> behind them; a pointer into it is the list and an index.
\<close>

section \<open>Descriptors\<close>

type_synonym addr = u64

record pb_field =
  pf_tag :: u32
  pf_type :: u8
  pf_data_offset :: u32
  pf_size_offset :: u32 \<comment> \<open>\<open>pb_ssize_t\<close>: signed\<close>
  pf_data_size :: u32
  pf_array_size :: u32
  pf_ptr :: addr

definition PB_LAST_FIELD :: pb_field where
  "PB_LAST_FIELD = \<lparr>pf_tag = 0, pf_type = 0, pf_data_offset = 0, pf_size_offset = 0, pf_data_size = 0,
     pf_array_size = 0, pf_ptr = 0\<rparr>"

definition field_at :: "pb_field list \<Rightarrow> nat \<Rightarrow> pb_field" where
  "field_at fs i = (if i < length fs then fs ! i else PB_LAST_FIELD)"

definition PB_LTYPE :: "u8 \<Rightarrow> u8" where "PB_LTYPE x = x AND 0x0F"
definition PB_HTYPE :: "u8 \<Rightarrow> u8" where "PB_HTYPE x = x AND 0x30"
definition PB_ATYPE :: "u8 \<Rightarrow> u8" where "PB_ATYPE x = x AND 0xC0"

abbreviation "PB_LTYPE_BOOL \<equiv> 0x00 :: u8"
abbreviation "PB_LTYPE_VARINT \<equiv> 0x01 :: u8"
abbreviation "PB_LTYPE_UVARINT \<equiv> 0x02 :: u8"
abbreviation "PB_LTYPE_SVARINT \<equiv> 0x03 :: u8"
abbreviation "PB_LTYPE_FIXED32 \<equiv> 0x04 :: u8"
abbreviation "PB_LTYPE_FIXED64 \<equiv> 0x05 :: u8"
abbreviation "PB_LTYPE_LAST_PACKABLE \<equiv> 0x05 :: u8"
abbreviation "PB_LTYPE_BYTES \<equiv> 0x06 :: u8"
abbreviation "PB_LTYPE_STRING \<equiv> 0x07 :: u8"
abbreviation "PB_LTYPE_SUBMESSAGE \<equiv> 0x08 :: u8"
abbreviation "PB_LTYPE_EXTENSION \<equiv> 0x09 :: u8"
abbreviation "PB_LTYPE_FIXED_LENGTH_BYTES \<equiv> 0x0A :: u8"
abbreviation "PB_HTYPE_REQUIRED \<equiv> 0x00 :: u8"
abbreviation "PB_HTYPE_OPTIONAL \<equiv> 0x10 :: u8"
abbreviation "PB_HTYPE_REPEATED \<equiv> 0x20 :: u8"
abbreviation "PB_HTYPE_ONEOF \<equiv> 0x30 :: u8"
abbreviation "PB_ATYPE_STATIC \<equiv> 0x00 :: u8"
abbreviation "PB_ATYPE_POINTER \<equiv> 0x80 :: u8"
abbreviation "PB_ATYPE_CALLBACK \<equiv> 0x40 :: u8"
abbreviation "PB_SIZE_MAX \<equiv> 0xFFFFFFFF :: u32"

section \<open>The iterator\<close>

record pb_field_iter =
  it_start :: "pb_field list"
  it_pos :: nat
  it_required_field_index :: u32
  it_dest_struct :: addr
  it_pData :: addr
  it_pSize :: addr

abbreviation it_field :: "pb_field_iter \<Rightarrow> pb_field" where
  "it_field iter \<equiv> field_at (it_start iter) (it_pos iter)"

definition pb_field_iter_begin :: "pb_field list \<Rightarrow> addr \<Rightarrow> pb_field_iter \<times> bool" where
  "pb_field_iter_begin fs dest_struct =
    (let pos = field_at fs 0;
         pData = dest_struct + ucast (pf_data_offset pos)
     in (\<lparr>it_start = fs, it_pos = 0, it_required_field_index = 0, it_dest_struct = dest_struct,
          it_pData = pData, it_pSize = pData + scast (pf_size_offset pos)\<rparr>,
         pf_tag pos \<noteq> 0))"

definition pb_field_iter_next :: "pb_field_iter \<Rightarrow> pb_field_iter \<times> bool" where
  "pb_field_iter_next iter =
    (let prev_field = it_field iter
     in if pf_tag prev_field = 0 then (iter, False)
     else let iter = iter\<lparr>it_pos := it_pos iter + 1\<rparr>; pos = it_field iter
     in if pf_tag pos = 0 then (fst (pb_field_iter_begin (it_start iter) (it_dest_struct iter)), False)
     else let prev_size = (ucast (pf_data_size prev_field) :: u64)
     in if PB_HTYPE (pf_type prev_field) = PB_HTYPE_ONEOF \<and> PB_HTYPE (pf_type pos) = PB_HTYPE_ONEOF \<and>
           pf_data_offset pos = PB_SIZE_MAX
        then (iter, True)
     else let prev_size =
             (if PB_ATYPE (pf_type prev_field) = PB_ATYPE_STATIC \<and> PB_HTYPE (pf_type prev_field) = PB_HTYPE_REPEATED
              then prev_size * ucast (pf_array_size prev_field)
              else if PB_ATYPE (pf_type prev_field) = PB_ATYPE_POINTER then 8
              else prev_size);
           iter = (if PB_HTYPE (pf_type prev_field) = PB_HTYPE_REQUIRED
             then iter\<lparr>it_required_field_index := it_required_field_index iter + 1\<rparr> else iter);
           pData = it_pData iter + prev_size + ucast (pf_data_offset pos)
     in (iter\<lparr>it_pData := pData, it_pSize := pData + scast (pf_size_offset pos)\<rparr>, True))"

text \<open>The do loop of \<open>pb_field_iter_find\<close>; None stands for a search that does not end.\<close>

partial_function (option) find_loop :: "nat \<Rightarrow> u32 \<Rightarrow> pb_field_iter \<Rightarrow> (pb_field_iter \<times> bool) option" where
  "find_loop start tag iter =
    (if pf_tag (it_field iter) = tag \<and> PB_LTYPE (pf_type (it_field iter)) \<noteq> PB_LTYPE_EXTENSION then Some (iter, True)
     else (let iter = fst (pb_field_iter_next iter)
       in if it_pos iter \<noteq> start then find_loop start tag iter else Some (iter, False)))"

definition pb_field_iter_find :: "pb_field_iter \<Rightarrow> u32 \<Rightarrow> (pb_field_iter \<times> bool) option" where
  "pb_field_iter_find iter tag = find_loop (it_pos iter) tag iter"

section \<open>Where the iterator stands\<close>

definition iter_at :: "pb_field list \<Rightarrow> addr \<Rightarrow> nat \<Rightarrow> pb_field_iter" where
  "iter_at fs base i = ((\<lambda>iter. fst (pb_field_iter_next iter)) ^^ i) (fst (pb_field_iter_begin fs base))"

text \<open>No entry of the array looks like its end.\<close>

definition tagged :: "pb_field list \<Rightarrow> bool" where
  "tagged fs \<longleftrightarrow> list_all (\<lambda>f. pf_tag f \<noteq> 0) fs"

lemma field_at_tag: "tagged fs \<Longrightarrow> pf_tag (field_at fs i) = 0 \<longleftrightarrow> length fs \<le> i"
  by (auto simp: field_at_def tagged_def list_all_length PB_LAST_FIELD_def)

lemma iter_at_0: "iter_at fs base 0 = fst (pb_field_iter_begin fs base)"
  by (simp add: iter_at_def)

lemma iter_at_Suc: "iter_at fs base (Suc i) = fst (pb_field_iter_next (iter_at fs base i))"
  by (simp add: iter_at_def)

lemma begin_simps [simp]:
  "it_start (fst (pb_field_iter_begin fs base)) = fs"
  "it_pos (fst (pb_field_iter_begin fs base)) = 0"
  "it_dest_struct (fst (pb_field_iter_begin fs base)) = base"
  by (simp_all add: pb_field_iter_begin_def Let_def)

lemma next_inside:
  assumes "tagged (it_start iter)" "Suc (it_pos iter) < length (it_start iter)"
  shows "snd (pb_field_iter_next iter)" "it_start (fst (pb_field_iter_next iter)) = it_start iter"
    "it_pos (fst (pb_field_iter_next iter)) = Suc (it_pos iter)"
    "it_dest_struct (fst (pb_field_iter_next iter)) = it_dest_struct iter"
  using assms by (simp_all add: pb_field_iter_next_def Let_def field_at_tag)

lemma next_wraps:
  assumes "tagged (it_start iter)" "Suc (it_pos iter) = length (it_start iter)"
  shows "pb_field_iter_next iter = (fst (pb_field_iter_begin (it_start iter) (it_dest_struct iter)), False)"
  using assms by (simp add: pb_field_iter_next_def Let_def field_at_tag)

lemma iter_at_simps:
  assumes "tagged fs" "i < length fs"
  shows "it_start (iter_at fs base i) = fs \<and> it_pos (iter_at fs base i) = i \<and>
    it_dest_struct (iter_at fs base i) = base"
  using assms(2)
proof (induction i)
  case (Suc i)
  then show ?case using next_inside [of "iter_at fs base i"] assms(1) by (simp add: iter_at_Suc)
qed (simp add: iter_at_0)

lemma next_iter_at:
  assumes "tagged fs" "i < length fs"
  shows "pb_field_iter_next (iter_at fs base i) =
    (if Suc i < length fs then (iter_at fs base (Suc i), True) else (iter_at fs base 0, False))"
proof -
  note I = iter_at_simps [OF assms, of base]
  show ?thesis
  proof (cases "Suc i < length fs")
    case True
    then show ?thesis using next_inside(1) [of "iter_at fs base i"] I assms(1) by (simp add: iter_at_Suc prod_eq_iff)
  next
    case False
    then show ?thesis using next_wraps [of "iter_at fs base i"] I assms by (simp add: iter_at_0)
  qed
qed

section \<open>Searching\<close>

definition is_field :: "pb_field list \<Rightarrow> u32 \<Rightarrow> nat \<Rightarrow> bool" where
  "is_field fs tag i \<longleftrightarrow> pf_tag (fs ! i) = tag \<and> PB_LTYPE (pf_type (fs ! i)) \<noteq> PB_LTYPE_EXTENSION"

lemma find_loop_step:
  assumes "tagged fs" "j < length fs"
  shows "find_loop start tag (iter_at fs base j) =
    (if is_field fs tag j then Some (iter_at fs base j, True)
     else if Suc j mod length fs \<noteq> start then find_loop start tag (iter_at fs base (Suc j mod length fs))
     else Some (iter_at fs base start, False))"
proof -
  have n: "fst (pb_field_iter_next (iter_at fs base j)) = iter_at fs base (Suc j mod length fs)"
  proof (cases "Suc j < length fs")
    case False
    then have "Suc j = length fs" using assms(2) by simp
    then show ?thesis using next_iter_at [OF assms, of base] by simp
  qed (use next_iter_at [OF assms] in simp)
  moreover have "Suc j mod length fs < length fs" using assms(2) by (cases fs) simp_all
  ultimately show ?thesis
    using iter_at_simps [OF assms, of base] iter_at_simps [OF assms(1), of "Suc j mod length fs" base] assms(2)
    by (subst find_loop.simps) (auto simp: is_field_def field_at_def Let_def)
qed

text \<open>The search goes around the array.\<close>

lemma around_again:
  fixes i d n :: nat
  assumes "i < n" "0 < d" "d < n"
  shows "(i + d) mod n \<noteq> i"
proof
  assume "(i + d) mod n = i"
  then have "(i + d) mod n = i mod n" using assms(1) by simp
  then have "n dvd d" using mod_eq_dvd_iff_nat [of i "i + d" n] by simp
  then show False using assms nat_dvd_not_less by blast
qed

lemma around_all:
  fixes i j n :: nat
  assumes "i < n" "j < n"
  shows "\<exists>e<n. j = (i + e) mod n"
proof (intro exI conjI)
  show "(j + n - i) mod n < n" using assms by simp
  have "(i + (j + n - i) mod n) mod n = (i + (j + n - i)) mod n" by (rule mod_add_right_eq)
  also have "\<dots> = (j + n) mod n" using assms by simp
  finally show "j = (i + (j + n - i) mod n) mod n" using assms by simp
qed

lemma find_loop_run:
  assumes fs: "tagged fs" "i < length fs"
  shows "d < length fs \<Longrightarrow> (\<And>e. e < d \<Longrightarrow> \<not> is_field fs tag ((i + e) mod length fs)) \<Longrightarrow>
    find_loop i tag (iter_at fs base i) = find_loop i tag (iter_at fs base ((i + d) mod length fs))"
proof (induction d)
  case (Suc d)
  let ?n = "length fs" 
  have j: "(i + d) mod ?n < ?n" using Suc.prems(1) by (intro mod_less_divisor) linarith
  have m: "(i + Suc d) mod ?n = Suc ((i + d) mod ?n) mod ?n" by (simp add: mod_Suc_eq)
  have "(i + Suc d) mod ?n \<noteq> i" using around_again [OF fs(2), of "Suc d"] Suc.prems(1) by simp
  moreover have "\<not> is_field fs tag ((i + d) mod ?n)" by (rule Suc.prems(2)) simp
  moreover have "find_loop i tag (iter_at fs base i) = find_loop i tag (iter_at fs base ((i + d) mod ?n))"
    using Suc.prems by (intro Suc.IH) simp_all
  ultimately show ?case using find_loop_step [OF fs(1) j, of i tag base] by (simp only: m if_False if_True not_False_eq_True)
qed (use fs in simp)

lemma find_found:
  assumes fs: "tagged fs" "i < length fs" "d < length fs" "is_field fs tag ((i + d) mod length fs)"
    "\<And>e. e < d \<Longrightarrow> \<not> is_field fs tag ((i + e) mod length fs)"
  shows "pb_field_iter_find (iter_at fs base i) tag = Some (iter_at fs base ((i + d) mod length fs), True)"
proof -
  have j: "(i + d) mod length fs < length fs" using fs(3) by (intro mod_less_divisor) linarith
  show ?thesis
    using find_loop_run [OF fs(1,2,3,5), of base] find_loop_step [OF fs(1) j, of i tag base] fs(4) iter_at_simps [OF fs(1,2)]
    by (simp add: pb_field_iter_find_def)
qed

lemma find_missing:
  assumes fs: "tagged fs" "i < length fs" "\<And>j. j < length fs \<Longrightarrow> \<not> is_field fs tag j"
  shows "pb_field_iter_find (iter_at fs base i) tag = Some (iter_at fs base i, False)"
proof -
  let ?d = "length fs - 1"
  have d: "?d < length fs" using fs(2) by simp
  have j: "(i + e) mod length fs < length fs" for e using d by (intro mod_less_divisor) linarith
  have "Suc (i + ?d) = i + length fs" using fs(2) by linarith
  then have "Suc ((i + ?d) mod length fs) mod length fs = i" using fs(2) by (simp only: mod_Suc_eq) simp
  moreover have "find_loop i tag (iter_at fs base i) = find_loop i tag (iter_at fs base ((i + ?d) mod length fs))"
    by (rule find_loop_run [OF fs(1,2) d]) (rule fs(3) [OF j])
  ultimately show ?thesis
    using find_loop_step [OF fs(1) j, of i tag base ?d] fs(3) [OF j, of ?d] iter_at_simps [OF fs(1,2)]
    by (simp add: pb_field_iter_find_def)
qed

text \<open>\<open>pb_field_iter_find\<close> ends, and finds the first field with the tag at or behind the iterator, going around the
  message; extension placeholders are passed over. If there is none the iterator is where it was. In both cases the
  pointers of the iterator are those of the field it stands on: \<open>iter_at i\<close> is the iterator \<open>i\<close> steps from the
  beginning.\<close>

lemma pb_field_iter_find_first:
  assumes "tagged fs" "i < length fs"
  shows "(\<forall>d<length fs. is_field fs tag ((i + d) mod length fs) \<and> (\<forall>e<d. \<not> is_field fs tag ((i + e) mod length fs)) \<longrightarrow>
      pb_field_iter_find (iter_at fs base i) tag = Some (iter_at fs base ((i + d) mod length fs), True)) \<and>
    ((\<forall>j<length fs. \<not> is_field fs tag j) \<longrightarrow>
      pb_field_iter_find (iter_at fs base i) tag = Some (iter_at fs base i, False)) \<and>
    (\<exists>iter found. pb_field_iter_find (iter_at fs base i) tag = Some (iter, found) \<and>
      (found \<longleftrightarrow> (\<exists>j<length fs. is_field fs tag j)))"
proof (intro conjI)
  show "\<exists>iter found. pb_field_iter_find (iter_at fs base i) tag = Some (iter, found) \<and>
      (found \<longleftrightarrow> (\<exists>j<length fs. is_field fs tag j))"
  proof (cases "\<exists>j<length fs. is_field fs tag j")
    case True
    then obtain d where d: "d < length fs \<and> is_field fs tag ((i + d) mod length fs)"
        "\<And>e. e < d \<Longrightarrow> \<not> (e < length fs \<and> is_field fs tag ((i + e) mod length fs))"
      using around_all [OF assms(2)] exists_least_iff [of "\<lambda>d. d < length fs \<and> is_field fs tag ((i + d) mod length fs)"] by blast
    then show ?thesis using True find_found [OF assms, of d tag base] by force
  qed (use find_missing [OF assms] in blast)
qed (use find_found [OF assms] find_missing [OF assms] in blast)+

section \<open>Addresses\<close>

text \<open>How the generator fills in \<open>data_offset\<close>, \<open>data_size\<close> and \<open>array_size\<close> (the macros \<open>PB_DATAOFFSET_FIRST\<close>,
  \<open>PB_DATAOFFSET_OTHER\<close>, \<open>PB_DATAOFFSET_UNION\<close> and \<open>PB_REQUIRED_STATIC\<close> to \<open>PB_REPEATED_CALLBACK\<close> of pb.h) for a
  structure whose members have the offsets and sizes \<open>ms\<close>.\<close>

definition member_size :: "pb_field \<Rightarrow> nat" where
  "member_size f =
    (if PB_ATYPE (pf_type f) = PB_ATYPE_STATIC \<and> PB_HTYPE (pf_type f) = PB_HTYPE_REPEATED
     then unat (pf_data_size f) * unat (pf_array_size f)
     else if PB_ATYPE (pf_type f) = PB_ATYPE_POINTER then 8 else unat (pf_data_size f))"

definition same_union :: "pb_field \<Rightarrow> pb_field \<Rightarrow> bool" where
  "same_union f g \<longleftrightarrow> PB_HTYPE (pf_type f) = PB_HTYPE_ONEOF \<and> PB_HTYPE (pf_type g) = PB_HTYPE_ONEOF \<and>
     pf_data_offset g = PB_SIZE_MAX"

definition laid_out :: "pb_field list \<Rightarrow> nat list \<Rightarrow> bool" where
  "laid_out fs offs \<longleftrightarrow> length offs = length fs \<and>
     (fs \<noteq> [] \<longrightarrow> unat (pf_data_offset (fs ! 0)) = offs ! 0) \<and>
     (\<forall>i. Suc i < length fs \<longrightarrow>
       (if same_union (fs ! i) (fs ! Suc i) then offs ! Suc i = offs ! i \<and> pf_size_offset (fs ! Suc i) = pf_size_offset (fs ! i)
        else offs ! i + member_size (fs ! i) \<le> offs ! Suc i \<and>
          unat (pf_data_offset (fs ! Suc i)) = offs ! Suc i - offs ! i - member_size (fs ! i)))"

lemma next_data:
  assumes "tagged (it_start iter)" "Suc (it_pos iter) < length (it_start iter)"
    and f: "f = it_start iter ! it_pos iter" and g: "g = it_start iter ! Suc (it_pos iter)"
  shows "it_pData (fst (pb_field_iter_next iter)) =
      (if same_union f g then it_pData iter else it_pData iter + of_nat (member_size f) + ucast (pf_data_offset g))"
    and "\<not> same_union f g \<Longrightarrow> it_pSize (fst (pb_field_iter_next iter)) =
      it_pData (fst (pb_field_iter_next iter)) + scast (pf_size_offset g)"
    and "it_required_field_index (fst (pb_field_iter_next iter)) =
      it_required_field_index iter + (if PB_HTYPE (pf_type f) = PB_HTYPE_REQUIRED then 1 else 0)"
proof -
  have "field_at (it_start iter) (it_pos iter) = f" "field_at (it_start iter) (Suc (it_pos iter)) = g"
    "pf_tag f \<noteq> 0" "pf_tag g \<noteq> 0"
    using assms by (auto simp: field_at_def tagged_def list_all_length)
  note e = this
  show "it_pData (fst (pb_field_iter_next iter)) =
      (if same_union f g then it_pData iter else it_pData iter + of_nat (member_size f) + ucast (pf_data_offset g))"
    using e by (simp add: pb_field_iter_next_def Let_def same_union_def member_size_def)
  show "\<not> same_union f g \<Longrightarrow> it_pSize (fst (pb_field_iter_next iter)) =
      it_pData (fst (pb_field_iter_next iter)) + scast (pf_size_offset g)"
    using e by (auto simp: pb_field_iter_next_def Let_def same_union_def)
  show "it_required_field_index (fst (pb_field_iter_next iter)) =
      it_required_field_index iter + (if PB_HTYPE (pf_type f) = PB_HTYPE_REQUIRED then 1 else 0)"
    using e by (auto simp: pb_field_iter_next_def Let_def same_union_def)
qed

lemma next_data_union:
  assumes "tagged (it_start iter)" "Suc (it_pos iter) < length (it_start iter)"
    and f: "f = it_start iter ! it_pos iter" and g: "g = it_start iter ! Suc (it_pos iter)"
    and u: "same_union f g"
  shows "it_pSize (fst (pb_field_iter_next iter)) = it_pSize iter"
proof -
  have "field_at (it_start iter) (it_pos iter) = f" "field_at (it_start iter) (Suc (it_pos iter)) = g"
    "pf_tag f \<noteq> 0" "pf_tag g \<noteq> 0"
    using assms by (auto simp: field_at_def tagged_def list_all_length)
  then show ?thesis using u by (simp add: pb_field_iter_next_def Let_def same_union_def)
qed

text \<open>The iterator computes addresses from differences only, and they are those of the members. For descriptors
  of a structure whose members are at \<open>offs\<close>, after \<open>i\<close> steps \<open>pData\<close> is the address of member \<open>i\<close>, also inside
  and behind a union, \<open>pSize\<close> that of its size field, and \<open>required_field_index\<close> has counted the required fields
  before it; and a full round brings the iterator back to the beginning, where it reports the end.\<close>

lemma pb_field_iter_addresses:
  assumes "tagged fs" "laid_out fs offs" "i < length fs"
  shows "it_pData (iter_at fs base i) = base + of_nat (offs ! i) \<and>
    it_pSize (iter_at fs base i) = base + of_nat (offs ! i) + scast (pf_size_offset (fs ! i)) \<and>
    it_required_field_index (iter_at fs base i) =
      of_nat (length (filter (\<lambda>f. PB_HTYPE (pf_type f) = PB_HTYPE_REQUIRED) (take i fs))) \<and>
    pb_field_iter_next (iter_at fs base i) =
      (if Suc i < length fs then (iter_at fs base (Suc i), True) else (fst (pb_field_iter_begin fs base), False))"
proof (intro conjI)
  show "pb_field_iter_next (iter_at fs base i) =
      (if Suc i < length fs then (iter_at fs base (Suc i), True) else (fst (pb_field_iter_begin fs base), False))"
    using next_iter_at [OF assms(1,3), of base] by (simp add: iter_at_0)
  have "it_pData (iter_at fs base i) = base + of_nat (offs ! i) \<and>
    it_pSize (iter_at fs base i) = base + of_nat (offs ! i) + scast (pf_size_offset (fs ! i)) \<and>
    it_required_field_index (iter_at fs base i) =
      of_nat (length (filter (\<lambda>f. PB_HTYPE (pf_type f) = PB_HTYPE_REQUIRED) (take i fs)))"
    using assms(3)
  proof (induction i)
    case 0
    then have "unat (pf_data_offset (fs ! 0)) = offs ! 0" using assms(2) by (auto simp: laid_out_def)
    then have "(of_nat (unat (pf_data_offset (fs ! 0))) :: u64) = of_nat (offs ! 0)" by (rule arg_cong)
    then have "(ucast (pf_data_offset (fs ! 0)) :: u64) = of_nat (offs ! 0)" by (simp only: of_nat_unat)
    then show ?case using 0 by (simp add: iter_at_0 pb_field_iter_begin_def field_at_def Let_def)
  next
    case (Suc i)
    let ?it = "iter_at fs base i"
    have I: "it_start ?it = fs" "it_pos ?it = i" using iter_at_simps [OF assms(1), of i base] Suc.prems by simp_all
    note n = next_data [of ?it "fs ! i" "fs ! Suc i", unfolded I, OF assms(1) Suc.prems refl refl, folded iter_at_Suc]
    have ih: "it_pData ?it = base + of_nat (offs ! i)" "it_pSize ?it = base + of_nat (offs ! i) + scast (pf_size_offset (fs ! i))"
      "it_required_field_index ?it = of_nat (length (filter (\<lambda>f. PB_HTYPE (pf_type f) = PB_HTYPE_REQUIRED) (take i fs)))"
      using Suc by simp_all
    have r: "take (Suc i) fs = take i fs @ [fs ! i]" using Suc.prems by (simp add: take_Suc_conv_app_nth)
    show ?case
    proof (cases "same_union (fs ! i) (fs ! Suc i)")
      case True
      then have "offs ! Suc i = offs ! i" "pf_size_offset (fs ! Suc i) = pf_size_offset (fs ! i)"
        using assms(2) Suc.prems by (simp_all add: laid_out_def)
      moreover have "it_pSize (iter_at fs base (Suc i)) = it_pSize ?it"
        using next_data_union [of ?it "fs ! i" "fs ! Suc i", unfolded I, OF assms(1) Suc.prems refl refl True] by (simp add: iter_at_Suc)
      ultimately show ?thesis using n True ih r by simp
    next
      case False
      then have "offs ! Suc i = offs ! i + member_size (fs ! i) + unat (pf_data_offset (fs ! Suc i))"
        using assms(2) Suc.prems by (simp add: laid_out_def)
      then have "(of_nat (offs ! Suc i) :: u64) = of_nat (offs ! i) + of_nat (member_size (fs ! i)) + ucast (pf_data_offset (fs ! Suc i))"
        by (simp only: of_nat_add of_nat_unat)
      then show ?thesis using n False ih r by (simp add: algebra_simps)
    qed
  qed
  then show "it_pData (iter_at fs base i) = base + of_nat (offs ! i)"
    "it_pSize (iter_at fs base i) = base + of_nat (offs ! i) + scast (pf_size_offset (fs ! i))"
    "it_required_field_index (iter_at fs base i) =
      of_nat (length (filter (\<lambda>f. PB_HTYPE (pf_type f) = PB_HTYPE_REQUIRED) (take i fs)))" by simp_all
qed

end
