(* ===== verification/Nanopb_Encode.thy ===== *)
theory Nanopb_Encode
  imports Nanopb_Wire Nanopb_Field
begin

unbundle bit_operations_syntax

text \<open>
  The message level of nanopb/pb_encode.c: from a structure in memory and its descriptors to bytes on a stream.

  The encoder reads an image of the program: the bytes of memory by address, the descriptor arrays by the
  address of their first entry, and the client's functions by their address. It writes nothing there. Integers
  in memory are little-endian, pointers have 8 bytes and structures the layout of the 64 bit Apple ABI. Memory is total: a read
  outside of an object is a read of some byte. The result None stands for no result: nesting or a chain
  of extensions longer than the fuel, which stands for the stack, or a call through a pointer that is no encoder.
\<close>

record 's image =
  im_mem :: "addr \<Rightarrow> u8"
  im_descs :: "addr \<Rightarrow> pb_field list"
  im_field_encoder :: "addr \<Rightarrow> 's pb_ostream \<Rightarrow> pb_field \<Rightarrow> addr \<Rightarrow> 's pb_ostream \<times> bool"
  im_extension_encoder :: "addr \<Rightarrow> 's pb_ostream \<Rightarrow> addr \<Rightarrow> 's pb_ostream \<times> bool"

type_synonym 's encoder = "'s pb_ostream \<Rightarrow> ('s pb_ostream \<times> bool) option"

definition load :: "'s image \<Rightarrow> addr \<Rightarrow> nat \<Rightarrow> bytes" where
  "load im p n = map (\<lambda>i. im_mem im (p + of_nat i)) [0..<n]"

definition load_u8 :: "'s image \<Rightarrow> addr \<Rightarrow> u8" where "load_u8 im p = im_mem im p"
definition load_u16 :: "'s image \<Rightarrow> addr \<Rightarrow> u16" where "load_u16 im p = of_nat (le_val (load im p 2))"
definition load_u32 :: "'s image \<Rightarrow> addr \<Rightarrow> u32" where "load_u32 im p = of_nat (le_val (load im p 4))"
definition load_u64 :: "'s image \<Rightarrow> addr \<Rightarrow> u64" where "load_u64 im p = of_nat (le_val (load im p 8))"

text \<open>\<open>if (!f) return false;\<close> followed by \<open>g\<close>.\<close>

definition and_then_enc :: "'s encoder \<Rightarrow> 's encoder \<Rightarrow> 's encoder" where
  "and_then_enc f g s = (case f s of None \<Rightarrow> None | Some (s, False) \<Rightarrow> Some (s, False) | Some (s, True) \<Rightarrow> g s)"

definition return_error :: "string \<Rightarrow> 's encoder" where
  "return_error msg s = Some (os_set_error s msg, False)"

section \<open>Scalar encoders\<close>

text \<open>The loop runs over the \<open>sizeof(bool)\<close> = 1 bytes.\<close>

definition safe_read_bool :: "'s image \<Rightarrow> addr \<Rightarrow> bool" where
  "safe_read_bool im pSize = (load_u8 im pSize \<noteq> 0)"

definition pb_enc_bool :: "'s image \<Rightarrow> pb_field \<Rightarrow> addr \<Rightarrow> 's encoder" where
  "pb_enc_bool im field src s =
    (let val = (if safe_read_bool im src then 1 else 0 :: u32) in Some (pb_encode_varint s (ucast val)))"

definition pb_enc_varint :: "'s image \<Rightarrow> pb_field \<Rightarrow> addr \<Rightarrow> 's encoder" where
  "pb_enc_varint im field src s =
    (if pf_data_size field = 1 then Some (pb_encode_varint s (scast (load_u8 im src)))
     else if pf_data_size field = 2 then Some (pb_encode_varint s (scast (load_u16 im src)))
     else if pf_data_size field = 4 then Some (pb_encode_varint s (scast (load_u32 im src)))
     else if pf_data_size field = 8 then Some (pb_encode_varint s (load_u64 im src))
     else return_error ''invalid data_size'' s)"

definition pb_enc_uvarint :: "'s image \<Rightarrow> pb_field \<Rightarrow> addr \<Rightarrow> 's encoder" where
  "pb_enc_uvarint im field src s =
    (if pf_data_size field = 1 then Some (pb_encode_varint s (ucast (load_u8 im src)))
     else if pf_data_size field = 2 then Some (pb_encode_varint s (ucast (load_u16 im src)))
     else if pf_data_size field = 4 then Some (pb_encode_varint s (ucast (load_u32 im src)))
     else if pf_data_size field = 8 then Some (pb_encode_varint s (load_u64 im src))
     else return_error ''invalid data_size'' s)"

definition pb_enc_svarint :: "'s image \<Rightarrow> pb_field \<Rightarrow> addr \<Rightarrow> 's encoder" where
  "pb_enc_svarint im field src s =
    (if pf_data_size field = 1 then Some (pb_encode_svarint s (scast (load_u8 im src)))
     else if pf_data_size field = 2 then Some (pb_encode_svarint s (scast (load_u16 im src)))
     else if pf_data_size field = 4 then Some (pb_encode_svarint s (scast (load_u32 im src)))
     else if pf_data_size field = 8 then Some (pb_encode_svarint s (load_u64 im src))
     else return_error ''invalid data_size'' s)"

definition pb_enc_fixed64 :: "'s image \<Rightarrow> pb_field \<Rightarrow> addr \<Rightarrow> 's encoder" where
  "pb_enc_fixed64 im field src s = Some (pb_encode_fixed64 s (load_u64 im src))"

definition pb_enc_fixed32 :: "'s image \<Rightarrow> pb_field \<Rightarrow> addr \<Rightarrow> 's encoder" where
  "pb_enc_fixed32 im field src s = Some (pb_encode_fixed32 s (load_u32 im src))"

text \<open>\<open>pb_bytes_array_t\<close>: the size in 4 bytes, then the bytes.\<close>

definition pb_enc_bytes :: "'s image \<Rightarrow> pb_field \<Rightarrow> addr \<Rightarrow> 's encoder" where
  "pb_enc_bytes im field src s =
    (if src = 0 then Some (pb_encode_string s [] 0)
     else let size = unat (load_u32 im src); allocsize = size_add size 4
       in if allocsize < size \<or> (PB_ATYPE (pf_type field) = PB_ATYPE_STATIC \<and> allocsize > unat (pf_data_size field))
          then return_error ''bytes size exceeded'' s
          else Some (pb_encode_string s (load im (src + 4) size) size))"

text \<open>The loop that measures a string of at most \<open>max_size\<close> bytes at \<open>p\<close>.\<close>

function string_size :: "'s image \<Rightarrow> addr \<Rightarrow> nat \<Rightarrow> nat" where
  "string_size im p max_size =
    (if 0 < max_size \<and> im_mem im p \<noteq> 0 then Suc (string_size im (p + 1) (max_size - 1)) else 0)"
  by auto

termination string_size
  by (relation "measure (\<lambda>(im, p, max_size). max_size)") auto

declare string_size.simps [simp del]

definition pb_enc_string :: "'s image \<Rightarrow> pb_field \<Rightarrow> addr \<Rightarrow> 's encoder" where
  "pb_enc_string im field src s =
    (let max_size = (if PB_ATYPE (pf_type field) = PB_ATYPE_POINTER then SIZE_MAX else unat (pf_data_size field));
         size = (if src = 0 then 0 else string_size im src max_size)
     in Some (pb_encode_string s (load im src size) size))"

definition pb_enc_fixed_length_bytes :: "'s image \<Rightarrow> pb_field \<Rightarrow> addr \<Rightarrow> 's encoder" where
  "pb_enc_fixed_length_bytes im field src s =
    Some (pb_encode_string s (load im src (unat (pf_data_size field))) (unat (pf_data_size field)))"

definition pb_encode_tag_for_field :: "pb_field \<Rightarrow> 's encoder" where
  "pb_encode_tag_for_field field s =
    (let lt = PB_LTYPE (pf_type field)
     in if lt \<in> {PB_LTYPE_BOOL, PB_LTYPE_VARINT, PB_LTYPE_UVARINT, PB_LTYPE_SVARINT}
        then Some (pb_encode_tag s PB_WT_VARINT (pf_tag field))
        else if lt = PB_LTYPE_FIXED32 then Some (pb_encode_tag s PB_WT_32BIT (pf_tag field))
        else if lt = PB_LTYPE_FIXED64 then Some (pb_encode_tag s PB_WT_64BIT (pf_tag field))
        else if lt \<in> {PB_LTYPE_BYTES, PB_LTYPE_STRING, PB_LTYPE_SUBMESSAGE, PB_LTYPE_FIXED_LENGTH_BYTES}
        then Some (pb_encode_tag s PB_WT_STRING (pf_tag field))
        else return_error ''invalid field type'' s)"

section \<open>Submessages and arrays\<close>

text \<open>\<open>pb_encode_submessage(stream, fields, src_struct)\<close>, where \<open>enc\<close> is \<open>pb_encode\<close> for these fields and structure.\<close>

definition pb_encode_submessage :: "'s encoder \<Rightarrow> 's encoder" where
  "pb_encode_submessage enc s =
    (case enc PB_OSTREAM_SIZING of None \<Rightarrow> None
     | Some (substream, False) \<Rightarrow> Some (s\<lparr>os_errmsg := os_errmsg substream\<rparr>, False)
     | Some (substream, True) \<Rightarrow>
        let size = os_bytes_written substream
        in (case pb_encode_varint s (of_nat size) of (s, False) \<Rightarrow> Some (s, False)
          | (s, True) \<Rightarrow>
             if os_sink s = Sizing then Some (pb_write s [] size)
             else if size_add (os_bytes_written s) size > os_max_size s then return_error ''stream full'' s
             else (case enc \<lparr>os_sink = os_sink s, os_max_size = size, os_bytes_written = 0, os_errmsg = None\<rparr> of
                 None \<Rightarrow> None
               | Some (substream, status) \<Rightarrow>
                   let s = s\<lparr>os_bytes_written := size_add (os_bytes_written s) (os_bytes_written substream),
                             os_sink := os_sink substream, os_errmsg := os_errmsg substream\<rparr>
                   in if os_bytes_written substream \<noteq> size then return_error ''submsg size changed'' s
                      else Some (s, status))))"

text \<open>The encoders of \<open>PB_ENCODERS\<close> by type; \<open>sub\<close> is \<open>pb_encode\<close> by descriptors and structure.\<close>

definition pb_enc_submessage :: "'s image \<Rightarrow> (pb_field list \<Rightarrow> addr \<Rightarrow> 's encoder) \<Rightarrow> pb_field \<Rightarrow> addr \<Rightarrow> 's encoder" where
  "pb_enc_submessage im sub field src s =
    (if pf_ptr field = 0 then return_error ''invalid field descriptor'' s
     else pb_encode_submessage (sub (im_descs im (pf_ptr field)) src) s)"

definition PB_ENCODERS ::
    "'s image \<Rightarrow> (pb_field list \<Rightarrow> addr \<Rightarrow> 's encoder) \<Rightarrow> u8 \<Rightarrow> pb_field \<Rightarrow> addr \<Rightarrow> 's encoder" where
  "PB_ENCODERS im sub lt =
    (if lt = PB_LTYPE_BOOL then pb_enc_bool im
     else if lt = PB_LTYPE_VARINT then pb_enc_varint im
     else if lt = PB_LTYPE_UVARINT then pb_enc_uvarint im
     else if lt = PB_LTYPE_SVARINT then pb_enc_svarint im
     else if lt = PB_LTYPE_FIXED32 then pb_enc_fixed32 im
     else if lt = PB_LTYPE_FIXED64 then pb_enc_fixed64 im
     else if lt = PB_LTYPE_BYTES then pb_enc_bytes im
     else if lt = PB_LTYPE_STRING then pb_enc_string im
     else if lt = PB_LTYPE_SUBMESSAGE then pb_enc_submessage im sub
     else if lt = PB_LTYPE_FIXED_LENGTH_BYTES then pb_enc_fixed_length_bytes im
     else (\<lambda>field src s. None))"

text \<open>\<open>for (i = 0; i < count; i++) { if (!f(p)) return false; p += step; }\<close>\<close>

primrec array_loop :: "(addr \<Rightarrow> 's encoder) \<Rightarrow> u64 \<Rightarrow> nat \<Rightarrow> addr \<Rightarrow> 's encoder" where
  "array_loop f step 0 p = (\<lambda>s. Some (s, True))"
| "array_loop f step (Suc count) p = and_then_enc (f p) (array_loop f step count (p + step))"

definition encode_array ::
    "'s image \<Rightarrow> pb_field \<Rightarrow> addr \<Rightarrow> nat \<Rightarrow> (pb_field \<Rightarrow> addr \<Rightarrow> 's encoder) \<Rightarrow> 's encoder" where
  "encode_array im field pData count func s =
    (let lt = PB_LTYPE (pf_type field); step = (ucast (pf_data_size field) :: u64)
     in if count = 0 then Some (s, True)
     else if PB_ATYPE (pf_type field) \<noteq> PB_ATYPE_POINTER \<and> count > unat (pf_array_size field)
     then return_error ''array max size exceeded'' s
     else if lt \<le> PB_LTYPE_LAST_PACKABLE then
       and_then_enc (\<lambda>s. Some (pb_encode_tag s PB_WT_STRING (pf_tag field))) (\<lambda>s.
         case (if lt = PB_LTYPE_FIXED32 then Some (size_mul 4 count, True)
               else if lt = PB_LTYPE_FIXED64 then Some (size_mul 8 count, True)
               else (case array_loop (func field) step count pData PB_OSTREAM_SIZING of None \<Rightarrow> None
                 | Some (sizestream, ok) \<Rightarrow> Some (os_bytes_written sizestream, ok))) of
           None \<Rightarrow> None
         | Some (_, False) \<Rightarrow> Some (s, False)
         | Some (total_size, True) \<Rightarrow>
             and_then_enc (\<lambda>s. Some (pb_encode_varint s (of_nat total_size))) (\<lambda>s.
               if os_sink s = Sizing then Some (pb_write s [] total_size)
               else array_loop (func field) step count pData s) s) s
     else array_loop (\<lambda>p. and_then_enc (pb_encode_tag_for_field field)
            (func field (if PB_ATYPE (pf_type field) = PB_ATYPE_POINTER \<and> (lt = PB_LTYPE_STRING \<or> lt = PB_LTYPE_BYTES)
               then load_u64 im p else p))) step count pData s)"

section \<open>Fields\<close>

text \<open>The loops over the fields of a message: a body for each field the iterator visits. A body stops the loop with
  the result of the function, or lets it go on.\<close>

lemma next_more:
  "pb_field_iter_next iter = (iter', True) \<Longrightarrow>
    it_start iter' = it_start iter \<and> it_pos iter' = Suc (it_pos iter) \<and> it_pos iter' < length (it_start iter)"
  by (auto simp: pb_field_iter_next_def Let_def field_at_def PB_LAST_FIELD_def split: if_splits)

lemma next_more_sym [OF sym]: "pb_field_iter_next iter = (iter', True) \<Longrightarrow>
    length (it_start iter') - it_pos iter' < length (it_start iter) - it_pos iter"
  by (auto dest: next_more)

function default_loop :: "(pb_field \<Rightarrow> addr \<Rightarrow> bool option) \<Rightarrow> pb_field_iter \<Rightarrow> bool option" where
  "default_loop check iter =
    (case check (it_field iter) (it_pData iter) of None \<Rightarrow> None
     | Some False \<Rightarrow> Some False
     | Some True \<Rightarrow>
        (case pb_field_iter_next iter of (iter', again) \<Rightarrow> if again then default_loop check iter' else Some True))"
  by auto

termination default_loop
  by (relation "measure (\<lambda>(check, iter). length (it_start iter) - it_pos iter)") (auto dest!: next_more_sym)

declare default_loop.simps [simp del]

function fields_loop :: "(pb_field \<Rightarrow> addr \<Rightarrow> 's encoder) \<Rightarrow> pb_field_iter \<Rightarrow> 's encoder" where
  "fields_loop body iter s =
    (case body (it_field iter) (it_pData iter) s of None \<Rightarrow> None
     | Some (s, False) \<Rightarrow> Some (s, False)
     | Some (s, True) \<Rightarrow>
        (case pb_field_iter_next iter of (iter', again) \<Rightarrow> if again then fields_loop body iter' s else Some (s, True)))"
  by auto

termination fields_loop
  by (relation "measure (\<lambda>(body, iter, s). length (it_start iter) - it_pos iter)") (auto dest!: next_more_sym)

declare fields_loop.simps [simp del]

text \<open>A oneof field without a size offset would make the code read its local \<open>implicit_has\<close> as an integer; no
  descriptor macro makes such a field, and there is no result here.\<close>

primrec pb_check_proto3_default_value :: "nat \<Rightarrow> 's image \<Rightarrow> pb_field \<Rightarrow> addr \<Rightarrow> bool option" where
  "pb_check_proto3_default_value 0 im field pData = None"
| "pb_check_proto3_default_value (Suc n) im field pData =
    (let ty = pf_type field; pSize = pData + scast (pf_size_offset field);
         zero_bytes = list_all (\<lambda>b. b = 0) (load im pData (unat (pf_data_size field)));
         singular =
           (if PB_ATYPE ty = PB_ATYPE_STATIC \<and> PB_LTYPE ty = PB_LTYPE_BYTES then Some (load_u32 im pData = 0)
            else if PB_ATYPE ty = PB_ATYPE_STATIC \<and> PB_LTYPE ty = PB_LTYPE_STRING then Some (load_u8 im pData = 0)
            else if PB_ATYPE ty = PB_ATYPE_STATIC \<and> PB_LTYPE ty = PB_LTYPE_FIXED_LENGTH_BYTES
            then Some (pf_data_size field = 0)
            else if PB_ATYPE ty = PB_ATYPE_STATIC \<and> PB_LTYPE ty = PB_LTYPE_SUBMESSAGE then
              (case pb_field_iter_begin (im_descs im (pf_ptr field)) pData of
                 (iter, False) \<Rightarrow> Some True
               | (iter, True) \<Rightarrow> default_loop (pb_check_proto3_default_value n im) iter)
            else if PB_ATYPE ty = PB_ATYPE_POINTER \<and> PB_LTYPE ty > PB_LTYPE_LAST_PACKABLE
            then Some (load_u64 im pData = 0)
            else Some zero_bytes)
     in if PB_HTYPE ty = PB_HTYPE_REQUIRED then Some False
        else if PB_HTYPE ty = PB_HTYPE_REPEATED then
          (if pf_size_offset field \<noteq> 0 then Some (load_u32 im pSize = 0)
           else if PB_ATYPE ty = PB_ATYPE_STATIC then Some False
           else singular)
        else if PB_HTYPE ty = PB_HTYPE_ONEOF then Some (load_u32 im pSize = 0)
        else if PB_HTYPE ty = PB_HTYPE_OPTIONAL \<and> pf_size_offset field \<noteq> 0 then Some (\<not> safe_read_bool im pSize)
        else singular)"

definition encode_basic_field ::
    "nat \<Rightarrow> 's image \<Rightarrow> (pb_field list \<Rightarrow> addr \<Rightarrow> 's encoder) \<Rightarrow> pb_field \<Rightarrow> addr \<Rightarrow> 's encoder" where
  "encode_basic_field n im sub field pData s =
    (let ty = pf_type field; func = PB_ENCODERS im sub (PB_LTYPE ty);
         pSize = pData + scast (pf_size_offset field)
     in case (if pf_size_offset field \<noteq> 0 then Some True
              else if PB_HTYPE ty = PB_HTYPE_OPTIONAL
              then map_option Not (pb_check_proto3_default_value n im field pData)
              else Some True) of
          None \<Rightarrow> None
        | Some implicit_has \<Rightarrow>
           let src = (if PB_ATYPE ty = PB_ATYPE_POINTER then load_u64 im pData else pData);
               implicit_has = (if PB_ATYPE ty = PB_ATYPE_POINTER then src \<noteq> 0 else implicit_has);
               has = (if pf_size_offset field \<noteq> 0 then safe_read_bool im pSize else implicit_has)
           in if PB_HTYPE ty = PB_HTYPE_REQUIRED then
                (if src = 0 then return_error ''missing required field'' s
                 else and_then_enc (pb_encode_tag_for_field field) (func field src) s)
              else if PB_HTYPE ty = PB_HTYPE_OPTIONAL then
                (if has then and_then_enc (pb_encode_tag_for_field field) (func field src) s else Some (s, True))
              else if PB_HTYPE ty = PB_HTYPE_REPEATED then
                encode_array im field src
                  (unat (if pf_size_offset field \<noteq> 0 then load_u32 im pSize else pf_array_size field)) func s
              else if pf_size_offset field = 0 then None
              else if load_u32 im pSize = pf_tag field
              then and_then_enc (pb_encode_tag_for_field field) (func field src) s
              else Some (s, True))"

text \<open>\<open>pb_callback_t\<close>: the function at 0, its argument at 8.\<close>

definition encode_callback_field :: "'s image \<Rightarrow> pb_field \<Rightarrow> addr \<Rightarrow> 's encoder" where
  "encode_callback_field im field pData s =
    (let arg = pData + 8; funcs_encode = load_u64 im pData
     in if funcs_encode \<noteq> 0 then
          (case im_field_encoder im funcs_encode s field arg of
             (s, False) \<Rightarrow> return_error ''callback error'' s
           | (s, True) \<Rightarrow> Some (s, True))
        else Some (s, True))"

definition encode_field ::
    "nat \<Rightarrow> 's image \<Rightarrow> (pb_field list \<Rightarrow> addr \<Rightarrow> 's encoder) \<Rightarrow> pb_field \<Rightarrow> addr \<Rightarrow> 's encoder" where
  "encode_field n im sub field pData s =
    (if PB_ATYPE (pf_type field) = PB_ATYPE_STATIC \<or> PB_ATYPE (pf_type field) = PB_ATYPE_POINTER
     then encode_basic_field n im sub field pData s
     else if PB_ATYPE (pf_type field) = PB_ATYPE_CALLBACK then encode_callback_field im field pData s
     else return_error ''invalid field type'' s)"

text \<open>\<open>pb_extension_t\<close>: type at 0, dest at 8, next at 16. \<open>pb_extension_type_t\<close>: encode at 8, arg at 16.\<close>

definition default_extension_encoder ::
    "nat \<Rightarrow> 's image \<Rightarrow> (pb_field list \<Rightarrow> addr \<Rightarrow> 's encoder) \<Rightarrow> addr \<Rightarrow> 's encoder" where
  "default_extension_encoder n im sub extension s =
    (let field = field_at (im_descs im (load_u64 im (load_u64 im extension + 16))) 0
     in if PB_ATYPE (pf_type field) = PB_ATYPE_POINTER
        then encode_field n im sub field (extension + 8) s
        else encode_field n im sub field (load_u64 im (extension + 8)) s)"

primrec extension_loop ::
    "nat \<Rightarrow> nat \<Rightarrow> 's image \<Rightarrow> (pb_field list \<Rightarrow> addr \<Rightarrow> 's encoder) \<Rightarrow> addr \<Rightarrow> 's encoder" where
  "extension_loop 0 n im sub extension s = (if extension = 0 then Some (s, True) else None)"
| "extension_loop (Suc k) n im sub extension s =
    (if extension = 0 then Some (s, True)
     else let encode = load_u64 im (load_u64 im extension + 8)
       in and_then_enc
            (if encode \<noteq> 0 then (\<lambda>s. Some (im_extension_encoder im encode s extension))
             else default_extension_encoder n im sub extension)
            (extension_loop k n im sub (load_u64 im (extension + 16))) s)"

definition encode_extension_field ::
    "nat \<Rightarrow> 's image \<Rightarrow> (pb_field list \<Rightarrow> addr \<Rightarrow> 's encoder) \<Rightarrow> pb_field \<Rightarrow> addr \<Rightarrow> 's encoder" where
  "encode_extension_field n im sub field pData s = extension_loop n n im sub (load_u64 im pData) s"

section \<open>Messages\<close>

primrec pb_encode :: "nat \<Rightarrow> 's image \<Rightarrow> pb_field list \<Rightarrow> addr \<Rightarrow> 's encoder" where
  "pb_encode 0 im fs src_struct s = None"
| "pb_encode (Suc n) im fs src_struct s =
    (case pb_field_iter_begin fs src_struct of (iter, False) \<Rightarrow> Some (s, True)
     | (iter, True) \<Rightarrow>
        fields_loop (\<lambda>field pData.
          if PB_LTYPE (pf_type field) = PB_LTYPE_EXTENSION
          then encode_extension_field n im (pb_encode n im) field pData
          else encode_field n im (pb_encode n im) field pData) iter s)"

definition pb_encode_delimited :: "nat \<Rightarrow> 's image \<Rightarrow> pb_field list \<Rightarrow> addr \<Rightarrow> 's encoder" where
  "pb_encode_delimited n im fs src_struct = pb_encode_submessage (pb_encode n im fs src_struct)"

definition pb_encode_nullterminated :: "nat \<Rightarrow> 's image \<Rightarrow> pb_field list \<Rightarrow> addr \<Rightarrow> 's encoder" where
  "pb_encode_nullterminated n im fs src_struct =
    and_then_enc (pb_encode n im fs src_struct) (\<lambda>s. Some (pb_write s [0] 1))"

definition pb_get_encoded_size :: "nat \<Rightarrow> 's image \<Rightarrow> pb_field list \<Rightarrow> addr \<Rightarrow> nat option option" where
  "pb_get_encoded_size n im fs src_struct =
    (case pb_encode n im fs src_struct PB_OSTREAM_SIZING of None \<Rightarrow> None
     | Some (_, False) \<Rightarrow> Some None
     | Some (stream, True) \<Rightarrow> Some (Some (os_bytes_written stream)))"

end
