(* ===== verification/Nanopb_Denotes.thy ===== *)
theory Nanopb_Denotes
  imports Nanopb_Encode
begin

unbundle bit_operations_syntax

text \<open>
  What the message encoder of nanopb writes. \<open>message_bytes\<close> is the encoding of a structure as a function, without
  streams, sizing passes and substreams: None where the encoder has no result, Some None where it fails.
  \<open>denotes f r\<close> relates an encoder to such a result: on a sizing stream it counts the bytes, and on a memory stream it
  writes them, or fails for want of room. Every encoder denotes the function of the same part.
\<close>

type_synonym encoding = "bytes option option"

definition then_bytes :: "encoding \<Rightarrow> encoding \<Rightarrow> encoding" where
  "then_bytes r q = (case r of Some (Some bs) \<Rightarrow> (case q of Some (Some cs) \<Rightarrow> Some (Some (bs @ cs)) | _ \<Rightarrow> q) | _ \<Rightarrow> r)"

lemma then_bytes_simps [simp]:
  "then_bytes None q = None" "then_bytes (Some None) q = Some None"
  "then_bytes (Some (Some bs)) None = None" "then_bytes (Some (Some bs)) (Some None) = Some None"
  "then_bytes (Some (Some bs)) (Some (Some cs)) = Some (Some (bs @ cs))"
  by (simp_all add: then_bytes_def)

lemma then_bytes_Nil [simp]: "then_bytes r (Some (Some [])) = r"
  by (simp add: then_bytes_def split: option.split)

section \<open>Encoders and what they write\<close>

definition memory_stream :: "'s pb_ostream \<Rightarrow> bool" where
  "memory_stream s \<longleftrightarrow> os_buf_wf s \<and> os_max_size s \<le> 2 ^ 62 \<and> os_errmsg s = None"

definition counts :: "'s encoder \<Rightarrow> nat \<Rightarrow> bool" where
  "counts f n \<longleftrightarrow> (\<forall>s. os_sizing_wf s \<longrightarrow>
     (\<exists>k\<le>SIZE_MAX. f s = Some (s\<lparr>os_bytes_written := k\<rparr>, True) \<and> (n \<le> SIZE_MAX \<longrightarrow> k = size_add (os_bytes_written s) n)))"

definition stores :: "'s encoder \<Rightarrow> bytes \<Rightarrow> bool" where
  "stores f bs \<longleftrightarrow> (\<forall>s. memory_stream s \<longrightarrow>
     (if os_buf_room s (length bs) then f s = Some (os_buf_put s bs, True) else (\<exists>s'. f s = Some (s', False))))"

definition denotes :: "'s encoder \<Rightarrow> encoding \<Rightarrow> bool" where
  "denotes f r \<longleftrightarrow> (case r of
     None \<Rightarrow> (\<forall>s. os_sizing_wf s \<longrightarrow> f s = None) \<and> (\<forall>s s'. f s \<noteq> Some (s', True))
   | Some None \<Rightarrow> (\<forall>s. os_sizing_wf s \<longrightarrow> (\<exists>s'. f s = Some (s', False))) \<and> (\<forall>s s'. f s \<noteq> Some (s', True))
   | Some (Some bs) \<Rightarrow> counts f (length bs) \<and> (length bs \<le> 2 ^ 62 \<longrightarrow> stores f bs))"

lemma memory_stream_put:
  assumes "memory_stream s" "os_buf_room s (length bs)"
  shows "memory_stream (os_buf_put s bs)"
proof -
  have "os_buf_wf (os_buf_put s bs)" using assms by (intro buf_out.wf_put) (simp_all add: memory_stream_def)
  then show ?thesis using assms(1) by (auto simp: memory_stream_def os_buf_put_def split: osink.splits)
qed

lemma size_add_assoc: "size_add (size_add a b) c = size_add a (b + c)"
  by (simp add: size_add_def mod_add_left_eq add.assoc)

lemma counts_run:
  assumes "counts f n" "os_sizing_wf s"
  obtains k where "f s = Some (s\<lparr>os_bytes_written := k\<rparr>, True)" "os_sizing_wf (s\<lparr>os_bytes_written := k\<rparr>)"
    "n \<le> SIZE_MAX \<longrightarrow> k = size_add (os_bytes_written s) n"
  using assms unfolding counts_def os_sizing_wf_def by fastforce

lemma counts_then:
  assumes "counts f m" "counts g n"
  shows "counts (and_then_enc f g) (m + n)"
  unfolding counts_def
proof (intro allI impI)
  fix s :: "'a pb_ostream"
  assume s: "os_sizing_wf s"
  obtain k where k: "f s = Some (s\<lparr>os_bytes_written := k\<rparr>, True)" "os_sizing_wf (s\<lparr>os_bytes_written := k\<rparr>)"
      "m \<le> SIZE_MAX \<longrightarrow> k = size_add (os_bytes_written s) m"
    using assms(1) s by (rule counts_run)
  obtain j where j: "g (s\<lparr>os_bytes_written := k\<rparr>) = Some (s\<lparr>os_bytes_written := j\<rparr>, True)"
      "os_sizing_wf (s\<lparr>os_bytes_written := j\<rparr>)" "n \<le> SIZE_MAX \<longrightarrow> j = size_add k n"
    by (rule counts_run [OF assms(2) k(2)]) simp
  have "m + n \<le> SIZE_MAX \<longrightarrow> j = size_add (os_bytes_written s) (m + n)"
    using k(3) j(3) by (auto simp: size_add_assoc)
  then show "\<exists>k\<le>SIZE_MAX. and_then_enc f g s = Some (s\<lparr>os_bytes_written := k\<rparr>, True) \<and>
      (m + n \<le> SIZE_MAX \<longrightarrow> k = size_add (os_bytes_written s) (m + n))"
    using k(1) j(1,2) by (auto simp: and_then_enc_def os_sizing_wf_def)
qed

lemma stores_then:
  assumes "stores f bs" "stores g cs"
  shows "stores (and_then_enc f g) (bs @ cs)"
  unfolding stores_def
proof (intro allI impI)
  fix s :: "'a pb_ostream"
  assume s: "memory_stream s"
  then have wf: "os_buf_wf s" by (simp add: memory_stream_def)
  note f = assms(1) [unfolded stores_def, THEN spec, THEN mp, OF s]
  show "if os_buf_room s (length (bs @ cs)) then and_then_enc f g s = Some (os_buf_put s (bs @ cs), True)
      else \<exists>s'. and_then_enc f g s = Some (s', False)"
  proof (cases "os_buf_room s (length bs)")
    case False
    then show ?thesis using f buf_out.room_add [OF wf, of bs "length cs"] by (auto simp: and_then_enc_def)
  next
    case True
    note g = assms(2) [unfolded stores_def, THEN spec, THEN mp, OF memory_stream_put [OF s True]]
    show ?thesis
      using f g True buf_out.room_add [OF wf, of bs "length cs"] buf_out.put_append [OF wf, of bs cs]
      by (auto simp: and_then_enc_def)
  qed
qed

lemma denotes_then:
  assumes f: "denotes f r" and g: "denotes g q"
  shows "denotes (and_then_enc f g) (then_bytes r q)"
proof (cases "\<exists>bs. r = Some (Some bs)")
  case False
  then show ?thesis using f
    by (auto simp: denotes_def then_bytes_def and_then_enc_def split: option.splits bool.splits)
next
  case True
  then obtain bs where r: "r = Some (Some bs)" by blast
  note f = f [unfolded r denotes_def, simplified]
  have run: "os_sizing_wf s \<Longrightarrow> \<exists>k. f s = Some (s\<lparr>os_bytes_written := k\<rparr>, True) \<and> os_sizing_wf (s\<lparr>os_bytes_written := k\<rparr>)" for s
    using f counts_run [of f "length bs" s] by blast
  show ?thesis
  proof (cases "\<exists>cs. q = Some (Some cs)")
    case False
    then have fails: "\<And>s s'. g s \<noteq> Some (s', True)" using g by (auto simp: denotes_def split: option.splits)
    have never: "and_then_enc f g s \<noteq> Some (s', True)" for s s'
      using fails by (auto simp: and_then_enc_def split: option.splits bool.splits)
    have "\<exists>s'. os_sizing_wf s' \<and> and_then_enc f g s = g s'" if "os_sizing_wf s" for s
      using run [OF that] by (auto simp: and_then_enc_def)
    then show ?thesis using g False never unfolding r by (auto simp: denotes_def split: option.splits) metis+
  next
    case True
    then show ?thesis using g f unfolding r
      by (auto simp: denotes_def intro: counts_then stores_then)
  qed
qed

lemma denotes_skip: "denotes (\<lambda>s. Some (s, True)) (Some (Some []))"
  unfolding denotes_def option.case counts_def stores_def
proof (intro conjI allI impI)
  fix s :: "'a pb_ostream"
  assume "os_sizing_wf s"
  then show "\<exists>k\<le>SIZE_MAX. Some (s, True) = Some (s\<lparr>os_bytes_written := k\<rparr>, True) \<and>
      (length ([] :: bytes) \<le> SIZE_MAX \<longrightarrow> k = size_add (os_bytes_written s) (length ([] :: bytes)))"
    by (intro exI [of _ "os_bytes_written s"]) (simp add: os_sizing_wf_def size_add_def)
next
  fix s :: "'a pb_ostream"
  assume s: "memory_stream s"
  then have "os_buf_put s [] = s"
    by (auto simp: memory_stream_def os_buf_put_def os_buf_wf_def split: osink.splits)
  moreover have "os_buf_room s 0" using s by (auto simp: memory_stream_def os_buf_room_def os_buf_wf_def split: osink.splits)
  ultimately show "if os_buf_room s (length ([] :: bytes)) then Some (s, True) = Some (os_buf_put s [], True)
      else (\<exists>s'. Some (s, True) = Some (s', False))" by simp
qed

lemma denotes_error: "denotes (return_error m) (Some None)"
  by (simp add: denotes_def return_error_def)

lemma denotes_write:
  assumes "length bs \<le> SIZE_MAX"
  shows "denotes (\<lambda>s. Some (pb_write s bs (length bs))) (Some (Some bs))"
  unfolding denotes_def option.case counts_def stores_def
proof (intro conjI allI impI)
  fix s :: "'a pb_ostream"
  assume "os_sizing_wf s"
  then show "\<exists>k\<le>SIZE_MAX. Some (pb_write s bs (length bs)) = Some (s\<lparr>os_bytes_written := k\<rparr>, True) \<and>
      (length bs \<le> SIZE_MAX \<longrightarrow> k = size_add (os_bytes_written s) (length bs))"
    by (intro exI [of _ "size_add (os_bytes_written s) (length bs)"]) (simp add: os_sizing_wf_def pb_write_def)
next
  fix s :: "'a pb_ostream"
  assume s: "memory_stream s"
  then show "if os_buf_room s (length bs) then Some (pb_write s bs (length bs)) = Some (os_buf_put s bs, True)
      else (\<exists>s'. Some (pb_write s bs (length bs)) = Some (s', False))"
    using buf_out.write_ok [of s bs] buf_out.write_full [of s bs] assms by (auto simp: memory_stream_def)
qed

text \<open>A length and that many bytes.\<close>

definition string_bytes :: "bytes \<Rightarrow> bytes" where
  "string_bytes bs = varint_bytes (of_nat (length bs)) @ bs"

lemma denotes_varint: "denotes (\<lambda>s. Some (pb_encode_varint s v)) (Some (Some (varint_bytes v)))"
  using denotes_write [of "varint_bytes v"] varint_bytes_size [of v] by (simp add: pb_encode_varint_write)

lemma denotes_string:
  assumes "length bs \<le> SIZE_MAX" "n = length bs"
  shows "denotes (\<lambda>s :: 'a pb_ostream. Some (pb_encode_string s bs n)) (Some (Some (string_bytes bs)))"
proof -
  have "(\<lambda>s :: 'a pb_ostream. Some (pb_encode_string s bs n)) =
      and_then_enc (\<lambda>s. Some (pb_encode_varint s (of_nat (length bs)))) (\<lambda>s. Some (pb_write s bs (length bs)))"
    using assms(2) by (auto simp: pb_encode_string_def and_then_enc_def split: prod.splits bool.splits)
  then show ?thesis using denotes_then [OF denotes_varint denotes_write [OF assms(1)], of "of_nat (length bs)"]
    by (simp only: string_bytes_def then_bytes_simps)
qed

section \<open>Submessages\<close>

lemma counts_cong: "(\<And>s. os_sizing_wf s \<Longrightarrow> f s = g s) \<Longrightarrow> counts g n \<Longrightarrow> counts f n"
  by (simp add: counts_def)

lemma stores_cong: "(\<And>s. memory_stream s \<Longrightarrow> f s = g s) \<Longrightarrow> stores g bs \<Longrightarrow> stores f bs"
  by (simp add: stores_def)

text \<open>A length that is known beforehand, and the bytes if they are wanted.\<close>

definition sized_string :: "nat \<Rightarrow> 's encoder \<Rightarrow> 's encoder" where
  "sized_string k f = and_then_enc (\<lambda>s. Some (pb_encode_varint s (of_nat k)))
     (\<lambda>s. if os_sink s = Sizing then Some (pb_write s [] k) else f s)"

lemma counts_sized_string:
  assumes k: "k \<le> SIZE_MAX" "n \<le> SIZE_MAX \<longrightarrow> k = n"
  shows "counts (sized_string k f) (length (varint_bytes (of_nat n)) + n)"
  unfolding counts_def
proof (intro allI impI)
  fix s :: "'a pb_ostream"
  assume s: "os_sizing_wf s"
  have "counts (\<lambda>s :: 'a pb_ostream. Some (pb_encode_varint s (of_nat k))) (length (varint_bytes (of_nat k)))"
    using denotes_varint [of "of_nat k", where ?'a = 'a] by (simp add: denotes_def)
  then obtain j where j: "Some (pb_encode_varint s (of_nat k)) = Some (s\<lparr>os_bytes_written := j\<rparr>, True)"
      "os_sizing_wf (s\<lparr>os_bytes_written := j\<rparr>)" 
      "length (varint_bytes (of_nat k)) \<le> SIZE_MAX \<longrightarrow> j = size_add (os_bytes_written s) (length (varint_bytes (of_nat k)))"
    using s by (rule counts_run)
  have run: "sized_string k f s = Some (s\<lparr>os_bytes_written := size_add j k\<rparr>, True)"
    using j(1,2) by (simp add: sized_string_def and_then_enc_def os_sizing_wf_def pb_write_def)
  have "size_add j k = size_add (os_bytes_written s) (length (varint_bytes (of_nat n)) + n)"
    if "length (varint_bytes (of_nat n)) + n \<le> SIZE_MAX"
    using that k(2) j(3) varint_bytes_size by (simp add: size_add_assoc)
  then show "\<exists>k'\<le>SIZE_MAX. sized_string k f s = Some (s\<lparr>os_bytes_written := k'\<rparr>, True) \<and>
      (length (varint_bytes (of_nat n)) + n \<le> SIZE_MAX \<longrightarrow>
       k' = size_add (os_bytes_written s) (length (varint_bytes (of_nat n)) + n))"
    using run by (intro exI [of _ "size_add j k"]) (simp add: size_add_def)
qed

lemma stores_sized_string:
  assumes "stores f bs"
  shows "stores (sized_string (length bs) f) (string_bytes bs)"
  unfolding sized_string_def string_bytes_def
proof (rule stores_then)
  show "stores (\<lambda>s :: 'a pb_ostream. Some (pb_encode_varint s (of_nat (length bs)))) (varint_bytes (of_nat (length bs)))"
    using denotes_varint [of "of_nat (length bs)", where ?'a = 'a] length_varint_bytes_10 [of "of_nat (length bs)"]
    by (simp add: denotes_def)
  show "stores (\<lambda>s :: 'a pb_ostream. if os_sink s = Sizing then Some (pb_write s [] (length bs)) else f s) bs"
    by (rule stores_cong [OF _ assms]) (auto simp: memory_stream_def os_buf_wf_def)
qed

definition as_string :: "encoding \<Rightarrow> encoding" where
  "as_string r = (case r of Some (Some bs) \<Rightarrow> Some (Some (string_bytes bs)) | _ \<Rightarrow> r)"

text \<open>The first pass.\<close>

lemma counts_first:
  assumes "counts enc n"
  obtains k where "enc PB_OSTREAM_SIZING = Some (PB_OSTREAM_SIZING\<lparr>os_bytes_written := k\<rparr>, True)"
    "k \<le> SIZE_MAX" "n \<le> SIZE_MAX \<longrightarrow> k = n"
proof -
  obtain k where k: "enc PB_OSTREAM_SIZING = Some (PB_OSTREAM_SIZING\<lparr>os_bytes_written := k\<rparr>, True)"
      "os_sizing_wf (PB_OSTREAM_SIZING\<lparr>os_bytes_written := k\<rparr> :: 'a pb_ostream)"
      "n \<le> SIZE_MAX \<longrightarrow> k = size_add (os_bytes_written (PB_OSTREAM_SIZING :: 'a pb_ostream)) n"
    using assms wf_ostream_sizing by (rule counts_run)
  then show ?thesis by (intro that [of k]) (auto simp: PB_OSTREAM_SIZING_def size_add_small os_sizing_wf_def)
qed

lemma counts_submessage:
  assumes "counts enc (length bs)"
  shows "counts (pb_encode_submessage enc) (length (string_bytes bs))"
proof -
  obtain k where k: "enc PB_OSTREAM_SIZING = Some (PB_OSTREAM_SIZING\<lparr>os_bytes_written := k\<rparr>, True)"
      "k \<le> SIZE_MAX" "length bs \<le> SIZE_MAX \<longrightarrow> k = length bs"
    using assms by (rule counts_first)
  have "pb_encode_submessage enc s = sized_string k (\<lambda>s. None) s" if "os_sizing_wf s" for s
  proof -
    have "os_sink (fst (pb_encode_varint s (of_nat k))) = Sizing"
      using that by (simp add: pb_encode_varint_write pb_write_def os_sizing_wf_def)
    then show ?thesis using k(1)
      by (auto simp: pb_encode_submessage_def sized_string_def and_then_enc_def split: prod.splits bool.splits)
  qed
  then show ?thesis using counts_sized_string [OF k(2,3)] counts_cong by (simp add: string_bytes_def) blast
qed

text \<open>The substream of the second pass has exactly the room the first pass has counted.\<close>

lemma substream_put:
  assumes s: "memory_stream s" and r: "os_buf_room s (length bs)"
    and t: "t = \<lparr>os_sink = os_sink s, os_max_size = length bs, os_bytes_written = 0, os_errmsg = None\<rparr>"
  shows "memory_stream t" "os_buf_room t (length bs)"
    "s\<lparr>os_bytes_written := size_add (os_bytes_written s) (os_bytes_written (os_buf_put t bs)),
       os_sink := os_sink (os_buf_put t bs), os_errmsg := os_errmsg (os_buf_put t bs)\<rparr> = os_buf_put s bs"
    "os_bytes_written (os_buf_put t bs) = length bs"
proof -
  obtain mem pos where m: "os_sink s = BufWrite mem pos" using s by (auto simp: memory_stream_def os_buf_wf_def split: osink.splits)
  have b: "os_bytes_written s + length bs \<le> os_max_size s" "os_max_size s \<le> 2 ^ 62"
      "pos + (os_max_size s - os_bytes_written s) \<le> length mem"
    using s r m by (simp_all add: memory_stream_def os_buf_wf_def os_buf_room_def)
  show "memory_stream t" "os_buf_room t (length bs)" "os_bytes_written (os_buf_put t bs) = length bs"
    using b by (simp_all add: t m memory_stream_def os_buf_defs)
  show "s\<lparr>os_bytes_written := size_add (os_bytes_written s) (os_bytes_written (os_buf_put t bs)),
       os_sink := os_sink (os_buf_put t bs), os_errmsg := os_errmsg (os_buf_put t bs)\<rparr> = os_buf_put s bs"
    using b s by (simp add: t m os_buf_put_def size_add_small memory_stream_def)
qed

lemma stores_submessage:
  assumes c: "counts enc (length bs)" and st: "stores enc bs" and l: "length (string_bytes bs) \<le> 2 ^ 62"
  shows "stores (pb_encode_submessage enc) (string_bytes bs)"
  unfolding stores_def
proof (intro allI impI)
  fix s :: "'a pb_ostream"
  assume s: "memory_stream s"
  let ?z = "PB_OSTREAM_SIZING :: 'a pb_ostream" and ?v = "varint_bytes (of_nat (length bs))"
  have lb: "length bs \<le> 2 ^ 62" using l by (simp add: string_bytes_def)
  obtain k where "enc ?z = Some (?z\<lparr>os_bytes_written := k\<rparr>, True)" "length bs \<le> SIZE_MAX \<longrightarrow> k = length bs"
    using c by (rule counts_first)
  then have z: "enc ?z = Some (?z\<lparr>os_bytes_written := length bs\<rparr>, True)"
    using lb by simp
  have wf: "os_buf_wf s" using s by (simp add: memory_stream_def)
  have room: "os_buf_room s (length (string_bytes bs)) \<longleftrightarrow> os_buf_room s (length ?v) \<and> os_buf_room (os_buf_put s ?v) (length bs)"
    using buf_out.room_add [OF wf, of ?v "length bs"] by (simp add: string_bytes_def)
  show "if os_buf_room s (length (string_bytes bs)) then pb_encode_submessage enc s = Some (os_buf_put s (string_bytes bs), True)
      else \<exists>s'. pb_encode_submessage enc s = Some (s', False)"
  proof (cases "os_buf_room s (length ?v)")
    case False
    then have "pb_encode_varint s (of_nat (length bs)) = (os_set_error s ''stream full'', False)"
      using buf_out.write_full [OF wf varint_bytes_size] by (simp add: pb_encode_varint_write)
    then show ?thesis using False room z by (simp add: pb_encode_submessage_def)
  next
    case True
    let ?s = "os_buf_put s ?v"
    have v: "pb_encode_varint s (of_nat (length bs)) = (?s, True)"
      using buf_out.write_ok [OF wf True] by (simp add: pb_encode_varint_write)
    have s1: "memory_stream ?s" by (rule memory_stream_put [OF s True])
    then have n: "os_sink ?s \<noteq> Sizing" "os_bytes_written ?s \<le> 2 ^ 62"
      by (auto simp: memory_stream_def os_buf_wf_def split: osink.splits)
    have full: "size_add (os_bytes_written ?s) (length bs) > os_max_size ?s \<longleftrightarrow> \<not> os_buf_room ?s (length bs)"
      using n(2) lb by (simp add: os_buf_room_def size_add_small not_le)
    show ?thesis
    proof (cases "os_buf_room ?s (length bs)")
      case False
      then show ?thesis using room full z v n(1) by (simp add: pb_encode_submessage_def return_error_def)
    next
      case fits: True
      define t where "t = \<lparr>os_sink = os_sink ?s, os_max_size = length bs, os_bytes_written = 0, os_errmsg = None\<rparr>"
      note sub = substream_put [OF s1 fits t_def]
      have "enc t = Some (os_buf_put t bs, True)" using st sub(1,2) by (simp add: stores_def)
      moreover have "os_buf_put ?s bs = os_buf_put s (string_bytes bs)"
        using buf_out.put_append [OF wf, of ?v bs] room True fits by (simp add: string_bytes_def)
      ultimately show ?thesis using room True fits full z v n(1) sub(3,4)
        by (simp add: pb_encode_submessage_def Let_def t_def [symmetric])
    qed
  qed
qed

lemma denotes_submessage:
  assumes "denotes enc r"
  shows "denotes (pb_encode_submessage enc) (as_string r)"
proof (cases "\<exists>bs. r = Some (Some bs)")
  case True
  then show ?thesis using assms counts_submessage stores_submessage
    by (fastforce simp: denotes_def as_string_def string_bytes_def)
next
  case False
  then show ?thesis using assms wf_ostream_sizing
    by (auto simp: denotes_def as_string_def pb_encode_submessage_def split: option.splits)
qed

end
