(* ===== verification/Nanopb_Values.thy ===== *)
theory Nanopb_Values
  imports Nanopb_Denotes
begin

unbundle bit_operations_syntax

text \<open>
  What the message encoder of nanopb writes for one value of a field, and for its key: \<open>value_bytes\<close> in terms of the numbers and bytes in
  memory, and the proof that each of the encoders behind \<open>PB_ENCODERS\<close> denotes it.
\<close>

section \<open>Values\<close>

text \<open>The number in \<open>n\<close> bytes, in two's complement, and the numbering of the integers that signed fields use.\<close>

definition signed_at :: "'s image \<Rightarrow> addr \<Rightarrow> nat \<Rightarrow> int" where
  "signed_at im p n = signed_take_bit (8 * n - 1) (int (le_val (load im p n)))"

definition zigzag_int :: "int \<Rightarrow> int" where
  "zigzag_int v = (if v < 0 then - 2 * v - 1 else 2 * v)"

lemma scast_of_nat8: "(scast (of_nat v :: u8) :: u64) = of_int (signed_take_bit 7 (int v))"
  using sint_sbintrunc' [of "int v", where ?'a = 8] by (simp add: scast_eq)

lemma scast_of_nat16: "(scast (of_nat v :: u16) :: u64) = of_int (signed_take_bit 15 (int v))"
  using sint_sbintrunc' [of "int v", where ?'a = 16] by (simp add: scast_eq)

lemma scast_of_nat32: "(scast (of_nat v :: u32) :: u64) = of_int (signed_take_bit 31 (int v))"
  using sint_sbintrunc' [of "int v", where ?'a = 32] by (simp add: scast_eq)

lemma of_nat64: "(of_nat v :: u64) = of_int (signed_take_bit 63 (int v))"
proof -
  have "(scast (of_nat v :: u64) :: u64) = of_int (signed_take_bit 63 (int v))"
    using sint_sbintrunc' [of "int v", where ?'a = 64] by (simp add: scast_eq del: scast_id)
  then show ?thesis by simp
qed

lemma zigzag_of_int:
  assumes "signed_take_bit 63 v = v"
  shows "zigzag (of_int v) = of_int (zigzag_int v)"
proof -
  have "sint (of_int v :: u64) = v" using sint_sbintrunc' [of v, where ?'a = 64] assms by simp
  moreover have "NOT (push_bit 1 (of_int v :: u64)) = of_int (- 2 * v - 1)"
    by (simp add: not_eq_complement push_bit_eq_mult)
  moreover have "push_bit 1 (of_int v :: u64) = of_int (2 * v)" by (simp add: push_bit_eq_mult)
  ultimately show ?thesis by (simp add: zigzag_def zigzag_int_def)
qed

lemma load_length [simp]: "length (load im p n) = n"
  by (simp add: load_def)

lemma load_u8_val: "load_u8 im p = of_nat (le_val (load im p 1))"
  by (simp add: load_u8_def load_def)

lemma load_u32_val: "unat (load_u32 im p) = le_val (load im p 4)"
  using le_val_less [of "load im p 4"] by (simp add: load_u32_def unat_of_nat)

lemma load_u64_val: "unat (load_u64 im p) = le_val (load im p 8)"
  using le_val_less [of "load im p 8"] by (simp add: load_u64_def unat_of_nat)

lemma low_byte:
  "(ucast (w AND 0xFF :: u32) :: u8) = of_nat (unat w mod 256)"
  "(ucast (v AND 0xFF :: u64) :: u8) = of_nat (unat v mod 256)"
proof -
  have "(ucast (take_bit 8 w) :: u8) = ucast w" "(ucast (take_bit 8 v) :: u8) = ucast v"
    by (rule bit_word_eqI; auto simp: bit_simps)+
  moreover have "(of_nat (unat w mod 256) :: u8) = of_nat (unat w)" "(of_nat (unat v mod 256) :: u8) = of_nat (unat v)"
    by (simp_all add: word_unat_eq_iff unat_of_nat)
  ultimately show "(ucast (w AND 0xFF :: u32) :: u8) = of_nat (unat w mod 256)"
    "(ucast (v AND 0xFF :: u64) :: u8) = of_nat (unat v mod 256)"
    unfolding mask_words by (simp_all flip: take_bit_eq_mask)
qed

lemma le_bytes_step: "0 < n \<Longrightarrow> le_bytes n v = of_nat (v mod 256) # le_bytes (n - 1) (v div 256)"
  by (cases n) simp_all

lemma fixed32_bytes_le: "fixed32_bytes w = le_bytes 4 (unat w)"
  by (simp add: fixed32_bytes_def low_byte le_bytes_step drop_bit_eq_div unat_div flip: div_mult2_eq)

lemma fixed64_bytes_le: "fixed64_bytes w = le_bytes 8 (unat w)"
  by (simp add: fixed64_bytes_def low_byte le_bytes_step drop_bit_eq_div unat_div flip: div_mult2_eq)

lemma fixed32_load: "fixed32_bytes (load_u32 im p) = load im p 4"
  using le_bytes_le_val [of "load im p 4"] by (simp add: fixed32_bytes_le load_u32_val)

lemma fixed64_load: "fixed64_bytes (load_u64 im p) = load im p 8"
  using le_bytes_le_val [of "load im p 8"] by (simp add: fixed64_bytes_le load_u64_val)

text \<open>\<open>value_bytes\<close>: what the encoder of each type writes for the value at \<open>src\<close>; \<open>sub\<close> encodes the submessages.\<close>

definition integer_value :: "'s image \<Rightarrow> u8 \<Rightarrow> addr \<Rightarrow> nat \<Rightarrow> u64" where
  "integer_value im lt src n =
    (if lt = PB_LTYPE_VARINT then of_int (signed_at im src n)
     else if lt = PB_LTYPE_UVARINT then of_nat (le_val (load im src n))
     else of_int (zigzag_int (signed_at im src n)))"

definition integer_bytes :: "'s image \<Rightarrow> u8 \<Rightarrow> addr \<Rightarrow> nat \<Rightarrow> encoding" where
  "integer_bytes im lt src n =
    (if n \<in> {1, 2, 4, 8} then Some (Some (varint_bytes (integer_value im lt src n))) else Some None)"

definition bytes_bytes :: "'s image \<Rightarrow> pb_field \<Rightarrow> addr \<Rightarrow> encoding" where
  "bytes_bytes im field src =
    (if src = 0 then Some (Some (string_bytes []))
     else if PB_ATYPE (pf_type field) = PB_ATYPE_STATIC \<and> unat (pf_data_size field) < le_val (load im src 4) + 4 then Some None
     else Some (Some (string_bytes (load im (src + 4) (le_val (load im src 4))))))"

definition c_string_at :: "'s image \<Rightarrow> addr \<Rightarrow> nat \<Rightarrow> bytes" where
  "c_string_at im p max_size = takeWhile (\<lambda>b. b \<noteq> 0) (load im p max_size)"

definition c_string_bytes :: "'s image \<Rightarrow> pb_field \<Rightarrow> addr \<Rightarrow> bytes" where
  "c_string_bytes im field src =
    (if src = 0 then []
     else c_string_at im src
       (if PB_ATYPE (pf_type field) = PB_ATYPE_POINTER then SIZE_MAX else unat (pf_data_size field)))"

definition value_bytes :: "'s image \<Rightarrow> (pb_field list \<Rightarrow> addr \<Rightarrow> encoding) \<Rightarrow> pb_field \<Rightarrow> addr \<Rightarrow> encoding" where
  "value_bytes im sub field src =
    (let lt = PB_LTYPE (pf_type field)
     in if lt = PB_LTYPE_BOOL then Some (Some [if im_mem im src = 0 then 0 else 1])
     else if lt \<in> {PB_LTYPE_VARINT, PB_LTYPE_UVARINT, PB_LTYPE_SVARINT}
     then integer_bytes im lt src (unat (pf_data_size field))
     else if lt = PB_LTYPE_FIXED32 then Some (Some (load im src 4))
     else if lt = PB_LTYPE_FIXED64 then Some (Some (load im src 8))
     else if lt = PB_LTYPE_BYTES then bytes_bytes im field src
     else if lt = PB_LTYPE_STRING then Some (Some (string_bytes (c_string_bytes im field src)))
     else if lt = PB_LTYPE_SUBMESSAGE then
       (if pf_ptr field = 0 then Some None else as_string (sub (im_descs im (pf_ptr field)) src))
     else if lt = PB_LTYPE_FIXED_LENGTH_BYTES then Some (Some (string_bytes (load im src (unat (pf_data_size field)))))
     else None)"

lemma denotes_cong: "(\<And>s. f s = g s) \<Longrightarrow> denotes g r \<Longrightarrow> denotes f r"
  by (subst ext [of f g]) simp_all

lemma denotes_bool: "denotes (pb_enc_bool im field src) (Some (Some [if im_mem im src = 0 then 0 else 1]))"
proof (rule denotes_cong)
  show "pb_enc_bool im field src s = Some (pb_encode_varint s (if im_mem im src = 0 then 0 else 1))" for s :: "'a pb_ostream"
    by (simp add: pb_enc_bool_def safe_read_bool_def load_u8_def)
  have "varint_bytes (if im_mem im src = 0 then 0 else 1) = [if im_mem im src = 0 then 0 else 1]"
    by (simp add: varint_bytes_small)
  then show "denotes (\<lambda>s. Some (pb_encode_varint s (if im_mem im src = 0 then 0 else 1)))
      (Some (Some [if im_mem im src = 0 then 0 else 1]))"
    using denotes_varint [of "if im_mem im src = 0 then 0 else 1"] by simp
qed

text \<open>The dispatch on \<open>data_size\<close>.\<close>

lemma data_size_nat:
  "pf_data_size field = 1 \<longleftrightarrow> unat (pf_data_size field) = 1" "pf_data_size field = 2 \<longleftrightarrow> unat (pf_data_size field) = 2"
  "pf_data_size field = 4 \<longleftrightarrow> unat (pf_data_size field) = 4" "pf_data_size field = 8 \<longleftrightarrow> unat (pf_data_size field) = 8"
  by (simp_all add: word_unat_eq_iff)

lemma signed_at_scast:
  "scast (load_u8 im p) = (of_int (signed_at im p 1) :: u64)" "scast (load_u16 im p) = (of_int (signed_at im p 2) :: u64)"
  "scast (load_u32 im p) = (of_int (signed_at im p 4) :: u64)" "load_u64 im p = of_int (signed_at im p 8)"
  unfolding load_u8_val load_u16_def load_u32_def load_u64_def scast_of_nat8 scast_of_nat16 scast_of_nat32 of_nat64
  by (simp_all add: signed_at_def)

lemma signed_at_range: "n \<in> {1, 2, 4, 8} \<Longrightarrow> signed_take_bit 63 (signed_at im p n) = signed_at im p n"
  by (auto simp: signed_at_def)

lemma denotes_sized:
  assumes "\<And>s. n \<in> {1, 2, 4, 8 :: nat} \<Longrightarrow> f s = Some (pb_encode_varint s (integer_value im lt src n))"
    "\<And>s. n \<notin> {1, 2, 4, 8} \<Longrightarrow> f s = return_error ''invalid data_size'' s"
  shows "denotes f (integer_bytes im lt src n)"
  unfolding integer_bytes_def
  using denotes_cong [OF assms(1) denotes_varint] denotes_cong [OF assms(2) denotes_error] by (auto split: if_split)

lemma ucast_of_nat_load:
  "ucast (load_u8 im p) = (of_nat (le_val (load im p 1)) :: u64)"
  "ucast (load_u16 im p) = (of_nat (le_val (load im p 2)) :: u64)"
  "ucast (load_u32 im p) = (of_nat (le_val (load im p 4)) :: u64)"
  using le_val_less [of "load im p 1"] le_val_less [of "load im p 2"] le_val_less [of "load im p 4"]
  by (simp_all add: load_u8_val load_u16_def load_u32_def word_unat_eq_iff unat_of_nat unsigned_ucast_eq take_bit_eq_mod)

lemma denotes_integer:
  "denotes (pb_enc_varint im field src) (integer_bytes im PB_LTYPE_VARINT src (unat (pf_data_size field)))"
  "denotes (pb_enc_uvarint im field src) (integer_bytes im PB_LTYPE_UVARINT src (unat (pf_data_size field)))"
  "denotes (pb_enc_svarint im field src) (integer_bytes im PB_LTYPE_SVARINT src (unat (pf_data_size field)))"
proof -
  show "denotes (pb_enc_varint im field src) (integer_bytes im PB_LTYPE_VARINT src (unat (pf_data_size field)))"
    by (rule denotes_sized) (auto simp: pb_enc_varint_def data_size_nat signed_at_scast integer_value_def)
  show "denotes (pb_enc_uvarint im field src) (integer_bytes im PB_LTYPE_UVARINT src (unat (pf_data_size field)))"
    by (rule denotes_sized) (auto simp: pb_enc_uvarint_def data_size_nat ucast_of_nat_load load_u64_def integer_value_def)
  show "denotes (pb_enc_svarint im field src) (integer_bytes im PB_LTYPE_SVARINT src (unat (pf_data_size field)))"
    by (rule denotes_sized) (auto simp: pb_enc_svarint_def pb_encode_svarint_def data_size_nat signed_at_scast
        integer_value_def zigzag_of_int signed_at_range)
qed

lemma load_Suc: "load im p (Suc k) = im_mem im p # load im (p + 1) k"
  by (simp only: load_def upt_rec [of 0] zero_less_Suc if_True list.map map_Suc_upt [symmetric] map_map o_def) (simp add: add.assoc)

lemma load_0: "load im p 0 = []"
  by (simp add: load_def)

lemma string_size_takeWhile: "string_size im p n = length (c_string_at im p n)"
proof (induction n arbitrary: p)
  case (Suc n)
  show ?case using Suc by (simp add: string_size.simps [of im p "Suc n"] c_string_at_def load_Suc)
qed (simp add: string_size.simps [of _ _ 0] c_string_at_def load_def)

lemma load_c_string: "load im p (length (c_string_at im p n)) = c_string_at im p n"
  unfolding string_size_takeWhile [symmetric]
proof (induction n arbitrary: p)
  case (Suc n)
  show ?case using Suc by (simp add: string_size.simps [of im p "Suc n"] c_string_at_def load_Suc) (simp add: load_def)
qed (simp add: string_size.simps [of _ _ 0] c_string_at_def load_def)

lemma c_string_at_length: "length (c_string_at im p n) \<le> n"
  unfolding c_string_at_def using length_takeWhile_le [of _ "load im p n"] by simp

lemma denotes_bytes: "denotes (pb_enc_bytes im field src) (bytes_bytes im field src)"
proof (cases "src = 0")
  case True
  have "denotes (pb_enc_bytes im field src) (Some (Some (string_bytes [])))"
    by (rule denotes_cong [OF _ denotes_string [of "[]" 0]]) (simp_all add: pb_enc_bytes_def True)
  then show ?thesis by (simp add: bytes_bytes_def True)
next
  case src: False
  let ?n = "le_val (load im src 4)"
  have n: "?n < 2 ^ 32" using le_val_less [of "load im src 4"] by simp
  then have a: "size_add ?n 4 = ?n + 4" by (simp add: size_add_small)
  show ?thesis
  proof (cases "PB_ATYPE (pf_type field) = PB_ATYPE_STATIC \<and> unat (pf_data_size field) < ?n + 4")
    case True
    have "denotes (pb_enc_bytes im field src) (Some None)"
      by (rule denotes_cong [OF _ denotes_error]) (use src a True in \<open>simp add: pb_enc_bytes_def load_u32_val\<close>)
    then show ?thesis using src True by (simp add: bytes_bytes_def)
  next
    case False
    have "denotes (pb_enc_bytes im field src) (Some (Some (string_bytes (load im (src + 4) ?n))))"
      by (rule denotes_cong [OF _ denotes_string [of "load im (src + 4) ?n" ?n]])
        (use src a n False in \<open>auto simp: pb_enc_bytes_def load_u32_val Let_def\<close>)
    then show ?thesis using src False by (auto simp: bytes_bytes_def)
  qed
qed

lemma denotes_c_string: "denotes (pb_enc_string im field src) (Some (Some (string_bytes (c_string_bytes im field src))))"
proof -
  let ?m = "if PB_ATYPE (pf_type field) = PB_ATYPE_POINTER then SIZE_MAX else unat (pf_data_size field)"
  have "length (c_string_at im src ?m) \<le> SIZE_MAX"
    using c_string_at_length [of im src ?m] unat_u32_less [of "pf_data_size field"] by (simp split: if_splits)
  then have l: "length (c_string_bytes im field src) \<le> SIZE_MAX" by (simp add: c_string_bytes_def)
  show ?thesis
    by (rule denotes_cong [OF _ denotes_string [OF l refl]])
      (auto simp: pb_enc_string_def c_string_bytes_def Let_def load_c_string string_size_takeWhile load_0)
qed

lemma denotes_fixed_length:
  "denotes (pb_enc_fixed_length_bytes im field src) (Some (Some (string_bytes (load im src (unat (pf_data_size field))))))"
proof -
  have l: "length (load im src (unat (pf_data_size field))) \<le> SIZE_MAX" 
    using unat_u32_less [of "pf_data_size field"] by simp
  show ?thesis
    by (rule denotes_cong [OF _ denotes_string [OF l refl]]) (simp add: pb_enc_fixed_length_bytes_def)
qed

lemma denotes_fixed:
  "denotes (pb_enc_fixed32 im field src) (Some (Some (load im src 4)))"
  "denotes (pb_enc_fixed64 im field src) (Some (Some (load im src 8)))"
proof -
  show "denotes (pb_enc_fixed32 im field src) (Some (Some (load im src 4)))"
    by (rule denotes_cong [OF _ denotes_write]) (simp_all add: pb_enc_fixed32_def pb_encode_fixed32_write fixed32_load)
  show "denotes (pb_enc_fixed64 im field src) (Some (Some (load im src 8)))"
    by (rule denotes_cong [OF _ denotes_write]) (simp_all add: pb_enc_fixed64_def pb_encode_fixed64_write fixed64_load)
qed

lemma denotes_none [simp]: "denotes (\<lambda>s. None) None"
  by (simp add: denotes_def)

lemma denotes_value:
  assumes sub: "\<And>p src. denotes (sub (im_descs im p) src) (subb (im_descs im p) src)"
  shows "denotes (PB_ENCODERS im sub (PB_LTYPE (pf_type field)) field src) (value_bytes im subb field src)"
proof -
  have submessage: "denotes (pb_enc_submessage im sub field src)
      (if pf_ptr field = 0 then Some None else as_string (subb (im_descs im (pf_ptr field)) src))"
  proof (cases "pf_ptr field = 0")
    case True
    have "denotes (pb_enc_submessage im sub field src) (Some None)"
      by (rule denotes_cong [OF _ denotes_error]) (simp add: pb_enc_submessage_def True)
    then show ?thesis using True by simp
  next
    case False
    have "denotes (pb_enc_submessage im sub field src) (as_string (subb (im_descs im (pf_ptr field)) src))"
      by (rule denotes_cong [OF _ denotes_submessage [OF sub]]) (simp add: pb_enc_submessage_def False)
    then show ?thesis using False by simp
  qed
  show ?thesis
    using denotes_bool [of im field src] denotes_integer [of im field src] denotes_fixed [of im field src]
      denotes_bytes [of im field src] denotes_c_string [of im field src] denotes_fixed_length [of im field src] submessage
    unfolding value_bytes_def PB_ENCODERS_def Let_def insert_iff empty_iff
    by (split if_split, simp)+
qed

section \<open>Tags\<close>

definition wire_type_of :: "u8 \<Rightarrow> pb_wire_type option" where
  "wire_type_of lt =
    (if lt \<in> {PB_LTYPE_BOOL, PB_LTYPE_VARINT, PB_LTYPE_UVARINT, PB_LTYPE_SVARINT} then Some PB_WT_VARINT
     else if lt = PB_LTYPE_FIXED32 then Some PB_WT_32BIT
     else if lt = PB_LTYPE_FIXED64 then Some PB_WT_64BIT
     else if lt \<in> {PB_LTYPE_BYTES, PB_LTYPE_STRING, PB_LTYPE_SUBMESSAGE, PB_LTYPE_FIXED_LENGTH_BYTES} then Some PB_WT_STRING
     else None)"

definition tag_bytes :: "pb_wire_type \<Rightarrow> u32 \<Rightarrow> bytes" where
  "tag_bytes wt tag = varint_bytes (of_nat (8 * unat tag + unat wt))"

definition field_tag_bytes :: "pb_field \<Rightarrow> encoding" where
  "field_tag_bytes field =
    (case wire_type_of (PB_LTYPE (pf_type field)) of None \<Rightarrow> Some None | Some wt \<Rightarrow> Some (Some (tag_bytes wt (pf_tag field))))"

lemma tag_value_number:
  assumes "unat wt < 8"
  shows "tag_value wt tag = of_nat (8 * unat tag + unat wt)"
proof -
  have "wt = take_bit 3 wt" using assms by (simp add: word_unat_eq_iff unsigned_take_bit_eq take_bit_nat_eq_self)
  then have small: "bit wt n \<Longrightarrow> n < 3" for n by (metis bit_take_bit_iff)
  have "tag_value wt tag = push_bit 3 (ucast tag) + ucast wt"
    unfolding tag_value_def by (intro disjunctive_add_eq_or [symmetric] bit_eqI) (auto simp: bit_simps dest!: small)
  then show ?thesis by (simp add: push_bit_eq_mult)
qed

lemma denotes_tag:
  assumes "unat wt < 8"
  shows "denotes (\<lambda>s. Some (pb_encode_tag s wt tag)) (Some (Some (tag_bytes wt tag)))"
  by (rule denotes_cong [OF _ denotes_varint [of "of_nat (8 * unat tag + unat wt)", folded tag_bytes_def]])
    (simp only: pb_encode_tag_def flip: tag_value_number [OF assms] tag_value_def)

lemma denotes_field_tag: "denotes (pb_encode_tag_for_field field) (field_tag_bytes field)"
proof (cases "wire_type_of (PB_LTYPE (pf_type field))")
  case None
  have "denotes (pb_encode_tag_for_field field) (Some None)"
    by (rule denotes_cong [OF _ denotes_error]) (use None in \<open>simp add: pb_encode_tag_for_field_def wire_type_of_def Let_def split: if_splits\<close>)
  then show ?thesis by (simp add: field_tag_bytes_def None)
next
  case (Some wt)
  have "unat wt < 8" using Some by (auto simp: wire_type_of_def split: if_splits)
  then have "denotes (pb_encode_tag_for_field field) (Some (Some (tag_bytes wt (pf_tag field))))"
    by (intro denotes_cong [OF _ denotes_tag]) (use Some in \<open>auto simp: pb_encode_tag_for_field_def wire_type_of_def Let_def split: if_splits\<close>)
  then show ?thesis by (simp add: field_tag_bytes_def Some)
qed

end
