(* ===== verification/Nanopb_Message.thy ===== *)
theory Nanopb_Message
  imports Nanopb_Values
begin

text \<open>
  What the message encoder of nanopb writes for arrays, fields, extensions and whole messages: \<open>message_bytes\<close>, and the proof that
  \<open>pb_encode\<close> denotes it (\<open>denotes_message\<close>) for clients whose callbacks write the same bytes each time.
\<close>

section \<open>Arrays\<close>

definition join :: "encoding list \<Rightarrow> encoding" where
  "join rs = foldr then_bytes rs (Some (Some []))"

lemma join_simps [simp]: "join [] = Some (Some [])" "join (r # rs) = then_bytes r (join rs)"
  by (simp_all add: join_def)

definition elements :: "addr \<Rightarrow> addr \<Rightarrow> nat \<Rightarrow> addr list" where
  "elements p step count = map (\<lambda>i. p + of_nat i * step) [0..<count]"

lemma elements_simps [simp]: "elements p step 0 = []" "elements p step (Suc n) = p # elements (p + step) step n"
proof -
  have "[0..<Suc n] = 0 # map Suc [0..<n]" using upt_conv_Cons [of 0 "Suc n"] map_Suc_upt [of 0 n] by (simp del: upt_Suc)
  then show "elements p step (Suc n) = p # elements (p + step) step n"
    by (simp add: elements_def algebra_simps del: upt_Suc)
qed (simp add: elements_def)

lemma elements_length [simp]: "length (elements p step n) = n"
  by (simp add: elements_def)

definition array_bytes :: "'s image \<Rightarrow> pb_field \<Rightarrow> addr \<Rightarrow> nat \<Rightarrow> (addr \<Rightarrow> encoding) \<Rightarrow> encoding" where
  "array_bytes im field pData count val =
    (let lt = PB_LTYPE (pf_type field); ps = elements pData (ucast (pf_data_size field)) count;
         pointer = PB_ATYPE (pf_type field) = PB_ATYPE_POINTER
     in if count = 0 then Some (Some [])
     else if \<not> pointer \<and> count > unat (pf_array_size field) then Some None
     else if lt \<le> PB_LTYPE_LAST_PACKABLE
     then then_bytes (Some (Some (tag_bytes PB_WT_STRING (pf_tag field)))) (as_string (join (map val ps)))
     else join (map (\<lambda>p. then_bytes (field_tag_bytes field)
       (val (if pointer \<and> lt \<in> {PB_LTYPE_STRING, PB_LTYPE_BYTES} then load_u64 im p else p))) ps))"

lemma denotes_array_loop:
  assumes "\<And>p. denotes (f p) (r p)"
  shows "denotes (array_loop f step n p) (join (map r (elements p step n)))"
proof (induction n arbitrary: p)
  case (Suc n)
  show ?case using denotes_then [OF assms Suc] by simp
qed (simp add: denotes_skip)

text \<open>The end of a packed array: \<open>counted\<close> is the outcome of the sizing pass.\<close>

definition packed_end :: "(nat \<times> bool) option \<Rightarrow> 's encoder \<Rightarrow> 's encoder" where
  "packed_end counted f s =
    (case counted of None \<Rightarrow> None | Some (_, False) \<Rightarrow> Some (s, False) | Some (k, True) \<Rightarrow> sized_string k f s)"

lemma denotes_packed_end:
  assumes f: "denotes f r"
    and counted: "case r of None \<Rightarrow> counted = None | Some None \<Rightarrow> (\<exists>k. counted = Some (k, False))
      | Some (Some bs) \<Rightarrow> (\<exists>k\<le>SIZE_MAX. counted = Some (k, True) \<and> (length bs \<le> SIZE_MAX \<longrightarrow> k = length bs))"
  shows "denotes (packed_end counted f) (as_string r)"
proof (cases "\<exists>bs. r = Some (Some bs)")
  case False
  then show ?thesis using counted by (auto simp: denotes_def as_string_def packed_end_def split: option.splits)
next
  case True
  then obtain bs k where r: "r = Some (Some bs)" and k: "counted = Some (k, True)" "k \<le> SIZE_MAX"
      "length bs \<le> SIZE_MAX \<longrightarrow> k = length bs" using counted by auto
  have "packed_end counted f = sized_string k f" by (rule ext) (simp add: packed_end_def k(1))
  moreover have "stores (sized_string k f) (string_bytes bs)" if "length (string_bytes bs) \<le> 2 ^ 62"
  proof -
    have l: "length bs \<le> 2 ^ 62" using that by (simp add: string_bytes_def)
    then have "stores f bs" using f by (simp add: r denotes_def)
    then show ?thesis using stores_sized_string [of f bs] k(3) l by simp
  qed
  ultimately show ?thesis using counts_sized_string [OF k(2,3), of f]
    by (simp add: r denotes_def as_string_def string_bytes_def)
qed

lemma counted_loop:
  assumes "denotes f r"
  shows "case r of None \<Rightarrow> (case f PB_OSTREAM_SIZING of None \<Rightarrow> None | Some (z, ok) \<Rightarrow> Some (os_bytes_written z, ok)) = None
      | Some None \<Rightarrow> (\<exists>k. (case f PB_OSTREAM_SIZING of None \<Rightarrow> None | Some (z, ok) \<Rightarrow> Some (os_bytes_written z, ok)) = Some (k, False))
      | Some (Some bs) \<Rightarrow> (\<exists>k\<le>SIZE_MAX. (case f PB_OSTREAM_SIZING of None \<Rightarrow> None | Some (z, ok) \<Rightarrow> Some (os_bytes_written z, ok))
          = Some (k, True) \<and> (length bs \<le> SIZE_MAX \<longrightarrow> k = length bs))"
proof (cases "\<exists>bs. r = Some (Some bs)")
  case False
  then show ?thesis using assms wf_ostream_sizing by (fastforce simp: denotes_def split: option.splits)
next
  case True
  then obtain bs where r: "r = Some (Some bs)" by blast
  then have "counts f (length bs)" using assms by (simp add: denotes_def)
  then obtain k where "f PB_OSTREAM_SIZING = Some (PB_OSTREAM_SIZING\<lparr>os_bytes_written := k\<rparr>, True)"
    "k \<le> SIZE_MAX" "length bs \<le> SIZE_MAX \<longrightarrow> k = length bs" by (rule counts_first)
  then show ?thesis by (simp add: r)
qed

lemma join_fixed:
  assumes "\<And>p. p \<in> set ps \<Longrightarrow> \<exists>bs. val p = Some (Some bs) \<and> length bs = n"
  shows "\<exists>bs. join (map val ps) = Some (Some bs) \<and> length bs = n * length ps"
  using assms by (induction ps) fastforce+

lemma denotes_array:
  assumes val: "\<And>p. denotes (func field p) (val p)"
    and fixed: "\<And>p. PB_LTYPE (pf_type field) = PB_LTYPE_FIXED32 \<Longrightarrow> \<exists>bs. val p = Some (Some bs) \<and> length bs = 4"
      "\<And>p. PB_LTYPE (pf_type field) = PB_LTYPE_FIXED64 \<Longrightarrow> \<exists>bs. val p = Some (Some bs) \<and> length bs = 8"
    and n: "n \<le> 2 ^ 32"
  shows "denotes (encode_array im field pData n func) (array_bytes im field pData n val)"
proof -
  let ?lt = "PB_LTYPE (pf_type field)" and ?step = "ucast (pf_data_size field) :: u64"
  let ?loop = "array_loop (func field) ?step n pData" and ?ps = "elements pData (ucast (pf_data_size field)) n"
  let ?counted = "if ?lt = PB_LTYPE_FIXED32 then Some (size_mul 4 n, True)
      else if ?lt = PB_LTYPE_FIXED64 then Some (size_mul 8 n, True)
      else (case ?loop PB_OSTREAM_SIZING of None \<Rightarrow> None | Some (z, ok) \<Rightarrow> Some (os_bytes_written z, ok))"
  have loop: "denotes ?loop (join (map val ?ps))" by (rule denotes_array_loop [OF val])
  have "denotes (packed_end ?counted ?loop) (as_string (join (map val ?ps)))"
  proof (rule denotes_packed_end [OF loop])
    consider "?lt = PB_LTYPE_FIXED32" | "?lt = PB_LTYPE_FIXED64" | "?lt \<noteq> PB_LTYPE_FIXED32" "?lt \<noteq> PB_LTYPE_FIXED64" by blast
    then show "case join (map val ?ps) of None \<Rightarrow> ?counted = None | Some None \<Rightarrow> (\<exists>k. ?counted = Some (k, False))
      | Some (Some bs) \<Rightarrow> (\<exists>k\<le>SIZE_MAX. ?counted = Some (k, True) \<and> (length bs \<le> SIZE_MAX \<longrightarrow> k = length bs))"
    proof cases
      case 1
      then obtain bs where "join (map val ?ps) = Some (Some bs)" "length bs = 4 * n"
        using join_fixed [of ?ps val 4] fixed(1) by auto
      then show ?thesis using 1 n by (simp add: size_mul_small)
    next
      case 2
      then obtain bs where "join (map val ?ps) = Some (Some bs)" "length bs = 8 * n"
        using join_fixed [of ?ps val 8] fixed(2) by auto
      then show ?thesis using 2 n by (simp add: size_mul_small)
    next
      case 3
      then show ?thesis using counted_loop [OF loop] by simp
    qed
  qed
  note packed = denotes_then [OF denotes_tag [of PB_WT_STRING "pf_tag field"] this]
  let ?src = "\<lambda>p. if PB_ATYPE (pf_type field) = PB_ATYPE_POINTER \<and> (?lt = PB_LTYPE_STRING \<or> ?lt = PB_LTYPE_BYTES)
      then load_u64 im p else p"
  have plain: "denotes (array_loop (\<lambda>p. and_then_enc (pb_encode_tag_for_field field) (func field (?src p))) ?step n pData)
      (join (map (\<lambda>p. then_bytes (field_tag_bytes field) (val (?src p))) ?ps))"
    by (rule denotes_array_loop) (rule denotes_then [OF denotes_field_tag val])
  show ?thesis
  proof (cases "n = 0 \<or> PB_ATYPE (pf_type field) \<noteq> PB_ATYPE_POINTER \<and> n > unat (pf_array_size field)")
    case True
    have "denotes (encode_array im field pData n func) (if n = 0 then Some (Some []) else Some None)"
      by (rule denotes_cong [of _ "if n = 0 then \<lambda>s. Some (s, True) else return_error ''array max size exceeded''"])
        (use True in \<open>auto simp: encode_array_def denotes_skip denotes_error\<close>)
    then show ?thesis using True by (auto simp: array_bytes_def)
  next
    case False
    show ?thesis
    proof (cases "?lt \<le> PB_LTYPE_LAST_PACKABLE")
      case True
      have "denotes (encode_array im field pData n func)
          (then_bytes (Some (Some (tag_bytes PB_WT_STRING (pf_tag field)))) (as_string (join (map val ?ps))))"
      proof (rule denotes_cong [OF _ packed])
        fix s
        show "encode_array im field pData n func s = and_then_enc (\<lambda>s. Some (pb_encode_tag s PB_WT_STRING (pf_tag field)))
            (packed_end ?counted ?loop) s"
          using False True unfolding encode_array_def Let_def packed_end_def sized_string_def by (auto split: if_split)
      qed simp
      then show ?thesis using False True by (auto simp: array_bytes_def Let_def)
    next
      case unpacked: False
      have "denotes (encode_array im field pData n func)
          (join (map (\<lambda>p. then_bytes (field_tag_bytes field) (val (?src p))) ?ps))"
        by (rule denotes_cong [OF _ plain]) (use False unpacked in \<open>auto simp: encode_array_def Let_def\<close>)
      then show ?thesis using False unpacked by (auto simp: array_bytes_def Let_def)
    qed
  qed
qed

section \<open>Fields\<close>

definition optional_present :: "nat \<Rightarrow> 's image \<Rightarrow> pb_field \<Rightarrow> addr \<Rightarrow> bool option" where
  "optional_present n im field pData =
    (if pf_size_offset field \<noteq> 0 then Some (im_mem im (pData + scast (pf_size_offset field)) \<noteq> 0)
     else map_option (\<lambda>default. if PB_ATYPE (pf_type field) = PB_ATYPE_POINTER then load_u64 im pData \<noteq> 0 else \<not> default)
       (pb_check_proto3_default_value n im field pData))"

definition basic_field_bytes ::
    "nat \<Rightarrow> 's image \<Rightarrow> (pb_field list \<Rightarrow> addr \<Rightarrow> encoding) \<Rightarrow> pb_field \<Rightarrow> addr \<Rightarrow> encoding" where
  "basic_field_bytes n im sub field pData =
    (let ht = PB_HTYPE (pf_type field);
         src = (if PB_ATYPE (pf_type field) = PB_ATYPE_POINTER then load_u64 im pData else pData);
         stored = load_u32 im (pData + scast (pf_size_offset field));
         once = then_bytes (field_tag_bytes field) (value_bytes im sub field src)
     in if ht = PB_HTYPE_REQUIRED then (if src = 0 then Some None else once)
     else if ht = PB_HTYPE_OPTIONAL then
       (case optional_present n im field pData of None \<Rightarrow> None | Some p \<Rightarrow> if p then once else Some (Some []))
     else if ht = PB_HTYPE_REPEATED then
       array_bytes im field src (unat (if pf_size_offset field \<noteq> 0 then stored else pf_array_size field)) (value_bytes im sub field)
     else if pf_size_offset field = 0 then None
     else if stored = pf_tag field then once else Some (Some []))"

definition callback_field_bytes :: "'s image \<Rightarrow> (addr \<Rightarrow> pb_field \<Rightarrow> addr \<Rightarrow> bytes option) \<Rightarrow> pb_field \<Rightarrow> addr \<Rightarrow> encoding" where
  "callback_field_bytes im fb field pData =
    (if load_u64 im pData = 0 then Some (Some []) else Some (fb (load_u64 im pData) field (pData + 8)))"

definition field_bytes ::
    "nat \<Rightarrow> 's image \<Rightarrow> (addr \<Rightarrow> pb_field \<Rightarrow> addr \<Rightarrow> bytes option) \<Rightarrow> (pb_field list \<Rightarrow> addr \<Rightarrow> encoding) \<Rightarrow>
      pb_field \<Rightarrow> addr \<Rightarrow> encoding" where
  "field_bytes n im fb sub field pData =
    (if PB_ATYPE (pf_type field) \<in> {PB_ATYPE_STATIC, PB_ATYPE_POINTER} then basic_field_bytes n im sub field pData
     else if PB_ATYPE (pf_type field) = PB_ATYPE_CALLBACK then callback_field_bytes im fb field pData
     else Some None)"

lemma denotes_once:
  assumes "\<And>p src. denotes (sub (im_descs im p) src) (subb (im_descs im p) src)"
  shows "denotes (and_then_enc (pb_encode_tag_for_field field) (PB_ENCODERS im sub (PB_LTYPE (pf_type field)) field src))
    (then_bytes (field_tag_bytes field) (value_bytes im subb field src))"
  by (intro denotes_then denotes_field_tag denotes_value assms)

lemma value_bytes_fixed:
  "PB_LTYPE (pf_type field) = PB_LTYPE_FIXED32 \<Longrightarrow> \<exists>bs. value_bytes im sub field p = Some (Some bs) \<and> length bs = 4"
  "PB_LTYPE (pf_type field) = PB_LTYPE_FIXED64 \<Longrightarrow> \<exists>bs. value_bytes im sub field p = Some (Some bs) \<and> length bs = 8"
  by (simp_all add: value_bytes_def)

lemma denotes_basic:
  assumes sub: "\<And>p src. denotes (sub (im_descs im p) src) (subb (im_descs im p) src)"
  shows "denotes (encode_basic_field n im sub field pData) (basic_field_bytes n im subb field pData)"
proof -
  have val: "denotes (PB_ENCODERS im sub (PB_LTYPE (pf_type field)) field p) (value_bytes im subb field p)" for p
    by (intro denotes_value sub)
  let ?ht = "PB_HTYPE (pf_type field)" and ?pS = "pData + scast (pf_size_offset field)"
  let ?src = "if PB_ATYPE (pf_type field) = PB_ATYPE_POINTER then load_u64 im pData else pData"
  let ?enc = "and_then_enc (pb_encode_tag_for_field field) (PB_ENCODERS im sub (PB_LTYPE (pf_type field)) field ?src)"
  let ?once = "then_bytes (field_tag_bytes field) (value_bytes im subb field ?src)"
  have once: "denotes ?enc ?once" by (intro denotes_once sub)
  consider "?ht = PB_HTYPE_REQUIRED" | "?ht = PB_HTYPE_OPTIONAL" | "?ht = PB_HTYPE_REPEATED"
    | "?ht \<notin> {PB_HTYPE_REQUIRED, PB_HTYPE_OPTIONAL, PB_HTYPE_REPEATED}" by blast
  then show ?thesis
  proof cases
    case 1
    have "denotes (encode_basic_field n im sub field pData) (if ?src = 0 then Some None else ?once)"
      by (rule denotes_cong [of _ "if ?src = 0 then return_error ''missing required field'' else ?enc"])
        (use 1 once denotes_error in \<open>auto simp: encode_basic_field_def Let_def\<close>)
    then show ?thesis using 1 by (simp add: basic_field_bytes_def Let_def)
  next
    case 2
    have "denotes (encode_basic_field n im sub field pData)
        (case optional_present n im field pData of None \<Rightarrow> None | Some p \<Rightarrow> if p then ?once else Some (Some []))"
      by (rule denotes_cong [of _ "case optional_present n im field pData of None \<Rightarrow> (\<lambda>s. None)
            | Some p \<Rightarrow> if p then ?enc else (\<lambda>s. Some (s, True))"])
        (use 2 once denotes_skip in \<open>auto simp: encode_basic_field_def optional_present_def safe_read_bool_def load_u8_def
          Let_def split: option.splits\<close>)
    then show ?thesis using 2 by (simp add: basic_field_bytes_def Let_def)
  next
    case 3
    let ?n = "unat (if pf_size_offset field \<noteq> 0 then load_u32 im ?pS else pf_array_size field)"
    have n: "?n \<le> 2 ^ 32" using unat_u32_less [of "if pf_size_offset field \<noteq> 0 then load_u32 im ?pS else pf_array_size field"] by simp
    have "denotes (encode_basic_field n im sub field pData) (array_bytes im field ?src ?n (value_bytes im subb field))"
      by (rule denotes_cong [OF _ denotes_array [of "PB_ENCODERS im sub (PB_LTYPE (pf_type field))", OF val value_bytes_fixed n]])
        (use 3 in \<open>auto simp: encode_basic_field_def Let_def\<close>)
    then show ?thesis using 3 by (simp add: basic_field_bytes_def Let_def)
  next
    case 4
    have "denotes (encode_basic_field n im sub field pData)
        (if pf_size_offset field = 0 then None else if load_u32 im ?pS = pf_tag field then ?once else Some (Some []))"
      by (rule denotes_cong [of _ "if pf_size_offset field = 0 then (\<lambda>s. None)
            else if load_u32 im ?pS = pf_tag field then ?enc else (\<lambda>s. Some (s, True))"])
        (use 4 once denotes_skip in \<open>auto simp: encode_basic_field_def Let_def\<close>)
    then show ?thesis using 4 by (simp add: basic_field_bytes_def Let_def)
  qed
qed

section \<open>Client functions\<close>

text \<open>A client's encoder is called twice for a field of a submessage, and the documentation asks it for the same
  data each time (\<open>pb_encode_submessage\<close> checks the length). \<open>clients\<close> says so: the functions at the addresses of the image write
  the bytes \<open>fb\<close> and \<open>eb\<close>, or fail.\<close>

definition clients ::
    "'s image \<Rightarrow> (addr \<Rightarrow> pb_field \<Rightarrow> addr \<Rightarrow> bytes option) \<Rightarrow> (addr \<Rightarrow> addr \<Rightarrow> bytes option) \<Rightarrow> bool" where
  "clients im fb eb \<longleftrightarrow>
    (\<forall>p field arg. p \<noteq> 0 \<longrightarrow> denotes (\<lambda>s. Some (im_field_encoder im p s field arg)) (Some (fb p field arg))) \<and>
    (\<forall>p extension. p \<noteq> 0 \<longrightarrow> denotes (\<lambda>s. Some (im_extension_encoder im p s extension)) (Some (eb p extension)))"

lemma denotes_failure:
  assumes "denotes (\<lambda>s. Some (g s)) (Some r)"
  shows "denotes (\<lambda>s. case g s of (s, False) \<Rightarrow> return_error m s | (s, True) \<Rightarrow> Some (s, True)) (Some r)"
proof (cases r)
  case None
  then show ?thesis using assms
    by (auto simp: denotes_def return_error_def split: prod.splits bool.splits)
next
  case (Some bs)
  have "counts (\<lambda>s. Some (g s)) (length bs)" "length bs \<le> 2 ^ 62 \<longrightarrow> stores (\<lambda>s. Some (g s)) bs"
    using assms by (simp_all add: denotes_def Some)
  moreover from this(1) have "counts (\<lambda>s. case g s of (s, False) \<Rightarrow> return_error m s | (s, True) \<Rightarrow> Some (s, True)) (length bs)"
    unfolding counts_def by fastforce
  moreover have "stores (\<lambda>s. case g s of (s, False) \<Rightarrow> return_error m s | (s, True) \<Rightarrow> Some (s, True)) bs"
    if "stores (\<lambda>s. Some (g s)) bs"
    using that unfolding stores_def by (fastforce simp: return_error_def split: if_splits prod.splits bool.splits)
  ultimately show ?thesis by (simp add: denotes_def Some)
qed

lemma denotes_callback:
  assumes "clients im fb eb"
  shows "denotes (encode_callback_field im field pData) (callback_field_bytes im fb field pData)"
proof (cases "load_u64 im pData = 0")
  case True
  have "denotes (encode_callback_field im field pData) (Some (Some []))"
    by (rule denotes_cong [OF _ denotes_skip]) (simp add: encode_callback_field_def True)
  then show ?thesis by (simp add: callback_field_bytes_def True)
next
  case False
  then have c: "denotes (\<lambda>s. Some (im_field_encoder im (load_u64 im pData) s field (pData + 8)))
      (Some (fb (load_u64 im pData) field (pData + 8)))" using assms by (simp add: clients_def)
  have "denotes (encode_callback_field im field pData) (Some (fb (load_u64 im pData) field (pData + 8)))"
    by (rule denotes_cong [OF _ denotes_failure [OF c, of "''callback error''"]]) (simp add: encode_callback_field_def False Let_def)
  then show ?thesis by (simp add: callback_field_bytes_def False)
qed

lemma denotes_field:
  assumes "clients im fb eb" and sub: "\<And>p src. denotes (sub (im_descs im p) src) (subb (im_descs im p) src)"
  shows "denotes (encode_field n im sub field pData) (field_bytes n im fb subb field pData)"
proof -
  have "encode_field n im sub field pData =
      (if PB_ATYPE (pf_type field) \<in> {PB_ATYPE_STATIC, PB_ATYPE_POINTER} then encode_basic_field n im sub field pData
       else if PB_ATYPE (pf_type field) = PB_ATYPE_CALLBACK then encode_callback_field im field pData
       else return_error ''invalid field type'')"
    by (rule ext) (simp add: encode_field_def)
  moreover have "denotes (encode_basic_field n im sub field pData) (basic_field_bytes n im subb field pData)"
    by (intro denotes_basic sub)
  ultimately show ?thesis
    using denotes_callback [OF assms(1), of field pData] denotes_error by (auto simp: field_bytes_def)
qed

section \<open>Extensions\<close>

primrec extension_bytes ::
    "nat \<Rightarrow> nat \<Rightarrow> 's image \<Rightarrow> (addr \<Rightarrow> pb_field \<Rightarrow> addr \<Rightarrow> bytes option) \<Rightarrow> (addr \<Rightarrow> addr \<Rightarrow> bytes option) \<Rightarrow>
      (pb_field list \<Rightarrow> addr \<Rightarrow> encoding) \<Rightarrow> addr \<Rightarrow> encoding" where
  "extension_bytes 0 n im fb eb sub p = (if p = 0 then Some (Some []) else None)"
| "extension_bytes (Suc k) n im fb eb sub p =
    (if p = 0 then Some (Some [])
     else let encode = load_u64 im (load_u64 im p + 8);
         field = field_at (im_descs im (load_u64 im (load_u64 im p + 16))) 0;
         dest = (if PB_ATYPE (pf_type field) = PB_ATYPE_POINTER then p + 8 else load_u64 im (p + 8))
       in then_bytes (if encode \<noteq> 0 then Some (eb encode p) else field_bytes n im fb sub field dest)
            (extension_bytes k n im fb eb sub (load_u64 im (p + 16))))"

lemma denotes_extension:
  assumes c: "clients im fb eb" and sub: "\<And>p src. denotes (sub (im_descs im p) src) (subb (im_descs im p) src)"
  shows "denotes (extension_loop k n im sub p) (extension_bytes k n im fb eb subb p)"
proof (induction k arbitrary: p)
  case 0
  have "extension_loop 0 n im sub p = (if p = 0 then (\<lambda>s. Some (s, True)) else (\<lambda>s. None))" by (rule ext) simp
  then show ?case by (simp add: denotes_skip)
next
  case (Suc k)
  show ?case
  proof (cases "p = 0")
    case True
    have "extension_loop (Suc k) n im sub p = (\<lambda>s. Some (s, True))" by (rule ext) (simp add: True)
    then show ?thesis by (simp add: True denotes_skip)
  next
    case False
    let ?encode = "load_u64 im (load_u64 im p + 8)" and ?field = "field_at (im_descs im (load_u64 im (load_u64 im p + 16))) 0"
    let ?dest = "if PB_ATYPE (pf_type ?field) = PB_ATYPE_POINTER then p + 8 else load_u64 im (p + 8)"
    have "denotes (encode_field n im sub ?field ?dest) (field_bytes n im fb subb ?field ?dest)"
      by (intro denotes_field [OF c] sub)
    then have default: "denotes (default_extension_encoder n im sub p) (field_bytes n im fb subb ?field ?dest)"
      by (rule denotes_cong [rotated]) (simp add: default_extension_encoder_def Let_def)
    have one: "denotes (if ?encode \<noteq> 0 then (\<lambda>s. Some (im_extension_encoder im ?encode s p)) else default_extension_encoder n im sub p)
        (if ?encode \<noteq> 0 then Some (eb ?encode p) else field_bytes n im fb subb ?field ?dest)"
      using c default by (simp add: clients_def)
    have "extension_loop (Suc k) n im sub p = and_then_enc
        (if ?encode \<noteq> 0 then (\<lambda>s. Some (im_extension_encoder im ?encode s p)) else default_extension_encoder n im sub p)
        (extension_loop k n im sub (load_u64 im (p + 16)))"
      by (rule ext) (simp add: False Let_def)
    moreover have "extension_bytes (Suc k) n im fb eb subb p = then_bytes
        (if ?encode \<noteq> 0 then Some (eb ?encode p) else field_bytes n im fb subb ?field ?dest)
        (extension_bytes k n im fb eb subb (load_u64 im (p + 16)))"
      by (simp add: False Let_def)
    ultimately show ?thesis using denotes_then [OF one Suc.IH] by (simp only:)
  qed
qed

section \<open>Messages\<close>

definition entry_bytes ::
    "nat \<Rightarrow> 's image \<Rightarrow> (addr \<Rightarrow> pb_field \<Rightarrow> addr \<Rightarrow> bytes option) \<Rightarrow> (addr \<Rightarrow> addr \<Rightarrow> bytes option) \<Rightarrow>
      (pb_field list \<Rightarrow> addr \<Rightarrow> encoding) \<Rightarrow> pb_field \<Rightarrow> addr \<Rightarrow> encoding" where
  "entry_bytes n im fb eb sub field pData =
    (if PB_LTYPE (pf_type field) = PB_LTYPE_EXTENSION then extension_bytes n n im fb eb sub (load_u64 im pData)
     else field_bytes n im fb sub field pData)"

primrec message_bytes ::
    "nat \<Rightarrow> 's image \<Rightarrow> (addr \<Rightarrow> pb_field \<Rightarrow> addr \<Rightarrow> bytes option) \<Rightarrow> (addr \<Rightarrow> addr \<Rightarrow> bytes option) \<Rightarrow>
      pb_field list \<Rightarrow> addr \<Rightarrow> encoding" where
  "message_bytes 0 im fb eb fs a = None"
| "message_bytes (Suc n) im fb eb fs a =
    join (map (\<lambda>i. entry_bytes n im fb eb (message_bytes n im fb eb) (fs ! i) (it_pData (iter_at fs a i))) [0..<length fs])"

lemma denotes_fields_loop:
  assumes fs: "tagged fs" and body: "\<And>field p. denotes (body field p) (r field p)"
  shows "i < length fs \<Longrightarrow> denotes (fields_loop body (iter_at fs a i))
    (join (map (\<lambda>i. r (fs ! i) (it_pData (iter_at fs a i))) [i..<length fs]))"
proof (induction "length fs - i" arbitrary: i)
  case (Suc k)
  let ?it = "iter_at fs a i"
  have f: "it_field ?it = fs ! i" using iter_at_simps [OF fs Suc.prems, of a] Suc.prems by (simp add: field_at_def)
  let ?rest = "if Suc i < length fs then fields_loop body (iter_at fs a (Suc i)) else (\<lambda>s. Some (s, True))"
  have "fields_loop body ?it = and_then_enc (body (fs ! i) (it_pData ?it)) ?rest"
    by (rule ext, subst fields_loop.simps)
      (auto simp: f next_iter_at [OF fs Suc.prems] and_then_enc_def split: option.split bool.split)
  moreover have "denotes ?rest (join (map (\<lambda>i. r (fs ! i) (it_pData (iter_at fs a i))) [Suc i..<length fs]))"
    using Suc.hyps(1) [of "Suc i"] Suc.hyps(2) by (auto simp: denotes_skip)
  ultimately show ?case using denotes_then [OF body] Suc.prems by (simp add: upt_conv_Cons)
qed simp

lemma denotes_message:
  assumes c: "clients im fb eb" and descs: "\<And>p. tagged (im_descs im p)"
  shows "tagged fs \<Longrightarrow> denotes (pb_encode n im fs a) (message_bytes n im fb eb fs a)"
proof (induction n arbitrary: fs a)
  case 0
  have "pb_encode 0 im fs a = (\<lambda>s. None)" by (rule ext) simp
  then show ?case by simp
next
  case (Suc n)
  show ?case
  proof (cases "fs = []")
    case True
    have "pb_encode (Suc n) im fs a = (\<lambda>s. Some (s, True))"
      by (rule ext) (simp add: True pb_field_iter_begin_def field_at_def PB_LAST_FIELD_def Let_def)
    then show ?thesis by (simp add: True denotes_skip)
  next
    case False
    let ?body = "\<lambda>field pData. if PB_LTYPE (pf_type field) = PB_LTYPE_EXTENSION
          then encode_extension_field n im (pb_encode n im) field pData else encode_field n im (pb_encode n im) field pData"
    have sub: "denotes (pb_encode n im (im_descs im p) src) (message_bytes n im fb eb (im_descs im p) src)" for p src
      by (rule Suc.IH [OF descs])
    have "encode_extension_field n im (pb_encode n im) field p = extension_loop n n im (pb_encode n im) (load_u64 im p)" for field p
      by (rule ext) (simp add: encode_extension_field_def)
    moreover have "denotes (extension_loop n n im (pb_encode n im) q) (extension_bytes n n im fb eb (message_bytes n im fb eb) q)" for q
      by (intro denotes_extension [OF c] sub)
    moreover have "denotes (encode_field n im (pb_encode n im) field p) (field_bytes n im fb (message_bytes n im fb eb) field p)" for field p
      by (intro denotes_field [OF c] sub)
    ultimately have "denotes (?body field p) (entry_bytes n im fb eb (message_bytes n im fb eb) field p)" for field p
      by (simp add: entry_bytes_def)
    then have "denotes (fields_loop ?body (iter_at fs a 0)) (message_bytes (Suc n) im fb eb fs a)"
      unfolding message_bytes.simps using False by (intro denotes_fields_loop [OF Suc.prems]) simp_all
    moreover have "pb_field_iter_begin fs a = (iter_at fs a 0, True)"
      using Suc.prems False field_at_tag [OF Suc.prems, of 0]
      by (simp add: iter_at_0 prod_eq_iff) (simp add: pb_field_iter_begin_def Let_def)
    then have "pb_encode (Suc n) im fs a = fields_loop ?body (iter_at fs a 0)" by (intro ext) simp
    ultimately show ?thesis by simp
  qed
qed

end
