(* ===== verification/Nanopb_Props.thy ===== *)
theory Nanopb_Props
  imports Nanopb_Message
begin

text \<open>
  How much fuel the message encoder of nanopb needs: for message types nested less than \<open>d\<close> deep the result is settled with fuel \<open>d + 1\<close>
  (\<open>message_settled\<close>). Then the property of the encoder, in terms of buffers.
\<close>

section \<open>Nesting\<close>

text \<open>The submessage types of \<open>fs\<close> are nested less than \<open>d\<close> deep, as those of a type that is not recursive are; and there
  are no extension fields, whose chains are data. A oneof field has its selector, as every descriptor macro provides.\<close>

primrec nests :: "nat \<Rightarrow> 's image \<Rightarrow> pb_field list \<Rightarrow> bool" where
  "nests 0 im fs \<longleftrightarrow> False"
| "nests (Suc d) im fs \<longleftrightarrow> list_all (\<lambda>f. PB_LTYPE (pf_type f) \<noteq> PB_LTYPE_EXTENSION \<and>
      (PB_HTYPE (pf_type f) = PB_HTYPE_ONEOF \<longrightarrow> pf_size_offset f \<noteq> 0) \<and>
      (PB_LTYPE (pf_type f) = PB_LTYPE_SUBMESSAGE \<longrightarrow> nests d im (im_descs im (pf_ptr f)))) fs"

text \<open>Two encoders, with less and with more fuel, that both have a result and agree.\<close>

definition settled :: "'s encoder \<Rightarrow> 's encoder \<Rightarrow> bool" where
  "settled f g \<longleftrightarrow> g = f \<and> (\<forall>s. f s \<noteq> None)"

lemma settled_same: "(\<And>s. f s \<noteq> None) \<Longrightarrow> settled f f"
  by (simp add: settled_def)

lemma settled_error [simp]: "settled (return_error e) (return_error e)"
  by (simp add: settled_def return_error_def)

lemma settled_skip [simp]: "settled (\<lambda>s. Some (s, True)) (\<lambda>s. Some (s, True))"
  by (simp add: settled_def)

lemma settledE:
  assumes "settled f g"
  obtains h where "\<And>s. f s = Some (h s)"
proof -
  have "f s = Some (the (f s))" for s using assms by (simp add: settled_def)
  then show ?thesis by (rule that)
qed

lemma settled_then: "settled f f' \<Longrightarrow> settled g g' \<Longrightarrow> settled (and_then_enc f g) (and_then_enc f' g')"
  by (auto simp: settled_def and_then_enc_def split: option.split bool.split)

lemma tag_for_field_settled: "settled (pb_encode_tag_for_field field) (pb_encode_tag_for_field field)"
  by (rule settled_same) (auto simp: pb_encode_tag_for_field_def return_error_def Let_def)

lemma array_loop_settled:
  "(\<And>p. settled (f p) (g p)) \<Longrightarrow> settled (array_loop f step n p) (array_loop g step n p)"
  by (induction n arbitrary: p) (auto intro: settled_then settled_same)

lemma submessage_settled:
  assumes "settled f g"
  shows "settled (pb_encode_submessage f) (pb_encode_submessage g)"
proof -
  have g: "g = f" using assms by (simp add: settled_def)
  obtain h where f: "\<And>s. f s = Some (h s)" using settledE [OF assms] by metis
  have "pb_encode_submessage f s \<noteq> None" for s
    by (auto simp: f pb_encode_submessage_def return_error_def Let_def split: option.splits prod.splits bool.splits)
  then show ?thesis by (simp add: settled_def g)
qed

lemma value_settled:
  assumes "PB_LTYPE (pf_type field) = PB_LTYPE_SUBMESSAGE \<Longrightarrow>
      settled (sub (im_descs im (pf_ptr field)) src) (sub' (im_descs im (pf_ptr field)) src)"
    and "wire_type_of (PB_LTYPE (pf_type field)) \<noteq> None"
  shows "settled (PB_ENCODERS im sub (PB_LTYPE (pf_type field)) field src) (PB_ENCODERS im sub' (PB_LTYPE (pf_type field)) field src)"
proof (cases "PB_LTYPE (pf_type field) = PB_LTYPE_SUBMESSAGE")
  case True
  have "settled (pb_enc_submessage im sub field src) (pb_enc_submessage im sub' field src)"
  proof (cases "pf_ptr field = 0")
    case False
    have "pb_enc_submessage im r field src = pb_encode_submessage (r (im_descs im (pf_ptr field)) src)" for r :: "pb_field list \<Rightarrow> addr \<Rightarrow> 'a encoder"
      by (rule ext) (simp add: pb_enc_submessage_def False)
    then show ?thesis using submessage_settled [OF assms(1) [OF True]] by simp
  next
    case True
    have "pb_enc_submessage im r field src = return_error ''invalid field descriptor''" for r :: "pb_field list \<Rightarrow> addr \<Rightarrow> 'a encoder"
      by (rule ext) (simp add: pb_enc_submessage_def True)
    then show ?thesis by (simp add: settled_def return_error_def)
  qed
  then show ?thesis by (simp add: PB_ENCODERS_def True)
next
  case False
  have "PB_ENCODERS im sub' (PB_LTYPE (pf_type field)) field src = PB_ENCODERS im sub (PB_LTYPE (pf_type field)) field src"
    using False by (simp add: PB_ENCODERS_def)
  moreover have "PB_ENCODERS im sub (PB_LTYPE (pf_type field)) field src s \<noteq> None" for s
    using False assms(2)
    by (auto simp: PB_ENCODERS_def wire_type_of_def pb_enc_bool_def pb_enc_varint_def pb_enc_uvarint_def pb_enc_svarint_def
        pb_enc_fixed32_def pb_enc_fixed64_def pb_enc_bytes_def pb_enc_string_def pb_enc_fixed_length_bytes_def
        return_error_def Let_def split: if_splits)
  ultimately show ?thesis by (simp add: settled_def)
qed

text \<open>A type that is none fails when its tag is written, before the missing encoder is called.\<close>

lemma tagged_settled:
  assumes "wire_type_of (PB_LTYPE (pf_type field)) \<noteq> None \<Longrightarrow> settled f g"
  shows "settled (and_then_enc (pb_encode_tag_for_field field) f) (and_then_enc (pb_encode_tag_for_field field) g)"
proof (cases "wire_type_of (PB_LTYPE (pf_type field))")
  case None
  then have "pb_encode_tag_for_field field s = return_error ''invalid field type'' s" for s :: "'a pb_ostream"
    by (simp add: pb_encode_tag_for_field_def wire_type_of_def Let_def split: if_splits)
  then show ?thesis by (simp add: settled_def fun_eq_iff and_then_enc_def return_error_def)
next
  case (Some wt)
  then show ?thesis using assms by (intro settled_then tag_for_field_settled) simp
qed

lemma packable: "lt \<le> PB_LTYPE_LAST_PACKABLE \<Longrightarrow> wire_type_of lt \<noteq> None"
proof -
  assume "lt \<le> PB_LTYPE_LAST_PACKABLE"
  then have "unat lt \<le> 5" by (simp add: word_le_nat_alt)
  then have "unat lt \<in> {0, 1, 2, 3, 4, 5}" by auto
  then have "lt \<in> {0, 1, 2, 3, 4, 5}" by (auto simp: word_unat_eq_iff)
  then show ?thesis by (auto simp: wire_type_of_def)
qed

lemma array_settled:
  assumes v: "wire_type_of (PB_LTYPE (pf_type field)) \<noteq> None \<Longrightarrow> (\<And>p. settled (func field p) (func' field p))"
  shows "settled (encode_array im field pData n func) (encode_array im field pData n func')"
proof -
  let ?lt = "PB_LTYPE (pf_type field)" and ?step = "ucast (pf_data_size field) :: u64"
  let ?src = "\<lambda>p. if PB_ATYPE (pf_type field) = PB_ATYPE_POINTER \<and> (?lt = PB_LTYPE_STRING \<or> ?lt = PB_LTYPE_BYTES)
      then load_u64 im p else p"
  have plain: "settled (array_loop (\<lambda>p. and_then_enc (pb_encode_tag_for_field field) (func field (?src p))) ?step n pData)
      (array_loop (\<lambda>p. and_then_enc (pb_encode_tag_for_field field) (func' field (?src p))) ?step n pData)"
    by (intro array_loop_settled tagged_settled v)
  show ?thesis
  proof (cases "?lt \<le> PB_LTYPE_LAST_PACKABLE")
    case True
    have loop: "settled (array_loop (func field) ?step n pData) (array_loop (func' field) ?step n pData)"
      by (intro array_loop_settled v packable True)
    then have eq: "array_loop (func' field) ?step n pData = array_loop (func field) ?step n pData" by (simp add: settled_def)
    obtain h where h: "\<And>s. array_loop (func field) ?step n pData s = Some (h s)" using settledE [OF loop] by metis
    have "encode_array im field pData n func s \<noteq> None" for s
      using True
      by (auto simp: h encode_array_def Let_def and_then_enc_def return_error_def split: option.splits bool.splits prod.splits)
    moreover have "encode_array im field pData n func' = encode_array im field pData n func"
      using True by (intro ext) (simp only: encode_array_def Let_def eq if_True)
    ultimately show ?thesis by (simp add: settled_def)
  next
    case False
    then have "encode_array im field pData n f = (if n = 0 then \<lambda>s. Some (s, True)
        else if PB_ATYPE (pf_type field) \<noteq> PB_ATYPE_POINTER \<and> n > unat (pf_array_size field) then return_error ''array max size exceeded''
        else array_loop (\<lambda>p. and_then_enc (pb_encode_tag_for_field field) (f field (?src p))) ?step n pData)" for f :: "pb_field \<Rightarrow> addr \<Rightarrow> 'a encoder"
      by (intro ext) (simp add: encode_array_def Let_def)
    then show ?thesis using plain by (auto simp: return_error_def settled_def)
  qed
qed

text \<open>The default check.\<close>

lemma Ex_Not [simp]: "Ex Not"
  by (rule exI [of _ False]) simp

lemma default_loop_settled:
  assumes "tagged fs" "\<And>i p. i < length fs \<Longrightarrow> check' (fs ! i) p = check (fs ! i) p \<and> check (fs ! i) p \<noteq> None"
  shows "i < length fs \<Longrightarrow> default_loop check' (iter_at fs a i) = default_loop check (iter_at fs a i) \<and>
    default_loop check (iter_at fs a i) \<noteq> None"
proof (induction "length fs - i" arbitrary: i)
  case (Suc k)
  let ?it = "iter_at fs a i"
  have f: "it_field ?it = fs ! i" using iter_at_simps [OF assms(1) Suc.prems, of a] Suc.prems by (simp add: field_at_def)
  have c: "check' (fs ! i) p = check (fs ! i) p" "check (fs ! i) p \<noteq> None" for p using assms(2) [OF Suc.prems] by auto
  have ih: "Suc i < length fs \<Longrightarrow> default_loop check' (iter_at fs a (Suc i)) = default_loop check (iter_at fs a (Suc i)) \<and>
      default_loop check (iter_at fs a (Suc i)) \<noteq> None"
    using Suc.hyps(2) by (intro Suc.hyps(1)) simp_all
  have l: "default_loop ck ?it = (case ck (fs ! i) (it_pData ?it) of None \<Rightarrow> None | Some False \<Rightarrow> Some False
      | Some True \<Rightarrow> if Suc i < length fs then default_loop ck (iter_at fs a (Suc i)) else Some True)" for ck
    by (subst default_loop.simps) (simp add: f next_iter_at [OF assms(1) Suc.prems] split: option.split bool.split)
  show ?case using ih c by (auto simp: l split: option.split bool.split)
qed simp

lemma default_check_settled:
  assumes descs: "\<And>p. tagged (im_descs im p)"
  shows "(PB_LTYPE (pf_type field) = PB_LTYPE_SUBMESSAGE \<longrightarrow> nests d im (im_descs im (pf_ptr field))) \<Longrightarrow> d < n \<Longrightarrow>
    pb_check_proto3_default_value n im field p = pb_check_proto3_default_value (Suc d) im field p \<and>
    pb_check_proto3_default_value (Suc d) im field p \<noteq> None"
proof (induction d arbitrary: n field p)
  case 0
  then obtain m where n: "n = Suc m" by (cases n) auto
  show ?case using 0 by (auto simp: n Let_def split: if_split)
next
  case (Suc d)
  then obtain m where n: "n = Suc m" "d < m" by (cases n) auto
  let ?fs = "im_descs im (pf_ptr field)"
  have loop: "default_loop (pb_check_proto3_default_value m im) (fst (pb_field_iter_begin ?fs p)) =
        default_loop (pb_check_proto3_default_value (Suc d) im) (fst (pb_field_iter_begin ?fs p)) \<and>
      default_loop (pb_check_proto3_default_value (Suc d) im) (fst (pb_field_iter_begin ?fs p)) \<noteq> None"
    if "PB_LTYPE (pf_type field) = PB_LTYPE_SUBMESSAGE" "?fs \<noteq> []"
    unfolding iter_at_0 [symmetric]
  proof (rule default_loop_settled [OF descs])
    fix i q assume i: "i < length ?fs"
    have "nests (Suc d) im ?fs" using Suc.prems(1) that(1) by simp
    then have "PB_LTYPE (pf_type (?fs ! i)) = PB_LTYPE_SUBMESSAGE \<longrightarrow> nests d im (im_descs im (pf_ptr (?fs ! i)))"
      using i by (simp add: list_all_length)
    then show "pb_check_proto3_default_value m im (?fs ! i) q = pb_check_proto3_default_value (Suc d) im (?fs ! i) q \<and>
        pb_check_proto3_default_value (Suc d) im (?fs ! i) q \<noteq> None" using n(2) by (rule Suc.IH)
  qed (use that in simp)
  have none: "\<not> snd (pb_field_iter_begin [] p)" by (simp add: pb_field_iter_begin_def Let_def field_at_def PB_LAST_FIELD_def)
  let ?sub = "\<lambda>m. case pb_field_iter_begin ?fs p of (iter, False) \<Rightarrow> Some True
       | (iter, True) \<Rightarrow> default_loop (pb_check_proto3_default_value m im) iter"
  have sub: "?sub m = ?sub (Suc d) \<and> ?sub (Suc d) \<noteq> None" if "PB_LTYPE (pf_type field) = PB_LTYPE_SUBMESSAGE"
    using loop [OF that] none by (cases "?fs = []") (auto split: prod.splits bool.splits)
  show ?case
  proof (cases "PB_LTYPE (pf_type field) = PB_LTYPE_SUBMESSAGE")
    case True
    have e: "?sub m = ?sub (Suc d)" and "?sub (Suc d) \<noteq> None" using sub [OF True] by (rule conjunct1, rule conjunct2)
    then obtain b where b: "?sub (Suc d) = Some b" unfolding not_None_eq by (elim exE)
    show ?thesis
      unfolding n(1) pb_check_proto3_default_value.simps(2) [of m] pb_check_proto3_default_value.simps(2) [of "Suc d"] Let_def e b
      by (simp split: if_split)
  next
    case False
    then show ?thesis by (simp add: n(1) Let_def)
  qed
qed

text \<open>Fields.\<close>

lemma once_settled:
  assumes "PB_LTYPE (pf_type field) = PB_LTYPE_SUBMESSAGE \<Longrightarrow>
      settled (sub (im_descs im (pf_ptr field)) src) (sub' (im_descs im (pf_ptr field)) src)"
  shows "settled (and_then_enc (pb_encode_tag_for_field field) (PB_ENCODERS im sub (PB_LTYPE (pf_type field)) field src))
    (and_then_enc (pb_encode_tag_for_field field) (PB_ENCODERS im sub' (PB_LTYPE (pf_type field)) field src))"
  by (intro tagged_settled value_settled assms)

lemma mask_0x30: "(x :: u8) AND 0x30 = (if bit x 4 then 0x10 else 0) OR (if bit x 5 then 0x20 else 0)"
proof (rule bit_word_eqI)
  fix n assume "n < LENGTH(8)"
  then have "n \<in> {0, 1, 2, 3, 4, 5, 6, 7}" by auto
  then show "bit (x AND 0x30) n = bit ((if bit x 4 then 0x10 else 0) OR (if bit x 5 then 0x20 else 0) :: u8) n"
    by (elim insertE; simp add: bit_and_iff bit_or_iff bit_numeral_word_iff)
qed

lemma htype_cases: "PB_HTYPE x \<in> {PB_HTYPE_REQUIRED, PB_HTYPE_OPTIONAL, PB_HTYPE_REPEATED, PB_HTYPE_ONEOF}"
  by (simp add: PB_HTYPE_def mask_0x30)

lemma basic_settled:
  assumes sub: "\<And>src. PB_LTYPE (pf_type field) = PB_LTYPE_SUBMESSAGE \<Longrightarrow>
      settled (sub (im_descs im (pf_ptr field)) src) (sub' (im_descs im (pf_ptr field)) src)"
    and check: "pb_check_proto3_default_value m im field pData = pb_check_proto3_default_value n im field pData"
      "pb_check_proto3_default_value n im field pData \<noteq> None"
    and oneof: "PB_HTYPE (pf_type field) = PB_HTYPE_ONEOF \<longrightarrow> pf_size_offset field \<noteq> 0"
  shows "settled (encode_basic_field n im sub field pData) (encode_basic_field m im sub' field pData)"
proof -
  let ?ht = "PB_HTYPE (pf_type field)" and ?pS = "pData + scast (pf_size_offset field)"
  let ?src = "if PB_ATYPE (pf_type field) = PB_ATYPE_POINTER then load_u64 im pData else pData"
  let ?enc = "\<lambda>sub. and_then_enc (pb_encode_tag_for_field field) (PB_ENCODERS im sub (PB_LTYPE (pf_type field)) field ?src)"
  have once: "settled (?enc sub) (?enc sub')" by (intro once_settled sub)
  consider "?ht = PB_HTYPE_REQUIRED" | "?ht = PB_HTYPE_OPTIONAL" | "?ht = PB_HTYPE_REPEATED"
    | "?ht \<notin> {PB_HTYPE_REQUIRED, PB_HTYPE_OPTIONAL, PB_HTYPE_REPEATED}" by blast
  then show ?thesis
  proof cases
    case 1
    have "encode_basic_field n im sub field pData = (if ?src = 0 then return_error ''missing required field'' else ?enc sub)" for n sub
      by (rule ext) (use 1 in \<open>auto simp: encode_basic_field_def Let_def\<close>)
    then show ?thesis using once by simp
  next
    case 2
    obtain d where d: "pb_check_proto3_default_value n im field pData = Some d" using check(2) by blast
    define has where "has = (if pf_size_offset field \<noteq> 0 then im_mem im ?pS \<noteq> 0
        else if PB_ATYPE (pf_type field) = PB_ATYPE_POINTER then load_u64 im pData \<noteq> 0 else \<not> d)"
    have "encode_basic_field k im sub field pData = (if has then ?enc sub else (\<lambda>s. Some (s, True)))"
      if "pb_check_proto3_default_value k im field pData = Some d" for k sub
      by (rule ext) (use 2 that in \<open>auto simp: encode_basic_field_def has_def safe_read_bool_def load_u8_def Let_def\<close>)
    then show ?thesis using once check(1) d by simp
  next
    case 3
    let ?n = "unat (if pf_size_offset field \<noteq> 0 then load_u32 im ?pS else pf_array_size field)"
    have "encode_basic_field k im sub field pData = encode_array im field ?src ?n (PB_ENCODERS im sub (PB_LTYPE (pf_type field)))" for k sub
      by (rule ext) (use 3 in \<open>auto simp: encode_basic_field_def Let_def\<close>)
    moreover have "settled (encode_array im field ?src ?n (PB_ENCODERS im sub (PB_LTYPE (pf_type field))))
        (encode_array im field ?src ?n (PB_ENCODERS im sub' (PB_LTYPE (pf_type field))))"
      by (intro array_settled value_settled sub)
    ultimately show ?thesis by simp
  next
    case 4
    have "?ht = PB_HTYPE_ONEOF" using 4 htype_cases [of "pf_type field"] by simp
    then have o: "pf_size_offset field \<noteq> 0" using oneof by simp
    have "encode_basic_field k im sub field pData = (if load_u32 im ?pS = pf_tag field then ?enc sub else (\<lambda>s. Some (s, True)))" for k sub
      by (rule ext) (use 4 o in \<open>auto simp: encode_basic_field_def Let_def\<close>)
    then show ?thesis using once by simp
  qed
qed

lemma field_settled:
  assumes sub: "\<And>src. PB_LTYPE (pf_type field) = PB_LTYPE_SUBMESSAGE \<Longrightarrow>
      settled (sub (im_descs im (pf_ptr field)) src) (sub' (im_descs im (pf_ptr field)) src)"
    and check: "pb_check_proto3_default_value m im field pData = pb_check_proto3_default_value n im field pData"
      "pb_check_proto3_default_value n im field pData \<noteq> None"
    and oneof: "PB_HTYPE (pf_type field) = PB_HTYPE_ONEOF \<longrightarrow> pf_size_offset field \<noteq> 0"
  shows "settled (encode_field n im sub field pData) (encode_field m im sub' field pData)"
proof -
  have "encode_field k im sub field pData =
      (if PB_ATYPE (pf_type field) \<in> {PB_ATYPE_STATIC, PB_ATYPE_POINTER} then encode_basic_field k im sub field pData
       else if PB_ATYPE (pf_type field) = PB_ATYPE_CALLBACK then encode_callback_field im field pData
       else return_error ''invalid field type'')" for k sub
    by (rule ext) (simp add: encode_field_def)
  moreover have "settled (encode_callback_field im field pData) (encode_callback_field im field pData)"
    by (rule settled_same) (auto simp: encode_callback_field_def return_error_def Let_def split: prod.split bool.split)
  moreover have "settled (encode_basic_field n im sub field pData) (encode_basic_field m im sub' field pData)"
    by (intro basic_settled sub check oneof)
  ultimately show ?thesis by simp
qed

lemma fields_loop_settled:
  assumes fs: "tagged fs" and body: "\<And>i p. i < length fs \<Longrightarrow> settled (body (fs ! i) p) (body' (fs ! i) p)"
  shows "i < length fs \<Longrightarrow> settled (fields_loop body (iter_at fs a i)) (fields_loop body' (iter_at fs a i))"
proof (induction "length fs - i" arbitrary: i)
  case (Suc k)
  let ?it = "iter_at fs a i"
  have f: "it_field ?it = fs ! i" using iter_at_simps [OF fs Suc.prems, of a] Suc.prems by (simp add: field_at_def)
  let ?rest = "\<lambda>body. if Suc i < length fs then fields_loop body (iter_at fs a (Suc i)) else (\<lambda>s. Some (s, True))"
  have l: "fields_loop body ?it = and_then_enc (body (fs ! i) (it_pData ?it)) (?rest body)" for body
    by (rule ext, subst fields_loop.simps)
      (auto simp: f next_iter_at [OF fs Suc.prems] and_then_enc_def split: option.split bool.split)
  have "settled (?rest body) (?rest body')"
    using Suc.hyps(1) [of "Suc i"] Suc.hyps(2) by (auto simp: settled_def)
  then show ?case unfolding l by (intro settled_then body Suc.prems)
qed simp

lemma message_settled:
  assumes descs: "\<And>p. tagged (im_descs im p)"
  shows "tagged fs \<Longrightarrow> nests d im fs \<Longrightarrow> d < n \<Longrightarrow> settled (pb_encode (Suc d) im fs a) (pb_encode n im fs a)"
proof (induction d arbitrary: fs a n)
  case (Suc d)
  then obtain m where n: "n = Suc m" "d < m" by (cases n) auto
  show ?case
  proof (cases "fs = []")
    case True
    have "pb_encode (Suc k) im fs a = (\<lambda>s. Some (s, True))" for k
      by (rule ext) (simp add: True pb_field_iter_begin_def field_at_def PB_LAST_FIELD_def Let_def)
    then show ?thesis by (simp add: n(1))
  next
    case False
    let ?body = "\<lambda>k field pData. if PB_LTYPE (pf_type field) = PB_LTYPE_EXTENSION
          then encode_extension_field k im (pb_encode k im) field pData else encode_field k im (pb_encode k im) field pData"
    have first: "pb_field_iter_begin fs a = (iter_at fs a 0, True)"
      using Suc.prems(1) False field_at_tag [OF Suc.prems(1), of 0]
      by (simp add: iter_at_0 prod_eq_iff) (simp add: pb_field_iter_begin_def Let_def)
    then have e: "pb_encode (Suc k) im fs a = fields_loop (?body k) (iter_at fs a 0)" for k by (intro ext) simp
    have "settled (?body (Suc d) (fs ! i) p) (?body m (fs ! i) p)" if i: "i < length fs" for i p
    proof -
      have f: "PB_LTYPE (pf_type (fs ! i)) \<noteq> PB_LTYPE_EXTENSION"
          "PB_HTYPE (pf_type (fs ! i)) = PB_HTYPE_ONEOF \<longrightarrow> pf_size_offset (fs ! i) \<noteq> 0"
          "PB_LTYPE (pf_type (fs ! i)) = PB_LTYPE_SUBMESSAGE \<longrightarrow> nests d im (im_descs im (pf_ptr (fs ! i)))"
        using Suc.prems(2) i by (simp_all add: list_all_length)
      have "settled (pb_encode (Suc d) im (im_descs im (pf_ptr (fs ! i))) src) (pb_encode m im (im_descs im (pf_ptr (fs ! i))) src)"
        if "PB_LTYPE (pf_type (fs ! i)) = PB_LTYPE_SUBMESSAGE" for src using Suc.IH [OF descs _ n(2)] f(3) that by blast
      then have "settled (encode_field (Suc d) im (pb_encode (Suc d) im) (fs ! i) p) (encode_field m im (pb_encode m im) (fs ! i) p)"
        using default_check_settled [OF descs f(3) n(2), of p] f(2) by (intro field_settled) simp_all
      then show ?thesis using f(1) by simp
    qed
    then show ?thesis unfolding n(1) e using False by (intro fields_loop_settled [OF Suc.prems(1)]) simp_all
  qed
qed simp

section \<open>What arrives in a buffer\<close>

text \<open>The encoder writes exactly \<open>bs\<close> to the front of a buffer that is large enough, and fails for a smaller one.\<close>

definition writes_to_buffer :: "'s encoder \<Rightarrow> bytes \<Rightarrow> bool" where
  "writes_to_buffer enc bs \<longleftrightarrow> (\<forall>buf m. m \<le> length buf \<and> m \<le> 2 ^ 62 \<longrightarrow>
     (if length bs \<le> m
      then enc (pb_ostream_from_buffer buf m) =
        Some (\<lparr>os_sink = BufWrite (bs @ drop (length bs) buf) (length bs), os_max_size = m, os_bytes_written = length bs,
          os_errmsg = None\<rparr>, True)
      else \<exists>s'. enc (pb_ostream_from_buffer buf m) = Some (s', False)))"

lemma stores_buffer:
  assumes "stores enc bs"
  shows "writes_to_buffer enc bs"
  unfolding writes_to_buffer_def
proof (intro allI impI)
  fix buf :: bytes and m assume m: "m \<le> length buf \<and> m \<le> 2 ^ 62"
  let ?s = "pb_ostream_from_buffer buf m :: 'a pb_ostream"
  have "memory_stream ?s" using m by (simp add: memory_stream_def os_buf_wf_def pb_ostream_from_buffer_def)
  then have "if os_buf_room ?s (length bs) then enc ?s = Some (os_buf_put ?s bs, True) else \<exists>s'. enc ?s = Some (s', False)"
    using assms by (simp add: stores_def)
  then show "if length bs \<le> m
      then enc ?s = Some (\<lparr>os_sink = BufWrite (bs @ drop (length bs) buf) (length bs), os_max_size = m,
        os_bytes_written = length bs, os_errmsg = None\<rparr>, True)
      else \<exists>s'. enc ?s = Some (s', False)"
    by (cases "length bs \<le> m") (simp_all add: os_buf_room_def os_buf_put_def pb_ostream_from_buffer_def write_at_def)
qed

lemma denotes_buffer: "denotes enc (Some (Some bs)) \<Longrightarrow> length bs \<le> 2 ^ 62 \<Longrightarrow> writes_to_buffer enc bs"
  by (intro stores_buffer) (simp add: denotes_def)

lemma denotes_size:
  assumes "denotes (pb_encode n im fs a) r"
  shows "case r of None \<Rightarrow> pb_get_encoded_size n im fs a = None | Some None \<Rightarrow> pb_get_encoded_size n im fs a = Some None
    | Some (Some bs) \<Rightarrow> length bs \<le> SIZE_MAX \<longrightarrow> pb_get_encoded_size n im fs a = Some (Some (length bs))"
proof (cases "\<exists>bs. r = Some (Some bs)")
  case False
  then show ?thesis using assms wf_ostream_sizing
    by (fastforce simp: denotes_def pb_get_encoded_size_def split: option.splits)
next
  case True
  then obtain bs where r: "r = Some (Some bs)" by blast
  then have "counts (pb_encode n im fs a) (length bs)" using assms by (simp add: denotes_def)
  then obtain k where "pb_encode n im fs a PB_OSTREAM_SIZING = Some (PB_OSTREAM_SIZING\<lparr>os_bytes_written := k\<rparr>, True)"
    "k \<le> SIZE_MAX" "length bs \<le> SIZE_MAX \<longrightarrow> k = length bs" by (rule counts_first)
  then show ?thesis by (simp add: r pb_get_encoded_size_def)
qed

lemma denotes_nullterminated:
  assumes "denotes (pb_encode n im fs a) (Some (Some bs))"
  shows "denotes (pb_encode_nullterminated n im fs a) (Some (Some (bs @ [0])))"
  using denotes_then [OF assms denotes_write [of "[0]"]] by (simp add: pb_encode_nullterminated_def)

lemma denotes_delimited:
  assumes "denotes (pb_encode n im fs a) (Some (Some bs))"
  shows "denotes (pb_encode_delimited n im fs a) (Some (Some (string_bytes bs)))"
  using denotes_submessage [OF assms] by (simp add: pb_encode_delimited_def as_string_def)


text \<open>A message with a submessage in field 3, whose field 1 holds 150.\<close>

definition example_image :: "unit image" where
  "example_image = \<lparr>im_mem = (\<lambda>p. if p = 100 then 150 else 0),
     im_descs = (\<lambda>p. [PB_LAST_FIELD\<lparr>pf_tag := 1, pf_type := 2, pf_data_size := 4\<rparr>]),
     im_field_encoder = (\<lambda>p s field arg. (s, False)), im_extension_encoder = (\<lambda>p s extension. (s, False))\<rparr>"

definition example_fields :: "pb_field list" where
  "example_fields = [PB_LAST_FIELD\<lparr>pf_tag := 3, pf_type := 8, pf_data_size := 4, pf_ptr := 1\<rparr>]"

lemma example_ok: "tagged example_fields" "tagged (im_descs example_image p)" "clients example_image (\<lambda>_ _ _. None) (\<lambda>_ _. None)"
  by (simp_all add: tagged_def example_fields_def example_image_def clients_def denotes_def)

lemma example_nests: "nests 2 example_image example_fields"
proof -
  have "nests (Suc (Suc 0)) example_image example_fields"
    by (simp add: example_fields_def example_image_def PB_LTYPE_def PB_HTYPE_def PB_LAST_FIELD_def)
  then show ?thesis by (simp only: numeral_2_eq_2)
qed

lemma example_bytes: "message_bytes 3 example_image (\<lambda>_ _ _. None) (\<lambda>_ _. None) example_fields 100 = Some (Some [0x1A, 3, 8, 0x96, 1])"
proof -
  have v: "varint_bytes 26 = [0x1A]" "varint_bytes 3 = [3]" "varint_bytes 8 = [8]" "varint_bytes 150 = [0x96, 1]"
    by code_simp+
  have "message_bytes (Suc (Suc (Suc 0))) example_image (\<lambda>_ _ _. None) (\<lambda>_ _. None) example_fields 100 = Some (Some [0x1A, 3, 8, 0x96, 1])"
    by (simp add: example_fields_def example_image_def entry_bytes_def field_bytes_def basic_field_bytes_def
        value_bytes_def integer_bytes_def integer_value_def field_tag_bytes_def wire_type_of_def tag_bytes_def as_string_def
        string_bytes_def PB_LTYPE_def PB_HTYPE_def PB_ATYPE_def PB_LAST_FIELD_def iter_at_0 pb_field_iter_begin_def
        field_at_def load_def Let_def v upt_rec)
  then show ?thesis by (simp only: numeral_3_eq_3)
qed


end
