(* ===== verification/Nanopb_Skip.thy ===== *)
theory Nanopb_Skip
  imports Nanopb_Props
begin

text \<open>
  A reader that knows none of the fields of a message: the loop of \<open>pb_decode_noinit\<close> (pb_decode.c) on a message type without
  fields, where neither \<open>pb_field_iter_find\<close> nor \<open>find_extension_field\<close> finds anything, no field is required and the
  final checks have nothing to refuse. It walks over whatever the encoder has written.
\<close>

section \<open>The loop\<close>

lemma varint32_loop_left: "varint32_loop s p r = (s', Some x) \<Longrightarrow> is_bytes_left s' \<le> is_bytes_left s"
proof (induction s p r rule: varint32_loop.induct)
  case (1 s p r)
  obtain t ob where t: "pb_readbyte s = (t, ob)" by fastforce
  then obtain byte where b: "ob = Some byte" using 1(2) by (subst (asm) varint32_loop.simps) (auto split: option.splits)
  have l: "is_bytes_left t \<le> is_bytes_left s" using pb_readbyte_left [of s t byte] t b by simp
  show ?case
  proof (cases "byte AND 0x80 \<noteq> 0")
    case True
    then have "\<not> (32 \<le> p \<and> byte AND 0x7F \<noteq> 0 \<and> (drop_bit 31 r = 0 \<or> byte \<noteq> (if p < 63 then 0xFF else 0x01)))"
      and "varint32_loop t (p + 7) (if 32 \<le> p then r else r OR push_bit (unat p) (ucast (byte AND 0x7F))) = (s', Some x)"
      using 1(2) t b by (subst (asm) varint32_loop.simps; simp add: Let_def split: if_splits)+
    then have "is_bytes_left s' \<le> is_bytes_left t" using 1(1) [OF t [symmetric] b refl _ refl refl True] by blast
    then show ?thesis using l by simp
  next
    case False
    then have "s' = t" using 1(2) t b by (subst (asm) varint32_loop.simps) (auto simp: Let_def split: if_splits)
    then show ?thesis using l by simp
  qed
qed

lemma decode_tag_left:
  assumes "pb_decode_tag s = (s', Some x, eof)"
  shows "is_bytes_left s' < is_bytes_left s"
proof -
  obtain temp e where "pb_decode_varint32_eof s = (s', Some temp, e)"
    using assms by (auto simp: pb_decode_tag_def split: prod.splits option.splits if_splits)
  then show ?thesis
    by (auto simp: pb_decode_varint32_eof_def dest!: pb_readbyte_left varint32_loop_left split: prod.splits option.splits if_splits)
qed

lemma skip_chunks_left: "pb_skip_chunks s n = (s', True) \<Longrightarrow> is_bytes_left s' \<le> is_bytes_left s"
proof (induction s n rule: pb_skip_chunks.induct)
  case (1 s n)
  then show ?case
    by (subst (asm) pb_skip_chunks.simps) (fastforce dest: pb_read_left split: prod.splits option.splits if_splits)
qed

lemma read_null_left: "pb_read_null s n = (s', True) \<Longrightarrow> is_bytes_left s' \<le> is_bytes_left s"
  by (auto simp: pb_read_null_def dest: skip_chunks_left pb_read_left split: isource.splits prod.splits if_splits)

lemma skip_varint_left: "pb_skip_varint s = (s', True) \<Longrightarrow> is_bytes_left s' \<le> is_bytes_left s"
proof (induction s rule: pb_skip_varint.induct)
  case (1 s)
  then show ?case
    by (subst (asm) pb_skip_varint.simps) (fastforce dest: pb_read_left split: prod.splits option.splits if_splits)
qed

lemma decode_varint32_left: "pb_decode_varint32 s = (s', Some v) \<Longrightarrow> is_bytes_left s' \<le> is_bytes_left s"
  by (auto simp: pb_decode_varint32_def pb_decode_varint32_eof_def dest!: pb_readbyte_left varint32_loop_left
      split: prod.splits option.splits if_splits)

lemma skip_field_left: "pb_skip_field s wt = (s', True) \<Longrightarrow> is_bytes_left s' \<le> is_bytes_left s"
  by (auto simp: pb_skip_field_def pb_skip_string_def dest!: decode_varint32_left
      intro: skip_varint_left read_null_left le_trans split: if_splits prod.splits option.splits)

function decode_no_fields :: "'s pb_istream \<Rightarrow> 's pb_istream \<times> bool" where
  "decode_no_fields s =
    (if is_bytes_left s = 0 then (s, True)
     else case pb_decode_tag s of
         (s', None, eof) \<Rightarrow> (s', eof)
       | (s', Some (wire_type, tag), _) \<Rightarrow>
           (case pb_skip_field s' wire_type of
              (s'', True) \<Rightarrow> decode_no_fields s''
            | (s'', False) \<Rightarrow> (s'', False)))"
  by auto

termination decode_no_fields
  by (relation "measure is_bytes_left") (auto dest!: decode_tag_left [OF sym] skip_field_left [OF sym])

declare decode_no_fields.simps [simp del]

section \<open>Records\<close>

text \<open>The wire format, independently of the encoder: a message is a sequence of records, each with a key of a wire type and a field number, and a
  payload of that wire type.\<close>

type_synonym wire_record = "pb_wire_type \<times> u32 \<times> bytes"

fun wire_record_ok :: "wire_record \<Rightarrow> bool" where
  "wire_record_ok (wt, tag, payload) \<longleftrightarrow> wire_payload wt payload \<and> 0 < unat tag \<and> unat tag < 2 ^ 29"

fun record_bytes :: "wire_record \<Rightarrow> bytes" where
  "record_bytes (wt, tag, payload) = varint_bytes (of_nat (8 * unat tag + unat wt)) @ payload"

definition records :: "bytes \<Rightarrow> bool" where
  "records bs \<longleftrightarrow> (\<exists>rs. list_all wire_record_ok rs \<and> bs = concat (map record_bytes rs))"

lemma records_Nil [simp]: "records []"
  unfolding records_def by (intro exI [of _ "[]"]) simp

lemma records_append: "records bs \<Longrightarrow> records cs \<Longrightarrow> records (bs @ cs)"
  unfolding records_def by (elim exE conjE, intro exI [of _ "_ @ _"]) simp

lemma payload_wire: "wire_payload wt bs \<Longrightarrow> unat wt < 8"
  by (auto simp: wire_payload_def)

lemma records_one: "wire_payload wt bs \<Longrightarrow> 0 < unat tag \<Longrightarrow> unat tag < 2 ^ 29 \<Longrightarrow> records (tag_bytes wt tag @ bs)"
  unfolding records_def by (intro exI [of _ "[(wt, tag, bs)]"]) (simp add: tag_bytes_def)

context pb_input
begin

text \<open>The loop reads any sequence of records to its end.\<close>

lemma decode_records:
  "list_all wire_record_ok rs \<Longrightarrow> wf s \<Longrightarrow> content s = concat (map record_bytes rs) \<Longrightarrow>
    decode_no_fields s = (adv s (length (content s)), True)"
proof (induction rs arbitrary: s)
  case Nil
  then show ?case using left [OF Nil(2)] adv_0 by (subst decode_no_fields.simps) simp
next
  case (Cons r rs)
  obtain wt tag p where r: "r = (wt, tag, p)" by (metis prod_cases3)
  have p: "wire_payload wt p" "0 < unat tag" "unat tag < 2 ^ 29" and rs: "list_all wire_record_ok rs" using Cons.prems(1) r by simp_all
  have wt: "unat wt < 8" by (rule payload_wire [OF p(1)])
  let ?k = "varint_bytes (tag_value wt tag)" and ?rest = "concat (map record_bytes rs)"
  have c: "content s = ?k @ p @ ?rest" using Cons.prems(3) r by (simp add: tag_value_number [OF wt])
  have tag0: "tag \<noteq> 0" using p(2) by auto
  let ?s1 = "adv s (length ?k)"
  have t: "pb_decode_tag s = (?s1, Some (wt, tag), False)" by (rule decode_tag_ok [OF Cons.prems(2) c wt p(3) tag0])
  have s1: "wf ?s1" "content ?s1 = p @ ?rest" using wf_adv [OF Cons.prems(2)] content_adv [OF Cons.prems(2)] c by simp_all
  let ?s2 = "adv ?s1 (length p)"
  have k: "pb_skip_field ?s1 wt = (?s2, True)" by (rule skip_field_ok [OF s1 p(1)])
  have s2: "wf ?s2" "content ?s2 = ?rest" using wf_adv [OF s1(1)] content_adv [OF s1(1)] s1(2) by simp_all
  have "varint_bytes v \<noteq> []" for v by (cases "v \<le> 0x7F") (simp_all add: varint_bytes_small varint_bytes_step)
  then have "is_bytes_left s \<noteq> 0" using left [OF Cons.prems(2)] c by simp
  then have "decode_no_fields s = decode_no_fields ?s2" by (subst decode_no_fields.simps) (simp add: t k)
  also have "\<dots> = (adv ?s2 (length ?rest), True)" using Cons.IH [OF rs s2] s2(2) by simp
  also have "adv ?s2 (length ?rest) = adv s (length (content s))"
    using adv_add [OF s1(1), of "length p" "length ?rest"] adv_add [OF Cons.prems(2), of "length ?k" "length p + length ?rest"] s1(2) c
    by simp
  finally show ?case .
qed

end

section \<open>The encoder writes records\<close>

text \<open>Messages have less than 4 GiB: longer ones are written, but a reader refuses their lengths.\<close>

definition records_if :: "encoding \<Rightarrow> bool" where
  "records_if r \<longleftrightarrow> (\<forall>bs. r = Some (Some bs) \<and> length bs < 2 ^ 32 \<longrightarrow> records bs)"

lemma records_if_simps [simp]: "records_if None" "records_if (Some None)" "records_if (Some (Some []))"
  by (simp_all add: records_if_def)

lemma records_if_then: "records_if r \<Longrightarrow> records_if q \<Longrightarrow> records_if (then_bytes r q)"
  by (auto simp: records_if_def then_bytes_def intro: records_append split: option.splits)

lemma records_if_join: "(\<And>r. r \<in> set rs \<Longrightarrow> records_if r) \<Longrightarrow> records_if (join rs)"
  by (induction rs) (simp_all add: records_if_then)

definition numbered :: "pb_field \<Rightarrow> bool" where
  "numbered field \<longleftrightarrow> 0 < unat (pf_tag field) \<and> unat (pf_tag field) < 2 ^ 29"

lemma string_payload: "length (string_bytes cs) < 2 ^ 32 \<Longrightarrow> wire_payload PB_WT_STRING (string_bytes cs)"
  by (auto simp: wire_payload_def string_bytes_def)

lemma value_payload:
  assumes "wire_type_of (PB_LTYPE (pf_type field)) = Some wt" "value_bytes im sub field p = Some (Some bs)" "length bs < 2 ^ 32"
  shows "wire_payload wt bs"
proof -
  have b: "[if c then 0 else 1 :: u8] = varint_bytes (if c then 0 else 1)" for c by (simp add: varint_bytes_small)
  show ?thesis using assms
    by (auto simp: wire_type_of_def value_bytes_def Let_def integer_bytes_def bytes_bytes_def as_string_def string_payload b
        wire_payload_def [of PB_WT_VARINT] wire_payload_def [of PB_WT_32BIT] wire_payload_def [of PB_WT_64BIT]
        split: if_splits option.splits)
qed

lemma records_once:
  assumes "numbered field"
  shows "records_if (then_bytes (field_tag_bytes field) (value_bytes im sub field p))"
  using assms value_payload [of field _ im sub p] records_one
  by (auto simp: records_if_def field_tag_bytes_def then_bytes_def numbered_def split: option.splits)

lemma records_array:
  assumes "numbered field"
  shows "records_if (array_bytes im field a n (value_bytes im sub field))"
proof -
  have packed: "records_if (then_bytes (Some (Some (tag_bytes PB_WT_STRING (pf_tag field)))) (as_string r))" for r
    using assms records_one [OF string_payload]
    by (auto simp: records_if_def as_string_def then_bytes_def numbered_def split: option.splits)
  have once: "records_if (join (map (\<lambda>p. then_bytes (field_tag_bytes field) (value_bytes im sub field (f p))) ps))" for f ps
    using records_once [OF assms] by (intro records_if_join) auto
  show ?thesis unfolding array_bytes_def Let_def by (simp add: packed once)
qed

lemma records_basic: "numbered field \<Longrightarrow> records_if (basic_field_bytes n im sub field p)"
  unfolding basic_field_bytes_def Let_def
  by (auto simp: records_once records_array split: option.split)

definition callbacks_write_records :: "(addr \<Rightarrow> pb_field \<Rightarrow> addr \<Rightarrow> bytes option) \<Rightarrow> bool" where
  "callbacks_write_records fb \<longleftrightarrow> (\<forall>p field arg bs. fb p field arg = Some bs \<longrightarrow> records bs)"

lemma records_field:
  assumes "numbered field" "callbacks_write_records fb"
  shows "records_if (field_bytes n im fb sub field p)"
proof -
  have "records_if (callback_field_bytes im fb field p)"
    using assms(2) by (auto simp: callback_field_bytes_def callbacks_write_records_def records_if_def)
  then show ?thesis by (auto simp: field_bytes_def intro: records_basic assms(1))
qed

lemma records_message:
  assumes "list_all (\<lambda>f. numbered f \<and> PB_LTYPE (pf_type f) \<noteq> PB_LTYPE_EXTENSION) fs" "callbacks_write_records fb"
  shows "records_if (message_bytes n im fb eb fs a)"
proof (cases n)
  case (Suc k)
  have "records_if (entry_bytes k im fb eb sub (fs ! i) p)" if "i < length fs" for i p sub
    using that assms by (auto simp: entry_bytes_def list_all_length intro: records_field)
  then show ?thesis unfolding Suc message_bytes.simps by (intro records_if_join) auto
qed simp



end
