(* ===== verification/Der_Spec.thy ===== *)
theory Der_Spec
  imports Teamy_Prelude
begin

text \<open>
  What the DER routines of BoringSSL's bytestring library (crypto/bytestring) read and write,
  stated without any parser: base-128 numbers, identifier octets, definite lengths of minimal
  form (ITU-T X.690 sections 8.1.2, 8.1.3 and 10.1) and whole elements. The theory also holds
  the interface \<open>canonical\<close> that every reader of such an encoding is shown to satisfy.
\<close>

section \<open>Readers\<close>

text \<open>A CBS is a window on bytes it does not own: a pointer and a length. Nothing in the library
  writes through it, so that its state is the list of the bytes that are left. A reader returns
  its result, or None where the C function returns 0, and what is left of the window in both
  cases.\<close>

type_synonym cbs = bytes
type_synonym 'a reader = "cbs \<Rightarrow> 'a option \<times> cbs"

definition and_then :: "'a reader \<Rightarrow> ('a \<Rightarrow> 'b reader) \<Rightarrow> 'b reader" where
  "and_then r f cbs = (case r cbs of (None, cbs') \<Rightarrow> (None, cbs') | (Some a, cbs') \<Rightarrow> f a cbs')"

lemma and_then_Some [simp]: "r cbs = (Some a, cbs') \<Longrightarrow> and_then r f cbs = f a cbs'"
  by (simp add: and_then_def)

lemma and_then_None [simp]: "r cbs = (None, cbs') \<Longrightarrow> and_then r f cbs = (None, cbs')"
  by (simp add: and_then_def)

lemma and_then_eq_Some:
  "and_then r f cbs = (Some b, cbs'') \<longleftrightarrow>
    (\<exists>a cbs'. r cbs = (Some a, cbs') \<and> f a cbs' = (Some b, cbs''))"
  by (auto simp: and_then_def split: prod.splits option.splits)

section \<open>Canonical encodings\<close>

text \<open>A reader is canonical for an encoding when it accepts precisely the encodings of the
  admissible values, and leaves what follows. Everything a caller relies on follows: the
  encoding is uniquely decodable, the result does not depend on the bytes that follow, and a
  second spelling of a value is never accepted.\<close>

locale canonical =
  fixes rd :: "'a reader" and ok :: "'a \<Rightarrow> bool" and enc :: "'a \<Rightarrow> bytes"
  assumes reads: "rd cbs = (Some a, cbs') \<longleftrightarrow> ok a \<and> cbs = enc a @ cbs'"
    and enc_nonempty: "ok a \<Longrightarrow> enc a \<noteq> []"
begin

lemma reads_enc: "ok a \<Longrightarrow> rd (enc a @ rest) = (Some a, rest)"
  by (simp add: reads)

lemma enc_unique:
  assumes "ok a" "ok b" "enc a @ xs = enc b @ ys"
  shows "a = b \<and> xs = ys"
proof -
  have "rd (enc b @ ys) = (Some a, xs)"
    using reads_enc [OF assms(1), of xs] by (simp only: assms(3))
  then show ?thesis using reads_enc [OF assms(2), of ys] by simp
qed

lemma prefix_free: "ok a \<Longrightarrow> ok b \<Longrightarrow> enc a = enc b @ ys \<Longrightarrow> a = b \<and> ys = []"
  using enc_unique [of a b "[]" ys] by auto

lemma reads_extend: "rd cbs = (Some a, cbs') \<Longrightarrow> rd (cbs @ ext) = (Some a, cbs' @ ext)"
  by (simp add: reads)

lemma consumes: "rd cbs = (Some a, cbs') \<Longrightarrow> length cbs' < length cbs"
  using enc_nonempty by (auto simp: reads)

lemma concat_unique:
  "list_all ok xs \<Longrightarrow> list_all ok ys \<Longrightarrow> concat (map enc xs) = concat (map enc ys) \<Longrightarrow> xs = ys"
proof (induction xs arbitrary: ys)
  case Nil
  then show ?case using enc_nonempty by (cases ys) auto
next
  case (Cons x xs)
  then obtain y ys' where ys: "ys = y # ys'" using enc_nonempty by (cases ys) auto
  with Cons.prems have "x = y \<and> concat (map enc xs) = concat (map enc ys')"
    by (intro enc_unique) simp_all
  with Cons ys show ?case by auto
qed

end

section \<open>Base-128 numbers\<close>

text \<open>Seven bits a byte, most significant first, the high bit set on every byte but the last;
  no leading zero digit.\<close>

fun base128_high :: "nat \<Rightarrow> bytes" where
  "base128_high n = (if n = 0 then [] else base128_high (n div 128) @ [of_nat (128 + n mod 128)])"

declare base128_high.simps [simp del]

definition base128 :: "nat \<Rightarrow> bytes" where
  "base128 n = base128_high (n div 128) @ [of_nat (n mod 128)]"

lemma base128_high_0 [simp]: "base128_high 0 = []"
  by (simp add: base128_high.simps)

lemma base128_high_step:
  "d < 128 \<Longrightarrow> 0 < n * 128 + d \<Longrightarrow>
    base128_high (n * 128 + d) = base128_high n @ [of_nat (128 + d)]"
  by (subst base128_high.simps) simp

lemma base128_step: "d < 128 \<Longrightarrow> base128 (n * 128 + d) = base128_high n @ [of_nat d]"
  by (simp add: base128_def)

section \<open>Identifiers, lengths and elements\<close>

text \<open>A tag is an \<open>unsigned\<close>: class and constructed bit in its three high bits, the tag number
  in the others (\<open>CBS_ASN1_TAG_SHIFT\<close> of bytestring.h).\<close>

definition tag_class :: "u32 \<Rightarrow> nat" where "tag_class t = unat t div 2 ^ 29"
definition tag_number :: "u32 \<Rightarrow> nat" where "tag_number t = unat t mod 2 ^ 29"

definition der_tag :: "u32 \<Rightarrow> bytes" where
  "der_tag t = (if tag_number t < 31 then [of_nat (tag_class t * 32 + tag_number t)]
     else of_nat (tag_class t * 32 + 31) # base128 (tag_number t))"

text \<open>The number of bytes of a length of the long form, for the lengths the library supports.\<close>

definition len_bytes :: "nat \<Rightarrow> nat" where
  "len_bytes n = (if n < 256 then 1 else if n < 65536 then 2 else if n < 16777216 then 3 else 4)"

definition der_len :: "nat \<Rightarrow> bytes" where
  "der_len n = (if n < 128 then [of_nat n]
     else of_nat (128 + len_bytes n) # be_bytes (len_bytes n) n)"

definition der_header :: "u32 \<Rightarrow> nat \<Rightarrow> bytes" where
  "der_header t n = der_tag t @ der_len n"

definition der_elem :: "u32 \<Rightarrow> bytes \<Rightarrow> bytes" where
  "der_elem t c = der_header t (length c) @ c"

lemma tag_class_less: "tag_class t < 8"
  using unat_u32_less [of t] unfolding tag_class_def by (subst div_less_iff_less_mult) simp_all

lemma tag_number_less: "tag_number t < 2 ^ 29"
  by (simp add: tag_number_def)

lemma tag_split: "unat t = tag_class t * 2 ^ 29 + tag_number t"
  unfolding tag_class_def tag_number_def by simp

lemma der_tag_nonempty [simp]: "der_tag t \<noteq> []"
  by (simp add: der_tag_def)

lemma der_len_nonempty [simp]: "der_len n \<noteq> []"
  by (simp add: der_len_def)

lemma length_der_elem: "length (der_elem t c) = length (der_header t (length c)) + length c"
  by (simp add: der_elem_def)

section \<open>Integers\<close>

text \<open>The contents octets are the minimal two's complement form.\<close>

definition tc_val :: "bytes \<Rightarrow> int" where
  "tc_val bs = int (be_val bs) - (if bs \<noteq> [] \<and> 128 \<le> unat (hd bs) then 256 ^ length bs else 0)"

definition tc_minimal :: "bytes \<Rightarrow> bool" where
  "tc_minimal bs \<longleftrightarrow> bs \<noteq> [] \<and>
    (1 < length bs \<longrightarrow> \<not> (bs ! 0 = 0 \<and> unat (bs ! 1) < 128) \<and> \<not> (bs ! 0 = 255 \<and> 128 \<le> unat (bs ! 1)))"

lemma tc_val_sign: "data \<noteq> [] \<Longrightarrow> tc_val data < 0 \<longleftrightarrow> 128 \<le> unat (data ! 0)"
  using be_val_less [of data]
  by (cases "128 \<le> unat (hd data)") (simp_all add: tc_val_def hd_conv_nth)

text \<open>The minimal form of a number is unique, so that an INTEGER has one spelling.\<close>

lemma tc_arith:
  fixes P X B :: int
  assumes "0 \<le> B" "B < X"
  shows "P \<le> 127 * X \<Longrightarrow> 2 * (P + B) < 256 * X"
    "- 128 * X \<le> P \<Longrightarrow> - (256 * X) \<le> 2 * (P + B)"
    "128 * X \<le> P \<Longrightarrow> 256 * X \<le> 2 * (P + B)"
    "P \<le> - 129 * X \<Longrightarrow> 2 * (P + B) < - (256 * X)"
  using assms by simp_all

lemma tc_val_upper:
  assumes "bs \<noteq> []"
  shows "2 * tc_val bs < 256 ^ length bs" "- (256 ^ length bs) \<le> 2 * tc_val bs"
proof -
  obtain b r where bs: "bs = b # r" using assms by (cases bs) auto
  have r: "int (be_val r) < 256 ^ length r" using be_val_less [of r] by (metis of_nat_less_iff of_nat_numeral of_nat_power)
  have v: "tc_val bs = (int (unat b) - (if 128 \<le> unat b then 256 else 0)) * 256 ^ length r + int (be_val r)"
    by (simp add: tc_val_def bs be_val_Cons algebra_simps del: of_nat_unat)
  define k :: int where "k = int (unat b) - (if 128 \<le> unat b then 256 else 0)"
  have p: "(256 :: int) ^ length bs = 256 * 256 ^ length r" by (simp add: bs)
  have b0: "0 \<le> int (be_val r)" by simp
  have k: "k \<le> 127" "- 128 \<le> k" using unat_u8_less [of b] by (simp_all add: k_def del: of_nat_unat unat_u8_less)
  have m: "k * 256 ^ length r \<le> 127 * 256 ^ length r" "- 128 * 256 ^ length r \<le> k * 256 ^ length r"
    using k by (intro mult_right_mono; simp)+
  show "2 * tc_val bs < 256 ^ length bs" "- (256 ^ length bs) \<le> 2 * tc_val bs"
    unfolding p v k_def [symmetric] by (rule tc_arith(1,2) [OF b0 r] m)+
qed

lemma tc_val_minimal:
  assumes "tc_minimal bs" "1 < length bs"
  shows "256 ^ (length bs - 1) \<le> 2 * tc_val bs \<or> 2 * tc_val bs < - (256 ^ (length bs - 1))"
proof -
  obtain b c r where bs: "bs = b # c # r" using assms(2) by (cases bs; cases "tl bs") auto
  have r: "int (be_val r) < 256 ^ length r" using be_val_less [of r] by (metis of_nat_less_iff of_nat_numeral of_nat_power)
  define k :: int where
    "k = (int (unat b) - (if 128 \<le> unat b then 256 else 0)) * 256 + int (unat c)"
  have v: "tc_val bs = k * 256 ^ length r + int (be_val r)"
    by (simp add: tc_val_def bs be_val_Cons k_def algebra_simps del: of_nat_unat)
  have nb: "\<not> (unat b = 0 \<and> unat c < 128)" "\<not> (unat b = 255 \<and> 128 \<le> unat c)"
    using assms(1) by (auto simp: tc_minimal_def bs word_unat_eq_iff)
  have k: "128 \<le> k \<or> k \<le> - 129"
    using nb unat_u8_less [of b] unat_u8_less [of c]
    unfolding k_def by (cases "128 \<le> unat b") (simp_all del: of_nat_unat unat_u8_less, linarith+)
  have p: "(256 :: int) ^ (length bs - 1) = 256 * 256 ^ length r" by (simp add: bs)
  have b0: "0 \<le> int (be_val r)" by simp
  show ?thesis
    using k
  proof
    assume "128 \<le> k"
    then have "128 * 256 ^ length r \<le> k * 256 ^ length r" by (intro mult_right_mono) simp_all
    then have "256 * 256 ^ length r \<le> 2 * (k * 256 ^ length r + int (be_val r))"
      by (rule tc_arith(3) [OF b0 r])
    then show ?thesis unfolding p v by (rule disjI1)
  next
    assume "k \<le> - 129"
    then have "k * 256 ^ length r \<le> - 129 * 256 ^ length r" by (intro mult_right_mono) simp_all
    then have "2 * (k * 256 ^ length r + int (be_val r)) < - (256 * 256 ^ length r)"
      by (rule tc_arith(4) [OF b0 r])
    then show ?thesis unfolding p v by (rule disjI2)
  qed
qed

lemma tc_minimal_unique:
  assumes "tc_minimal a" "tc_minimal b" "tc_val a = tc_val b"
  shows "a = b"
proof -
  have le: "length x \<le> length y" if m: "tc_minimal x" "tc_minimal y" "tc_val x = tc_val y" for x y
  proof (rule ccontr)
    assume "\<not> length x \<le> length y"
    moreover have "y \<noteq> []" using m(2) by (simp add: tc_minimal_def)
    ultimately have l: "1 < length x" "length y \<le> length x - 1" by (cases y; simp)+
    have "(256 :: int) ^ length y \<le> 256 ^ (length x - 1)" using l(2) by (intro power_increasing) simp_all
    then show False using tc_val_minimal [OF m(1) l(1)] tc_val_upper [OF \<open>y \<noteq> []\<close>] m(3) by linarith
  qed
  have len: "length a = length b" using le [of a b] le [of b a] assms by simp
  have ne: "a \<noteq> []" "b \<noteq> []" using assms by (simp_all add: tc_minimal_def)
  have be: "int (be_val x) = tc_val x mod 256 ^ length x" for x
  proof -
    have "tc_val x mod 256 ^ length x = int (be_val x) mod 256 ^ length x"
      by (simp add: tc_val_def)
    moreover have "int (be_val x) < 256 ^ length x"
      using be_val_less [of x] by (metis of_nat_less_iff of_nat_numeral of_nat_power)
    ultimately show ?thesis by simp
  qed
  have "int (be_val a) = int (be_val b)" by (simp only: be [of a] be [of b] assms(3) len)
  then have eq: "be_val a = be_val b" by simp
  have "a = be_bytes (length a) (be_val a)" by (simp only: be_bytes_be_val)
  also have "\<dots> = be_bytes (length b) (be_val b)" by (simp only: len eq)
  also have "\<dots> = b" by (simp only: be_bytes_be_val)
  finally show ?thesis .
qed

end
