(* ===== verification/Cbs.thy ===== *)
theory Cbs
  imports Der_Spec
begin

unbundle bit_operations_syntax

text \<open>
  The parser half of BoringSSL's bytestring library: crypto/bytestring/cbs.c, function by
  function and under the same names. An output parameter is part of the result of a successful
  call; what the C code leaves in it when it returns 0 is not read by any caller and is not
  modelled. A reader keeps the partly advanced window of a failing call.
\<close>

section \<open>Windows and integers\<close>

definition cbs_get :: "nat \<Rightarrow> bytes reader" where
  "cbs_get n cbs = (if length cbs < n then (None, cbs) else (Some (take n cbs), drop n cbs))"

definition CBS_skip :: "nat \<Rightarrow> unit reader" where
  "CBS_skip len = and_then (cbs_get len) (\<lambda>_ cbs. (Some (), cbs))"

definition CBS_contains_zero_byte :: "cbs \<Rightarrow> bool" where
  "CBS_contains_zero_byte cbs = (0 \<in> set cbs)"

definition CBS_mem_equal :: "cbs \<Rightarrow> bytes \<Rightarrow> bool" where
  "CBS_mem_equal cbs data = (if length data \<noteq> length cbs then False else cbs = data)"

definition cbs_get_u :: "nat \<Rightarrow> u64 reader" where
  "cbs_get_u len = and_then (cbs_get len) (\<lambda>data cbs.
     (Some (foldl (\<lambda>result b. push_bit 8 result OR ucast b) 0 data), cbs))"

fun CBS_get_u8 :: "u8 reader" where
  "CBS_get_u8 [] = (None, [])"
| "CBS_get_u8 (b # cbs) = (Some b, cbs)"

definition CBS_get_u16 :: "u16 reader" where
  "CBS_get_u16 = and_then (cbs_get_u 2) (\<lambda>v cbs. (Some (ucast v), cbs))"

definition CBS_get_u24 :: "u32 reader" where
  "CBS_get_u24 = and_then (cbs_get_u 3) (\<lambda>v cbs. (Some (ucast v), cbs))"

definition CBS_get_u32 :: "u32 reader" where
  "CBS_get_u32 = and_then (cbs_get_u 4) (\<lambda>v cbs. (Some (ucast v), cbs))"

definition CBS_get_u64 :: "u64 reader" where
  "CBS_get_u64 = cbs_get_u 8"

text \<open>The byte swaps of crypto/internal.h, in their portable form.\<close>

definition CRYPTO_bswap2 :: "u16 \<Rightarrow> u16" where
  "CRYPTO_bswap2 x = drop_bit 8 x OR push_bit 8 x"

definition CRYPTO_bswap4 :: "u32 \<Rightarrow> u32" where
  "CRYPTO_bswap4 x =
     (let x = drop_bit 16 x OR push_bit 16 x
      in drop_bit 8 (x AND 0xff00ff00) OR push_bit 8 (x AND 0x00ff00ff))"

definition CRYPTO_bswap8 :: "u64 \<Rightarrow> u64" where
  "CRYPTO_bswap8 x = push_bit 32 (ucast (CRYPTO_bswap4 (ucast x)))
     OR ucast (CRYPTO_bswap4 (ucast (drop_bit 32 x)))"

definition CBS_get_u16le :: "u16 reader" where
  "CBS_get_u16le = and_then CBS_get_u16 (\<lambda>v cbs. (Some (CRYPTO_bswap2 v), cbs))"

definition CBS_get_u32le :: "u32 reader" where
  "CBS_get_u32le = and_then CBS_get_u32 (\<lambda>v cbs. (Some (CRYPTO_bswap4 v), cbs))"

definition CBS_get_u64le :: "u64 reader" where
  "CBS_get_u64le = and_then (cbs_get_u 8) (\<lambda>v cbs. (Some (CRYPTO_bswap8 v), cbs))"

definition CBS_get_last_u8 :: "u8 reader" where
  "CBS_get_last_u8 cbs = (if cbs = [] then (None, cbs) else (Some (last cbs), butlast cbs))"

definition CBS_get_bytes :: "nat \<Rightarrow> cbs reader" where
  "CBS_get_bytes len = and_then (cbs_get len) (\<lambda>v cbs. (Some v, cbs))"

definition CBS_copy_bytes :: "nat \<Rightarrow> bytes reader" where
  "CBS_copy_bytes len = and_then (cbs_get len) (\<lambda>v cbs. (Some v, cbs))"

definition cbs_get_length_prefixed :: "nat \<Rightarrow> cbs reader" where
  "cbs_get_length_prefixed len_len = and_then (cbs_get_u len_len) (\<lambda>len. CBS_get_bytes (unat len))"

definition CBS_get_u8_length_prefixed :: "cbs reader" where
  "CBS_get_u8_length_prefixed = cbs_get_length_prefixed 1"

definition CBS_get_u16_length_prefixed :: "cbs reader" where
  "CBS_get_u16_length_prefixed = cbs_get_length_prefixed 2"

definition CBS_get_u24_length_prefixed :: "cbs reader" where
  "CBS_get_u24_length_prefixed = cbs_get_length_prefixed 3"

section \<open>Tags and elements\<close>

definition CBS_ASN1_CONSTRUCTED :: u32 where "CBS_ASN1_CONSTRUCTED = 0x20000000"
definition CBS_ASN1_TAG_NUMBER_MASK :: u32 where "CBS_ASN1_TAG_NUMBER_MASK = 0x1FFFFFFF"
definition CBS_ASN1_BOOLEAN :: u32 where "CBS_ASN1_BOOLEAN = 0x1"
definition CBS_ASN1_INTEGER :: u32 where "CBS_ASN1_INTEGER = 0x2"
definition CBS_ASN1_OCTETSTRING :: u32 where "CBS_ASN1_OCTETSTRING = 0x4"

text \<open>The loop of \<open>parse_base128_integer\<close>: one \<open>CBS_get_u8\<close> a round.\<close>

fun base128_loop :: "u64 \<Rightarrow> u64 reader" where
  "base128_loop v [] = (None, [])"
| "base128_loop v (b # cbs) =
     (if drop_bit (64 - 7) v \<noteq> 0 then (None, cbs)
      else if v = 0 \<and> b = 0x80 then (None, cbs)
      else let v = push_bit 7 v OR ucast (b AND 0x7f)
           in if b AND 0x80 \<noteq> 0 then base128_loop v cbs else (Some v, cbs))"

definition parse_base128_integer :: "u64 reader" where
  "parse_base128_integer = base128_loop 0"

definition parse_asn1_tag :: "u32 reader" where
  "parse_asn1_tag = and_then CBS_get_u8 (\<lambda>tag_byte.
     let tag = push_bit 24 (ucast tag_byte AND 0xe0 :: u32);
         tag_num = (ucast (tag_byte AND 0x1f) :: u32)
     in if tag_num = 0x1f
        then and_then parse_base128_integer (\<lambda>v cbs.
               if v > ucast CBS_ASN1_TAG_NUMBER_MASK \<or> v < 0x1f then (None, cbs)
               else (Some (tag OR ucast v), cbs))
        else (\<lambda>cbs. (Some (tag OR tag_num), cbs)))"

text \<open>The length octets: \<open>element_length\<close> is the part of \<open>cbs_get_any_asn1_element\<close> between the
  length byte and the last \<open>CBS_get_bytes\<close>. It computes the length of the whole element and
  that of its header; \<open>header_len\<close> counts the bytes up to and including the length byte, and
  \<open>rest\<close> is the header window after it.\<close>

definition element_length ::
    "bool \<Rightarrow> u32 \<Rightarrow> u8 \<Rightarrow> nat \<Rightarrow> cbs \<Rightarrow> (nat \<times> nat) option" where
  "element_length ber_ok tag length_byte header_len rest =
    (if length_byte AND 0x80 = 0 then Some (unat length_byte + header_len, header_len)
     else let num_bytes = unat (length_byte AND 0x7f)
       in if ber_ok \<and> tag AND CBS_ASN1_CONSTRUCTED \<noteq> 0 \<and> num_bytes = 0
          then Some (header_len, header_len)
          else if num_bytes = 0 \<or> num_bytes > 4 then None
          else case cbs_get_u num_bytes rest of
              (None, _) \<Rightarrow> None
            | (Some len64, _) \<Rightarrow>
                if len64 < 128 then None
                else if drop_bit ((num_bytes - 1) * 8) len64 = 0 then None
                else let len = unat len64
                  in if size_add len (header_len + num_bytes) < len then None
                     else Some (size_add len (header_len + num_bytes), header_len + num_bytes))"

text \<open>The header is parsed on a copy of the window, so that a failure leaves the window as it
  was. The result is the whole element, its tag and the length of its header.\<close>

definition cbs_get_any_asn1_element :: "bool \<Rightarrow> (cbs \<times> u32 \<times> nat) reader" where
  "cbs_get_any_asn1_element ber_ok cbs =
    (case parse_asn1_tag cbs of (None, _) \<Rightarrow> (None, cbs) | (Some tag, header) \<Rightarrow>
     (case CBS_get_u8 header of (None, _) \<Rightarrow> (None, cbs) | (Some length_byte, header) \<Rightarrow>
       let header_len = length cbs - length header
       in case element_length ber_ok tag length_byte header_len header of
            None \<Rightarrow> (None, cbs)
          | Some (len, hl) \<Rightarrow> and_then (CBS_get_bytes len) (\<lambda>out cbs. (Some (out, tag, hl), cbs)) cbs))"

definition CBS_get_any_asn1_element :: "(cbs \<times> u32 \<times> nat) reader" where
  "CBS_get_any_asn1_element = cbs_get_any_asn1_element False"

definition CBS_get_any_ber_asn1_element :: "(cbs \<times> u32 \<times> nat) reader" where
  "CBS_get_any_ber_asn1_element = cbs_get_any_asn1_element True"

text \<open>\<open>CBS_skip(out, header_len)\<close> after a successful read.\<close>

definition CBS_get_any_asn1 :: "(cbs \<times> u32) reader" where
  "CBS_get_any_asn1 = and_then CBS_get_any_asn1_element (\<lambda>(out, tag, header_len) cbs.
     (case CBS_skip header_len out of (None, _) \<Rightarrow> (None, cbs) | (Some _, out) \<Rightarrow> (Some (out, tag), cbs)))"

definition cbs_get_asn1 :: "u32 \<Rightarrow> bool \<Rightarrow> cbs reader" where
  "cbs_get_asn1 tag_value skip_header = and_then CBS_get_any_asn1_element (\<lambda>(out, tag, header_len) cbs.
     if tag \<noteq> tag_value then (None, cbs)
     else if skip_header
     then (case CBS_skip header_len out of (None, _) \<Rightarrow> (None, cbs) | (Some _, out) \<Rightarrow> (Some out, cbs))
     else (Some out, cbs))"

definition CBS_get_asn1 :: "u32 \<Rightarrow> cbs reader" where
  "CBS_get_asn1 tag_value = cbs_get_asn1 tag_value True"

definition CBS_get_asn1_element :: "u32 \<Rightarrow> cbs reader" where
  "CBS_get_asn1_element tag_value = cbs_get_asn1 tag_value False"

definition CBS_peek_asn1_tag :: "u32 \<Rightarrow> cbs \<Rightarrow> bool" where
  "CBS_peek_asn1_tag tag_value cbs =
    (if length cbs < 1 then False else fst (parse_asn1_tag cbs) = Some tag_value)"

section \<open>Values\<close>

fun asn1_uint64_loop :: "u64 \<Rightarrow> bytes \<Rightarrow> u64 option" where
  "asn1_uint64_loop out [] = Some out"
| "asn1_uint64_loop out (d # data) =
     (if drop_bit 56 out \<noteq> 0 then None
      else asn1_uint64_loop (push_bit 8 out OR ucast d) data)"

definition asn1_uint64_contents :: "bytes \<Rightarrow> u64 option" where
  "asn1_uint64_contents data =
    (if length data = 0 then None
     else if data ! 0 AND 0x80 \<noteq> 0 then None
     else if data ! 0 = 0 \<and> length data > 1 \<and> data ! 1 AND 0x80 = 0 then None
     else asn1_uint64_loop 0 data)"

definition CBS_get_asn1_uint64 :: "u64 reader" where
  "CBS_get_asn1_uint64 = and_then (CBS_get_asn1 CBS_ASN1_INTEGER)
     (\<lambda>data cbs. (asn1_uint64_contents data, cbs))"

text \<open>\<open>int64_t\<close> is the word of its two's complement bits. The union of the C code is read on a
  little-endian machine: byte \<open>i\<close> of the union is digit \<open>i\<close> of the number, which starts as
  the sign byte everywhere.\<close>

definition le_u64 :: "bytes \<Rightarrow> u64" where
  "le_u64 bs = foldr (\<lambda>b v. push_bit 8 v OR ucast b) bs 0"

definition asn1_int64_contents :: "bytes \<Rightarrow> u64 option" where
  "asn1_int64_contents data =
    (if length data = 0 \<or> length data > 8 then None
     else if length data > 1 \<and> data ! 0 = 0 \<and> data ! 1 AND 0x80 = 0 then None
     else if length data > 1 \<and> data ! 0 = 0xff \<and> data ! 1 AND 0x80 \<noteq> 0 then None
     else let fill = (if data ! 0 AND 0x80 \<noteq> 0 then 0xff else 0)
          in Some (le_u64 (write_at (replicate 8 fill) 0 (rev data))))"

definition CBS_get_asn1_int64 :: "u64 reader" where
  "CBS_get_asn1_int64 = and_then (CBS_get_asn1 CBS_ASN1_INTEGER)
     (\<lambda>data cbs. (asn1_int64_contents data, cbs))"

definition asn1_bool_contents :: "bytes \<Rightarrow> bool option" where
  "asn1_bool_contents data =
    (if length data \<noteq> 1 then None
     else if data ! 0 \<noteq> 0 \<and> data ! 0 \<noteq> 0xff then None
     else Some (data ! 0 \<noteq> 0))"

definition CBS_get_asn1_bool :: "bool reader" where
  "CBS_get_asn1_bool = and_then (CBS_get_asn1 CBS_ASN1_BOOLEAN)
     (\<lambda>data cbs. (asn1_bool_contents data, cbs))"

text \<open>An optional element: \<open>Some None\<close> is success with \<open>out_present = 0\<close>.\<close>

definition CBS_get_optional_asn1 :: "u32 \<Rightarrow> cbs option reader" where
  "CBS_get_optional_asn1 tag cbs =
    (if CBS_peek_asn1_tag tag cbs then and_then (CBS_get_asn1 tag) (\<lambda>out cbs. (Some (Some out), cbs)) cbs
     else (Some None, cbs))"

definition CBS_get_optional_asn1_octet_string :: "u32 \<Rightarrow> (cbs \<times> bool) reader" where
  "CBS_get_optional_asn1_octet_string tag = and_then (CBS_get_optional_asn1 tag) (\<lambda>child cbs.
    (case child of None \<Rightarrow> (Some ([], False), cbs)
     | Some child \<Rightarrow>
        (case CBS_get_asn1 CBS_ASN1_OCTETSTRING child of
           (Some out, child) \<Rightarrow> (if length child \<noteq> 0 then None else Some (out, True), cbs)
         | (None, _) \<Rightarrow> (None, cbs))))"

definition CBS_get_optional_asn1_uint64 :: "u32 \<Rightarrow> u64 \<Rightarrow> u64 reader" where
  "CBS_get_optional_asn1_uint64 tag default_value = and_then (CBS_get_optional_asn1 tag) (\<lambda>child cbs.
    (case child of None \<Rightarrow> (Some default_value, cbs)
     | Some child \<Rightarrow>
        (case CBS_get_asn1_uint64 child of
           (Some out, child) \<Rightarrow> (if length child \<noteq> 0 then None else Some out, cbs)
         | (None, _) \<Rightarrow> (None, cbs))))"

definition CBS_get_optional_asn1_bool :: "u32 \<Rightarrow> int \<Rightarrow> int reader" where
  "CBS_get_optional_asn1_bool tag default_value = and_then (CBS_get_optional_asn1 tag) (\<lambda>child cbs.
    (case child of None \<Rightarrow> (Some default_value, cbs)
     | Some child \<Rightarrow>
        (case CBS_get_asn1 CBS_ASN1_BOOLEAN child of
           (Some child2, child) \<Rightarrow>
             (if length child2 \<noteq> 1 \<or> length child \<noteq> 0 then None
              else if child2 ! 0 = 0 then Some 0
              else if child2 ! 0 = 0xff then Some 1 else None, cbs)
         | (None, _) \<Rightarrow> (None, cbs))))"

definition CBS_is_valid_asn1_bitstring :: "cbs \<Rightarrow> bool" where
  "CBS_is_valid_asn1_bitstring cbs =
    (case CBS_get_u8 cbs of (None, _) \<Rightarrow> False
     | (Some num_unused_bits, cbs) \<Rightarrow>
        if num_unused_bits > 7 then False
        else if num_unused_bits = 0 then True
        else (case CBS_get_last_u8 cbs of (None, _) \<Rightarrow> False
              | (Some l, _) \<Rightarrow> l AND (push_bit (unat num_unused_bits) 1 - 1) = 0))"

definition CBS_asn1_bitstring_has_bit :: "cbs \<Rightarrow> u32 \<Rightarrow> bool" where
  "CBS_asn1_bitstring_has_bit cbs bit_pos =
    (if \<not> CBS_is_valid_asn1_bitstring cbs then False
     else let byte_num = unat (drop_bit 3 bit_pos + 1); bit_num = unat (7 - (bit_pos AND 7))
          in byte_num < length cbs \<and> cbs ! byte_num AND push_bit bit_num 1 \<noteq> 0)"

section \<open>What the readers accept\<close>

lemma cbs_get_Some [simp]:
  "cbs_get n cbs = (Some d, cbs') \<longleftrightarrow> length d = n \<and> cbs = d @ cbs'"
  by (auto simp: cbs_get_def)

lemma cbs_get_None: "cbs_get n cbs = (None, cbs') \<longleftrightarrow> length cbs < n \<and> cbs' = cbs"
  by (auto simp: cbs_get_def)

lemma CBS_get_u8_Some [simp]: "CBS_get_u8 cbs = (Some b, cbs') \<longleftrightarrow> cbs = b # cbs'"
  by (cases cbs) auto

lemma CBS_get_bytes_Some [simp]:
  "CBS_get_bytes n cbs = (Some d, cbs') \<longleftrightarrow> length d = n \<and> cbs = d @ cbs'"
  by (auto simp: CBS_get_bytes_def and_then_eq_Some)

lemma CBS_skip_Some [simp]:
  "CBS_skip n cbs = (Some u, cbs') \<longleftrightarrow> n \<le> length cbs \<and> cbs' = drop n cbs"
  by (auto simp: CBS_skip_def and_then_eq_Some intro: exI [of _ "take n cbs"])

lemma foldl_be_u64:
  "length d \<le> 8 \<Longrightarrow> foldl (\<lambda>r b. push_bit 8 r OR ucast b) (0 :: u64) d = of_nat (be_val d)"
proof (induction d rule: rev_induct)
  case (snoc b d)
  have less: "be_val d * 256 + unat b < 2 ^ 64"
  proof -
    have "be_val (d @ [b]) < 256 ^ length (d @ [b])" by (rule be_val_less)
    also have "\<dots> \<le> (256 :: nat) ^ 8" using snoc.prems by (intro power_increasing) auto
    finally show ?thesis by simp
  qed
  have u: "unat (of_nat (be_val d) :: u64) = be_val d"
    using less by (simp add: unat_of_nat)
  have "unat (push_bit 8 (of_nat (be_val d)) OR ucast b :: u64) = be_val d * 256 + unat b"
    using less u by (subst unat_push_or) (simp_all add: unsigned_ucast_eq take_bit_nat_eq_self)
  then have "push_bit 8 (of_nat (be_val d)) OR ucast b = (of_nat (be_val d * 256 + unat b) :: u64)"
    using less by (simp only: word_unat_eq_iff unat_of_nat) simp
  then show ?case using snoc by simp
qed simp

lemma cbs_get_u_Some:
  "n \<le> 8 \<Longrightarrow> cbs_get_u n cbs = (Some v, cbs') \<longleftrightarrow>
    (\<exists>d. length d = n \<and> cbs = d @ cbs' \<and> v = of_nat (be_val d))"
  by (auto simp: cbs_get_u_def and_then_eq_Some foldl_be_u64)

lemma unat_be_val_u64: "length d \<le> 8 \<Longrightarrow> unat (of_nat (be_val d) :: u64) = be_val d"
proof -
  assume "length d \<le> 8"
  then have "(256 :: nat) ^ length d \<le> 256 ^ 8" by (intro power_increasing) auto
  with be_val_less [of d] have "be_val d < 2 ^ 64" by simp
  then show ?thesis by (simp add: unat_of_nat)
qed

lemma cbs_get_u_iff:
  assumes "n \<le> 8"
  shows "cbs_get_u n cbs = (Some v, cbs') \<longleftrightarrow>
    unat v < 256 ^ n \<and> cbs = be_bytes n (unat v) @ cbs'" (is "?L \<longleftrightarrow> ?R")
proof
  assume ?L
  then obtain d where d: "length d = n" "cbs = d @ cbs'" "v = of_nat (be_val d)"
    using assms by (auto simp: cbs_get_u_Some)
  then have "unat v = be_val d" using assms by (simp add: unat_be_val_u64)
  then show ?R using d be_val_less [of d] be_bytes_be_val [of d] by simp
next
  assume ?R
  then show ?L using assms
    by (auto simp: cbs_get_u_Some be_val_be_bytes intro!: exI [of _ "be_bytes n (unat v)"])
qed

text \<open>Base-128 numbers.\<close>

lemma base128_shift:
  assumes "drop_bit 57 (v :: u64) = 0"
  shows "unat (push_bit 7 v OR ucast (b AND 0x7f :: u8)) = unat v * 128 + unat b mod 128"
proof -
  have v: "unat v < 2 ^ 57" using assms by (simp add: drop_bit_eq_0_iff)
  have b: "unat (ucast (b AND 0x7f :: u8) :: u64) = unat b mod 128"
    by (simp add: unsigned_ucast_eq unat_and_7F take_bit_nat_eq_self)
  have "unat b mod 128 < 128" by simp
  then show ?thesis using v b by (subst unat_push_or) (simp_all)
qed

lemma base128_loop_Cons:
  "base128_loop v (b # cbs) =
    (if drop_bit 57 v \<noteq> 0 \<or> v = 0 \<and> b = 0x80 then (None, cbs)
     else if unat b < 128 then (Some (push_bit 7 v OR ucast (b AND 0x7f)), cbs)
     else base128_loop (push_bit 7 v OR ucast (b AND 0x7f)) cbs)"
  by (auto simp: and_0x80_eq_0)

declare base128_loop.simps(2) [simp del]

lemma base128_loop_step:
  assumes "drop_bit 57 v = 0" "\<not> (v = 0 \<and> b = 0x80)"
    "push_bit 7 v OR ucast (b AND 0x7f) = v'"
  shows "base128_loop v (b # cbs) = (if unat b < 128 then (Some v', cbs) else base128_loop v' cbs)"
  using assms by (auto simp: base128_loop_Cons)

lemma base128_loop_sound:
  assumes "base128_loop v cbs = (Some w, cbs')"
  shows "\<exists>d. cbs = d @ cbs' \<and> base128_high (unat v) @ d = base128 (unat w)"
  using assms
proof (induction cbs arbitrary: v)
  case (Cons b cbs)
  define v' :: u64 where "v' = push_bit 7 v OR ucast (b AND 0x7f)"
  have v0: "drop_bit 57 v = 0" and nz: "\<not> (v = 0 \<and> b = 0x80)"
    using Cons.prems by (auto simp: base128_loop_Cons split: if_splits)
  have v': "unat v' = unat v * 128 + unat b mod 128"
    unfolding v'_def by (rule base128_shift [OF v0])
  have loop: "(if unat b < 128 then (Some v', cbs) else base128_loop v' cbs) = (Some w, cbs')"
    using Cons.prems base128_loop_step [OF v0 nz v'_def [symmetric], of cbs] by (simp only:)
  show ?case
  proof (cases "unat b < 128")
    case True
    then have "w = v'" "cbs = cbs'" using loop by simp_all
    moreover have "base128 (unat v') = base128_high (unat v) @ [b]"
      using v' True base128_step [of "unat b" "unat v"] by simp
    ultimately show ?thesis by auto
  next
    case False
    then have "base128_loop v' cbs = (Some w, cbs')" using loop by simp
    then obtain d where d: "cbs = d @ cbs'" "base128_high (unat v') @ d = base128 (unat w)"
      using Cons.IH by blast
    have b: "unat b = 128 + unat b mod 128"
      using False unat_u8_less [of b] by (intro mod_128_high) simp_all
    have "0 < unat v * 128 + unat b mod 128"
    proof (rule ccontr)
      assume "\<not> ?thesis"
      then have "unat v = 0" "unat b mod 128 = 0" by simp_all
      then have "unat v = 0" "unat b = 128" using b by linarith+
      then have "v = 0 \<and> b = 0x80" by (simp add: word_unat_eq_iff)
      then show False using nz by blast
    qed
    then have "base128_high (unat v') = base128_high (unat v) @ [of_nat (128 + unat b mod 128)]"
      unfolding v' by (intro base128_high_step) simp_all
    also have "(of_nat (128 + unat b mod 128) :: u8) = of_nat (unat b)"
      by (simp only: b [symmetric])
    also have "\<dots> = b" by simp
    finally have "base128_high (unat v') = base128_high (unat v) @ [b]" .
    then show ?thesis using d by auto
  qed
qed simp

lemma base128_loop_high:
  "n < 2 ^ 64 \<Longrightarrow> base128_loop 0 (base128_high n @ rest) = base128_loop (of_nat n) rest"
proof (induction n arbitrary: rest rule: less_induct)
  case (less n)
  show ?case
  proof (cases "n = 0")
    case False
    define m d where "m = n div 128" and "d = n mod 128"
    have n: "n = m * 128 + d" "d < 128" by (simp_all add: m_def d_def)
    have m: "m < 2 ^ 57" using less.prems div_128_lt [of n] by (simp add: m_def)
    have mn: "m < n" using n False by linarith
    have um: "unat (of_nat m :: u64) = m" using m by (simp add: unat_of_nat)
    have ub: "unat (of_nat (128 + d) :: u8) = 128 + d" using n(2) by (intro unat_of_nat_u8) simp
    have v0: "drop_bit 57 (of_nat m :: u64) = 0" using m um by (simp add: drop_bit_eq_0_iff)
    have nz: "\<not> ((of_nat m :: u64) = 0 \<and> (of_nat (128 + d) :: u8) = 0x80)"
    proof
      assume z: "(of_nat m :: u64) = 0 \<and> (of_nat (128 + d) :: u8) = 0x80"
      have "m = unat (0 :: u64)" using z um by (simp only:)
      moreover have "128 + d = unat (0x80 :: u8)" using z ub by (simp only:)
      ultimately show False using n False by simp
    qed
    have "unat (push_bit 7 (of_nat m) OR ucast (of_nat (128 + d) AND 0x7f :: u8) :: u64) = n"
      using base128_shift [OF v0, of "of_nat (128 + d)"] um ub n by simp
    then have v': "(push_bit 7 (of_nat m) OR ucast (of_nat (128 + d) AND 0x7f :: u8) :: u64) = of_nat n"
      by (rule word_eq_of_nat)
    have "base128_high n = base128_high m @ [of_nat (128 + d)]"
      using base128_high_step [of d m] n False by simp
    then have "base128_loop 0 (base128_high n @ rest) = base128_loop (of_nat m) (of_nat (128 + d) # rest)"
      using less.IH [of m] mn m by simp
    also have "\<dots> = base128_loop (of_nat n) rest"
      using ub by (simp only: base128_loop_step [OF v0 nz v']) simp
    finally show ?thesis .
  qed simp
qed

lemma parse_base128_integer_iff:
  "parse_base128_integer cbs = (Some v, cbs') \<longleftrightarrow> cbs = base128 (unat v) @ cbs'"
proof
  assume "parse_base128_integer cbs = (Some v, cbs')"
  then show "cbs = base128 (unat v) @ cbs'"
    using base128_loop_sound [of 0 cbs v cbs'] by (auto simp: parse_base128_integer_def)
next
  assume cbs: "cbs = base128 (unat v) @ cbs'"
  define m d where "m = unat v div 128" and "d = unat v mod 128"
  have n: "unat v = m * 128 + d" "d < 128" by (simp_all add: m_def d_def)
  have m: "m < 2 ^ 57" using unat_u64_less [of v] div_128_lt [of "unat v"] by (simp add: m_def)
  have um: "unat (of_nat m :: u64) = m" using m by (simp add: unat_of_nat)
  have ub: "unat (of_nat d :: u8) = d" using n(2) by (simp add: unat_of_nat)
  have v0: "drop_bit 57 (of_nat m :: u64) = 0" using m um by (simp add: drop_bit_eq_0_iff)
  have b: "(of_nat d :: u8) \<noteq> 0x80" 
  proof
    assume "(of_nat d :: u8) = 0x80"
    then have "d = unat (0x80 :: u8)" using ub by (simp only:)
    then show False using n(2) by simp
  qed
  have "unat (push_bit 7 (of_nat m) OR ucast (of_nat d AND 0x7f :: u8) :: u64) = unat v"
    using base128_shift [OF v0, of "of_nat d"] um ub n by simp
  then have v': "(push_bit 7 (of_nat m) OR ucast (of_nat d AND 0x7f :: u8) :: u64) = v"
    by (simp only: word_unat_eq_iff)
  have "parse_base128_integer cbs = base128_loop (of_nat m) (of_nat d # cbs')"
    using m base128_step [OF n(2), of m] by (simp add: cbs n(1) parse_base128_integer_def base128_loop_high)
  also have "\<dots> = (Some v, cbs')"
    using ub n(2) b base128_loop_step [OF v0 _ v'] by simp
  finally show "parse_base128_integer cbs = (Some v, cbs')" .
qed

text \<open>Identifier octets.\<close>

lemma tag_bits: "push_bit 24 (ucast (b :: u8) AND 0xe0 :: u32) = push_bit 29 (ucast (drop_bit 5 b))"
proof -
  have e: "(0xe0 :: u32) = push_bit 5 (mask 3)" by (simp add: mask_eq_exp_minus_1)
  have "ucast b AND (0xe0 :: u32) = push_bit 5 (ucast (drop_bit 5 b))"
    unfolding e by (rule bit_word_eqI) (auto simp: bit_simps dest: bit_imp_le_length)
  then show ?thesis by simp
qed

lemma unat_tag_bits_or:
  fixes b :: u8
  assumes "unat w < 2 ^ 29"
  shows "unat (push_bit 24 (ucast b AND 0xe0) OR w :: u32) = unat b div 32 * 2 ^ 29 + unat w"
proof -
  have u: "unat (ucast (drop_bit 5 b) :: u32) = unat b div 32"
  proof -
    have "unat b div 32 < 256" using unat_u8_less [of b] by (rule le_less_trans [OF div_le_dividend])
    then show ?thesis
      by (simp add: unsigned_ucast_eq unat_drop_bit_div take_bit_nat_eq_self)
  qed
  have "unat b div 32 < 8" using unat_u8_less [of b] by (subst div_less_iff_less_mult) simp_all
  then have "unat b div 32 * 2 ^ 29 + unat w < 8 * 2 ^ 29" using assms by simp
  then show ?thesis unfolding tag_bits using assms u by (subst unat_push_or) simp_all
qed

lemma unat_and_1F: "unat ((b :: u8) AND 0x1f) = unat b mod 32"
  using unat_and_mask [of b 5] by (simp add: mask_eq_exp_minus_1)

lemma low_tag_number:
  "unat (ucast ((b :: u8) AND 0x1f) :: u32) = unat b mod 32"
  by (simp add: unsigned_ucast_eq unat_and_1F take_bit_nat_eq_self)

lemma tag_parts:
  assumes "unat t = c * 2 ^ 29 + n" "n < 2 ^ 29"
  shows "tag_class t = c" "tag_number t = n"
  using assms by (simp_all add: tag_class_def tag_number_def)

lemma parse_asn1_tag_alt:
  "parse_asn1_tag (b # cbs) =
    (if unat b mod 32 = 31
     then and_then parse_base128_integer (\<lambda>v cbs.
            if unat v < 2 ^ 29 \<and> 31 \<le> unat v
            then (Some (push_bit 24 (ucast b AND 0xe0) OR ucast v), cbs) else (None, cbs)) cbs
     else (Some (push_bit 24 (ucast b AND 0xe0) OR ucast (b AND 0x1f)), cbs))"
proof -
  have "ucast (b AND 0x1f) = (0x1f :: u32) \<longleftrightarrow> unat b mod 32 = 31"
    by (simp add: word_unat_eq_iff low_tag_number)
  moreover have "v > ucast CBS_ASN1_TAG_NUMBER_MASK \<or> v < 0x1f \<longleftrightarrow> \<not> (unat v < 2 ^ 29 \<and> 31 \<le> unat v)"
    for v :: u64
    by (auto simp: word_less_nat_alt CBS_ASN1_TAG_NUMBER_MASK_def)
  ultimately show ?thesis
    unfolding parse_asn1_tag_def by (auto simp: and_then_def Let_def split: prod.split option.split)
qed


lemma parse_asn1_tag_iff:
  "parse_asn1_tag cbs = (Some t, cbs') \<longleftrightarrow> cbs = der_tag t @ cbs'"
proof
  assume "parse_asn1_tag cbs = (Some t, cbs')"
  moreover from this obtain b r where cbs: "cbs = b # r"
    by (cases cbs) (auto simp: parse_asn1_tag_def and_then_def)
  ultimately have p: "parse_asn1_tag (b # r) = (Some t, cbs')" by simp
  have bdiv: "unat b div 32 * 32 + unat b mod 32 = unat b" by simp
  show "cbs = der_tag t @ cbs'"
  proof (cases "unat b mod 32 = 31")
    case True
    then obtain v where v: "parse_base128_integer r = (Some v, cbs')" "unat v < 2 ^ 29"
        "31 \<le> unat v" "t = push_bit 24 (ucast b AND 0xe0) OR ucast v"
      using p unfolding parse_asn1_tag_alt
      by (auto simp: and_then_eq_Some split: if_splits)
    have "unat (ucast v :: u32) = unat v"
      using v(2) by (simp add: unsigned_ucast_eq take_bit_nat_eq_self)
    then have "unat t = unat b div 32 * 2 ^ 29 + unat v"
      using v(2,4) by (simp only: unat_tag_bits_or)
    note parts = tag_parts [OF this v(2)]
    have "der_tag t = of_nat (unat b) # base128 (unat v)"
      using v(3) bdiv True by (simp only: der_tag_def parts) (simp add: True)
    then show ?thesis using v(1) cbs by (simp add: parse_base128_integer_iff)
  next
    case False
    then have t: "t = push_bit 24 (ucast b AND 0xe0) OR ucast (b AND 0x1f)" and r: "r = cbs'"
      using p by (simp_all add: parse_asn1_tag_alt)
    have n: "unat b mod 32 < 2 ^ 29" by (rule less_le_trans [of _ 32]) simp_all
    have "unat t = unat b div 32 * 2 ^ 29 + unat b mod 32"
      using n unfolding t by (subst unat_tag_bits_or) (simp_all only: low_tag_number)
    note parts = tag_parts [OF this n]
    have "unat b mod 32 < 31" using False mod_less_divisor [of 32 "unat b"] by linarith
    then have "der_tag t = [of_nat (unat b)]"
      by (simp only: der_tag_def parts if_True bdiv)
    then show ?thesis using cbs r by simp
  qed
next
  assume cbs: "cbs = der_tag t @ cbs'"
  define c n where "c = tag_class t" and "n = tag_number t"
  have c: "c < 8" and n: "n < 2 ^ 29" and t: "unat t = c * 2 ^ 29 + n"
    using tag_class_less [of t] tag_number_less [of t] tag_split [of t] by (simp_all add: c_def n_def)
  show "parse_asn1_tag cbs = (Some t, cbs')"
  proof (cases "n < 31")
    case True
    define b :: u8 where "b = of_nat (c * 32 + n)"
    have b: "unat b = c * 32 + n" using c True unfolding b_def by (intro unat_of_nat_u8) simp
    then have bd: "unat b div 32 = c" "unat b mod 32 = n" using True by simp_all
    have "unat (push_bit 24 (ucast b AND 0xe0) OR ucast (b AND 0x1f) :: u32) = unat t"
      using n bd t by (subst unat_tag_bits_or) (simp_all only: low_tag_number)
    then have "push_bit 24 (ucast b AND 0xe0) OR ucast (b AND 0x1f) = t"
      by (simp only: word_unat_eq_iff)
    moreover have "cbs = b # cbs'"
      using True by (simp add: cbs der_tag_def b_def flip: c_def n_def)
    ultimately show ?thesis
      using True bd by (simp add: parse_asn1_tag_alt)
  next
    case False
    define b :: u8 where "b = of_nat (c * 32 + 31)"
    have b: "unat b = c * 32 + 31" using c unfolding b_def by (intro unat_of_nat_u8) simp
    then have bd: "unat b div 32 = c" "unat b mod 32 = 31" by simp_all
    define v :: u64 where "v = of_nat n"
    have v: "unat v = n" using n by (simp add: v_def unat_of_nat)
    have "unat (ucast v :: u32) = n"
      using v n by (simp add: unsigned_ucast_eq take_bit_nat_eq_self)
    then have "unat (push_bit 24 (ucast b AND 0xe0) OR ucast v :: u32) = unat t"
      using n bd t by (subst unat_tag_bits_or) simp_all
    then have eq: "push_bit 24 (ucast b AND 0xe0) OR ucast v = t"
      by (simp only: word_unat_eq_iff)
    have "cbs = b # base128 (unat v) @ cbs'"
      using False by (simp add: cbs der_tag_def v b_def flip: c_def n_def)
    moreover have "parse_base128_integer (base128 (unat v) @ cbs') = (Some v, cbs')"
      by (simp add: parse_base128_integer_iff)
    ultimately show ?thesis
      using False bd v n eq by (simp add: parse_asn1_tag_alt)
  qed
qed

text \<open>Length octets and whole elements.\<close>

lemma element_length_short:
  "unat b < 128 \<Longrightarrow> element_length ber t b h rest = Some (unat b + h, h)"
  by (simp add: element_length_def and_0x80_eq_0)

lemma len_bytes_bounds:
  assumes "128 \<le> n" "n < 2 ^ 32"
  shows "1 \<le> len_bytes n" "len_bytes n \<le> 4" "n < 256 ^ len_bytes n"
    "256 ^ (len_bytes n - 1) \<le> n"
  using assms by (auto simp: len_bytes_def)

lemma len_bytes_unique:
  assumes "128 \<le> n" "n < 256 ^ k" "256 ^ (k - 1) \<le> n" "1 \<le> k" "k \<le> 4"
  shows "len_bytes n = k"
proof -
  have "k = 1 \<or> k = 2 \<or> k = 3 \<or> k = 4" using assms by auto
  then show ?thesis using assms by (auto simp: len_bytes_def)
qed

lemma element_length_long:
  assumes "128 \<le> unat b" "h \<le> 100"
  shows "element_length False t b h rest = Some (l, hl) \<longleftrightarrow>
    (\<exists>n rest'. 128 \<le> n \<and> n < 2 ^ 32 \<and> b # rest = der_len n @ rest' \<and>
       hl = h + len_bytes n \<and> l = hl + n)" (is "?L \<longleftrightarrow> ?R")
proof -
  define k where "k = unat b - 128"
  have b: "unat b = 128 + k" using assms(1) by (simp add: k_def)
  have k: "unat (b AND 0x7f) = k"
    using b unat_u8_less [of b] by (simp add: unat_and_7F)
  have beq: "b = of_nat (128 + m) \<longleftrightarrow> k = m" if "m < 128" for m
    using that b unat_of_nat_u8 [of "128 + m"] by (auto simp: word_unat_eq_iff simp del: of_nat_add)
  have step: "element_length False t b h rest =
      (if k = 0 \<or> k > 4 then None
       else case cbs_get_u k rest of (None, _) \<Rightarrow> None
         | (Some v, _) \<Rightarrow> if v < 128 then None else if drop_bit ((k - 1) * 8) v = 0 then None
             else if size_add (unat v) (h + k) < unat v then None
                  else Some (size_add (unat v) (h + k), h + k))"
    using assms(1) k unfolding element_length_def Let_def k by (simp add: and_0x80_eq_0)
  have ok: "v < 128 \<longleftrightarrow> unat v < 128" for v :: u64 by (simp add: word_less_nat_alt)
  have size: "size_add (unat v) (h + k) = unat v + (h + k)" if "unat v < 2 ^ 32" "k \<le> 4" for v :: u64
    using that assms(2) by (intro size_add_small) simp
  have small: "unat v < 2 ^ 32" if "unat v < 256 ^ k" "k \<le> 4" for v :: u64
  proof -
    have "(256 :: nat) ^ k \<le> 256 ^ 4" using that by (intro power_increasing) auto
    then show ?thesis using that by simp
  qed
  have pw: "(2 :: nat) ^ ((k - 1) * 8) = 256 ^ (k - 1)" by (simp only: mult.commute [of _ 8] power_mult) simp
  show ?thesis
  proof
    assume L: ?L
    then have kk: "1 \<le> k" "k \<le> 4" unfolding step by (simp_all split: if_splits)
    obtain v r where v: "cbs_get_u k rest = (Some v, r)"
      using L kk unfolding step by (cases "cbs_get_u k rest") (auto split: option.splits)
    with L kk have "(if v < 128 then None else if drop_bit ((k - 1) * 8) v = 0 then None
        else if size_add (unat v) (h + k) < unat v then None
        else Some (size_add (unat v) (h + k), h + k)) = Some (l, hl)"
      unfolding step by simp
    then have v2: "128 \<le> unat v" and v3: "256 ^ (k - 1) \<le> unat v"
      and l: "l = size_add (unat v) (h + k)" "hl = h + k"
      unfolding ok drop_bit_eq_0_iff pw by (auto split: if_splits)
    note v = v v2 v3
    have u: "unat v < 256 ^ k" "rest = be_bytes k (unat v) @ r"
      using v kk by (simp_all add: cbs_get_u_iff)
    note sm = small [OF u(1) kk(2)]
    have "len_bytes (unat v) = k" using v u kk by (intro len_bytes_unique) simp_all
    then show ?R using v(2) sm l u kk beq [of k] size [OF sm kk(2)]
      by (intro exI [of _ "unat v"] exI [of _ r]) (simp add: der_len_def del: of_nat_add)
  next
    assume ?R
    then obtain n r where n: "128 \<le> n" "n < 2 ^ 32" and r: "b # rest = der_len n @ r"
      and hl: "hl = h + len_bytes n" "l = hl + n" by blast
    note lb = len_bytes_bounds [OF n]
    have "b = of_nat (128 + len_bytes n)" and rest: "rest = be_bytes (len_bytes n) n @ r"
      using r n(1) by (simp_all add: der_len_def)
    then have kn: "k = len_bytes n" using lb(2) beq [of "len_bytes n"] by simp
    define v :: u64 where "v = of_nat n"
    have v: "unat v = n" using n(2) by (simp add: v_def unat_of_nat)
    have "cbs_get_u k rest = (Some v, r)"
      using lb kn v rest by (simp add: cbs_get_u_iff)
    then show ?L using lb kn v n hl size [of v] pw
      by (simp add: step ok drop_bit_eq_0_iff not_less)
  qed
qed
lemma length_base128_high: "n < 128 ^ k \<Longrightarrow> length (base128_high n) \<le> k"
proof (induction k arbitrary: n)
  case (Suc k)
  show ?case
  proof (cases "n = 0")
    case False
    have "n div 128 < 128 ^ k" using Suc.prems by (subst div_less_iff_less_mult) simp_all
    then show ?thesis using Suc.IH [of "n div 128"] False by (subst base128_high.simps) simp
  qed simp
qed simp

lemma length_der_tag: "length (der_tag t) \<le> 10"
proof -
  have "tag_number t div 128 < 128 ^ 4"
    using tag_number_less [of t] by (subst div_less_iff_less_mult) simp_all
  then have "length (base128_high (tag_number t div 128)) \<le> 4" by (rule length_base128_high)
  then show ?thesis by (simp add: der_tag_def base128_def)
qed

lemma element_length_iff:
  assumes "h \<le> 100"
  shows "element_length False t b h rest = Some (l, hl) \<longleftrightarrow>
    (\<exists>n rest'. n < 2 ^ 32 \<and> b # rest = der_len n @ rest' \<and>
       hl + 1 = h + length (der_len n) \<and> l = hl + n)"
proof (cases "unat b < 128")
  case True
  have key: "b # rest = der_len n @ rest' \<longleftrightarrow> n = unat b \<and> rest' = rest" if "n < 2 ^ 32" for n rest'
  proof
    assume eq: "b # rest = der_len n @ rest'"
    show "n = unat b \<and> rest' = rest"
    proof (cases "n < 128")
      case False
      then have "b = of_nat (128 + len_bytes n)" "len_bytes n \<le> 4"
        using eq that len_bytes_bounds [of n] by (simp_all add: der_len_def)
      then have "unat b = 128 + len_bytes n" by (simp add: unat_of_nat_u8 del: of_nat_add)
      then show ?thesis using True by simp
    next
      case True
      then show ?thesis using eq by (simp add: der_len_def unat_of_nat_u8)
    qed
  next
    assume "n = unat b \<and> rest' = rest"
    then show "b # rest = der_len n @ rest'" using True by (simp add: der_len_def)
  qed
  have one: "length (der_len (unat b)) = 1" using True by (simp add: der_len_def)
  have "unat b < 2 ^ 32" using True by simp
  then show ?thesis
    using True one by (auto simp: element_length_short key cong: conj_cong)
next
  case False
  have key: "128 \<le> n" if "b # rest = der_len n @ rest'" for n rest'
    using that False by (auto simp: der_len_def unat_of_nat_u8 split: if_splits)
  have len: "length (der_len n) = Suc (len_bytes n)" if "128 \<le> n" for n
    using that by (simp add: der_len_def)
  show ?thesis
    unfolding element_length_long [OF False [unfolded not_less] assms]
    by (intro ex_cong1) (auto simp: len dest: key)
qed

text \<open>A reader of the DER kind accepts an element, and only an element, in its one canonical
  spelling.\<close>

lemma CBS_get_any_asn1_element_iff:
  "CBS_get_any_asn1_element cbs = (Some (out, t, hl), cbs') \<longleftrightarrow>
    (\<exists>c. length c < 2 ^ 32 \<and> out = der_elem t c \<and> hl = length (der_header t (length c)) \<and>
      cbs = out @ cbs')" (is "?L \<longleftrightarrow> ?R")
proof
  assume ?L
  then obtain h1 b h2 len where
      tag: "parse_asn1_tag cbs = (Some t, h1)" and b: "CBS_get_u8 h1 = (Some b, h2)"
    and el: "element_length False t b (length cbs - length h2) h2 = Some (len, hl)"
    and out: "length out = len" "cbs = out @ cbs'"
    unfolding CBS_get_any_asn1_element_def cbs_get_any_asn1_element_def
    by (auto simp: and_then_eq_Some Let_def split: prod.splits option.splits)
  have c1: "cbs = der_tag t @ b # h2" using tag b by (simp add: parse_asn1_tag_iff)
  then have h: "length cbs - length h2 = length (der_tag t) + 1" by simp
  then have "length cbs - length h2 \<le> 100" using length_der_tag [of t] by simp
  then obtain n r where n: "n < 2 ^ 32" "b # h2 = der_len n @ r"
      "hl + 1 = length (der_tag t) + 1 + length (der_len n)" "len = hl + n"
    using el unfolding h by (auto simp: element_length_iff)
  then have hl: "hl = length (der_header t n)" by (simp add: der_header_def)
  have "cbs = der_header t n @ r" using c1 n(2) by (simp add: der_header_def)
  then have eq: "out @ cbs' = der_header t n @ r" using out by simp
  have "out = take (length out) (out @ cbs')" by simp
  also have "\<dots> = der_header t n @ take n r" unfolding eq using out n(4) hl by simp
  finally have "out = der_header t n @ take n r" .
  moreover from this have "length (take n r) = n"
    using out n(4) hl by (metis add_left_cancel length_append)
  ultimately have "out = der_header t n @ take n r" "length (take n r) = n" by simp_all
  then show ?R using n(1) hl out
    by (intro exI [of _ "take n r"]) (simp add: der_elem_def)
next
  assume ?R
  then obtain c where c: "length c < 2 ^ 32" "out = der_elem t c"
    "hl = length (der_header t (length c))" "cbs = out @ cbs'" by blast
  obtain b r where br: "der_len (length c) = b # r" by (cases "der_len (length c)") auto
  have tag: "parse_asn1_tag cbs = (Some t, b # r @ c @ cbs')"
    using c(2,4) br by (simp add: parse_asn1_tag_iff der_elem_def der_header_def)
  have h: "length cbs - length (r @ c @ cbs') = length (der_tag t) + 1"
    using c(2,4) br by (simp add: der_elem_def der_header_def)
  have "element_length False t b (length (der_tag t) + 1) (r @ c @ cbs') = Some (length out, hl)"
    using c br length_der_tag [of t]
    by (subst element_length_iff) (auto simp: der_elem_def der_header_def intro!: exI [of _ "length c"])
  then show ?L
    using tag h c unfolding CBS_get_any_asn1_element_def cbs_get_any_asn1_element_def
    by (simp add: Let_def and_then_def [of "CBS_get_bytes _"] CBS_get_bytes_def cbs_get_def)
qed

lemma CBS_get_any_asn1_iff:
  "CBS_get_any_asn1 cbs = (Some (c, t), cbs') \<longleftrightarrow> length c < 2 ^ 32 \<and> cbs = der_elem t c @ cbs'"
proof
  assume "CBS_get_any_asn1 cbs = (Some (c, t), cbs')"
  then show "length c < 2 ^ 32 \<and> cbs = der_elem t c @ cbs'"
    unfolding CBS_get_any_asn1_def
    by (auto simp: and_then_eq_Some CBS_get_any_asn1_element_iff der_elem_def CBS_skip_def
        cbs_get_def and_then_def split: prod.splits option.splits if_splits)
next
  assume a: "length c < 2 ^ 32 \<and> cbs = der_elem t c @ cbs'"
  then have "CBS_get_any_asn1_element cbs = (Some (der_elem t c, t, length (der_header t (length c))), cbs')"
    by (auto simp: CBS_get_any_asn1_element_iff)
  then show "CBS_get_any_asn1 cbs = (Some (c, t), cbs')"
    by (simp add: CBS_get_any_asn1_def CBS_skip_def and_then_def cbs_get_def der_elem_def)
qed

lemma CBS_get_asn1_iff:
  "CBS_get_asn1 t cbs = (Some c, cbs') \<longleftrightarrow> length c < 2 ^ 32 \<and> cbs = der_elem t c @ cbs'"
proof
  assume "CBS_get_asn1 t cbs = (Some c, cbs')"
  then show "length c < 2 ^ 32 \<and> cbs = der_elem t c @ cbs'"
    unfolding CBS_get_asn1_def cbs_get_asn1_def
    by (auto simp: and_then_eq_Some CBS_get_any_asn1_element_iff der_elem_def CBS_skip_def
        cbs_get_def and_then_def split: prod.splits option.splits if_splits)
next
  assume a: "length c < 2 ^ 32 \<and> cbs = der_elem t c @ cbs'"
  then have "CBS_get_any_asn1_element cbs = (Some (der_elem t c, t, length (der_header t (length c))), cbs')"
    by (auto simp: CBS_get_any_asn1_element_iff)
  then show "CBS_get_asn1 t cbs = (Some c, cbs')"
    by (simp add: CBS_get_asn1_def cbs_get_asn1_def CBS_skip_def and_then_def cbs_get_def der_elem_def)
qed

lemma CBS_get_asn1_element_tagged_iff:
  "CBS_get_asn1_element t cbs = (Some e, cbs') \<longleftrightarrow>
    (\<exists>c. length c < 2 ^ 32 \<and> e = der_elem t c \<and> cbs = e @ cbs')"
proof
  assume "CBS_get_asn1_element t cbs = (Some e, cbs')"
  then show "\<exists>c. length c < 2 ^ 32 \<and> e = der_elem t c \<and> cbs = e @ cbs'"
    unfolding CBS_get_asn1_element_def cbs_get_asn1_def
    by (auto simp: and_then_eq_Some CBS_get_any_asn1_element_iff split: if_splits)
next
  assume a: "\<exists>c. length c < 2 ^ 32 \<and> e = der_elem t c \<and> cbs = e @ cbs'"
  then obtain hl where "CBS_get_any_asn1_element cbs = (Some (e, t, hl), cbs')"
    by (auto simp: CBS_get_any_asn1_element_iff)
  then show "CBS_get_asn1_element t cbs = (Some e, cbs')"
    by (simp add: CBS_get_asn1_element_def cbs_get_asn1_def)
qed

lemma CBS_peek_asn1_tag_iff:
  "CBS_peek_asn1_tag t cbs \<longleftrightarrow> (\<exists>r. cbs = der_tag t @ r)"
proof -
  have "fst (parse_asn1_tag cbs) = Some t \<longleftrightarrow> (\<exists>r. parse_asn1_tag cbs = (Some t, r))"
    by (cases "parse_asn1_tag cbs") auto
  then show ?thesis by (auto simp: CBS_peek_asn1_tag_def parse_asn1_tag_iff)
qed

text \<open>The readers of the component are canonical readers of their encodings.\<close>

interpretation b128: canonical parse_base128_integer "\<lambda>_. True" "\<lambda>v. base128 (unat v)"
  by unfold_locales (simp_all add: parse_base128_integer_iff base128_def)

interpretation asn1_tag: canonical parse_asn1_tag "\<lambda>_. True" der_tag
  by unfold_locales (simp_all add: parse_asn1_tag_iff)

interpretation any_asn1: canonical CBS_get_any_asn1 "\<lambda>(c, t). length c < 2 ^ 32" "\<lambda>(c, t). der_elem t c"
  by unfold_locales (auto simp: CBS_get_any_asn1_iff der_elem_def der_header_def)

interpretation asn1: canonical "CBS_get_asn1 t" "\<lambda>c. length c < 2 ^ 32" "der_elem t" for t
  by unfold_locales (auto simp: CBS_get_asn1_iff der_elem_def der_header_def)

text \<open>Integers.\<close>

lemma asn1_uint64_loop_iff:
  "asn1_uint64_loop out data = Some v \<longleftrightarrow> unat out * 256 ^ length data + be_val data = unat v"
proof (induction data arbitrary: out)
  case Nil
  then show ?case by (auto simp: word_unat_eq_iff)
next
  case (Cons d data)
  show ?case
  proof (cases "drop_bit 56 out = 0")
    case True
    then have o: "unat out < 2 ^ 56" by (simp add: drop_bit_eq_0_iff)
    have u: "unat (ucast d :: u64) = unat d"
      by (simp add: unsigned_ucast_eq take_bit_nat_eq_self less_trans [OF unat_u8_less])
    have "unat (push_bit 8 out OR ucast d) = unat out * 256 + unat d"
      using o unat_u8_less [of d] by (subst unat_push_or) (simp_all add: u del: unat_u8_less)
    then show ?thesis using True Cons.IH
      by (simp add: be_val_Cons algebra_simps)
  next
    case False
    then have "2 ^ 56 \<le> unat out" by (simp add: drop_bit_eq_0_iff)
    then have "2 ^ 56 * 256 \<le> unat out * 256 ^ length (d # data)"
      by (intro mult_le_mono) simp_all
    then have "unat out * 256 ^ length (d # data) + be_val (d # data) \<noteq> unat v"
      using unat_u64_less [of v] by simp
    then show ?thesis using False by simp
  qed
qed

lemma and_0x80_byte: "(b :: u8) AND 0x80 \<noteq> 0 \<longleftrightarrow> 128 \<le> unat b"
  by (simp add: and_0x80_eq_0 not_less)

lemma tc_minimal_code:
  "tc_minimal data \<longleftrightarrow> \<not> (length data = 0) \<and>
     \<not> (length data > 1 \<and> data ! 0 = 0 \<and> data ! 1 AND 0x80 = 0) \<and>
     \<not> (length data > 1 \<and> data ! 0 = 0xff \<and> data ! 1 AND 0x80 \<noteq> 0)"
  by (auto simp: tc_minimal_def and_0x80_eq_0 not_less)

lemma asn1_uint64_contents_iff:
  "asn1_uint64_contents data = Some v \<longleftrightarrow> tc_minimal data \<and> tc_val data = int (unat v)"
proof (cases "data = [] \<or> 128 \<le> unat (data ! 0)")
  case True
  then show ?thesis
    using tc_val_sign [of data] by (auto simp: asn1_uint64_contents_def tc_minimal_def and_0x80_eq_0)
next
  case False
  then have "data ! 0 \<noteq> 255" by auto
  then have "asn1_uint64_contents data = (if tc_minimal data then asn1_uint64_loop 0 data else None)"
    using False by (auto simp: asn1_uint64_contents_def tc_minimal_code and_0x80_eq_0)
  moreover have "tc_val data = int (be_val data)" using False by (simp add: tc_val_def hd_conv_nth)
  ultimately show ?thesis by (simp add: asn1_uint64_loop_iff del: of_nat_unat)
qed

lemma le_u64_eq: "le_u64 bs = of_nat (le_val bs)"
proof (induction bs)
  case (Cons b bs)
  have "push_bit 8 v OR ucast b = push_bit 8 v + ucast b" for v :: u64
    by (rule disjunctive_add [symmetric]) (auto simp: bit_simps dest: bit_imp_le_length)
  then show ?case using Cons by (simp add: le_u64_def push_bit_eq_mult mult.commute)
qed (simp add: le_u64_def)

lemma le_val_append: "le_val (xs @ ys) = le_val xs + 256 ^ length xs * le_val ys"
  by (induction xs) (simp_all add: algebra_simps)

lemma le_val_rev: "le_val (rev bs) = be_val bs"
  by (induction bs) (simp_all add: le_val_append be_val_Cons)

lemma le_val_replicate_255: "int (le_val (replicate n 255)) = 256 ^ n - 1"
proof (induction n)
  case (Suc n)
  have "unat (255 :: u8) = 255" by simp
  then show ?case using Suc by (simp only: replicate_Suc le_val.simps) simp
qed simp

lemma le_val_replicate_0: "le_val (replicate n 0) = 0"
  by (induction n) simp_all

lemma asn1_int64_contents_iff:
  "asn1_int64_contents data = Some v \<longleftrightarrow>
    tc_minimal data \<and> length data \<le> 8 \<and> v = of_int (tc_val data)"
proof (cases "tc_minimal data \<and> length data \<le> 8")
  case True
  then have ne: "data \<noteq> []" by (simp add: tc_minimal_def)
  define fill :: u8 where "fill = (if data ! 0 AND 0x80 \<noteq> 0 then 0xff else 0)"
  define m where "m = le_val (write_at (replicate 8 fill) 0 (rev data))"
  have "asn1_int64_contents data = Some (of_nat m)"
    using True unfolding asn1_int64_contents_def tc_minimal_code m_def fill_def
    by (auto simp: Let_def le_u64_eq)
  moreover have "(of_nat m :: u64) = of_int (tc_val data)"
  proof -
    have m: "m = be_val data + 256 ^ length data * le_val (replicate (8 - length data) fill)"
      unfolding m_def write_at_def using True by (simp add: le_val_append le_val_rev)
    show ?thesis
    proof (cases "128 \<le> unat (data ! 0)")
      case True
      have "int m = int (be_val data) + 256 ^ length data * (256 ^ (8 - length data) - 1)"
        using True le_val_replicate_255 [of "8 - length data"] by (simp add: m fill_def and_0x80_byte)
      also have "\<dots> = tc_val data + 256 ^ length data * 256 ^ (8 - length data)"
        using True ne by (simp add: tc_val_def hd_conv_nth algebra_simps)
      also have "256 ^ length data * 256 ^ (8 - length data) = (256 :: int) ^ 8"
        using \<open>tc_minimal data \<and> length data \<le> 8\<close> by (simp flip: power_add)
      finally have "(of_int (int m) :: u64) = of_int (tc_val data) + of_int (256 ^ 8)"
        by (simp only: of_int_add)
      also have "(of_int (256 ^ 8) :: u64) = 0" by simp
      finally show ?thesis by simp
    next
      case False
      then have "fill = 0" by (simp add: fill_def and_0x80_byte)
      then show ?thesis using False ne
        by (simp add: m tc_val_def hd_conv_nth le_val_replicate_0)
    qed
  qed
  ultimately show ?thesis using True by auto
next
  case False
  then show ?thesis by (auto simp: asn1_int64_contents_def tc_minimal_code)
qed

text \<open>Booleans, optional elements, length prefixes.\<close>

lemma asn1_bool_contents_iff:
  "asn1_bool_contents data = Some b \<longleftrightarrow> data = [if b then 255 else 0]"
  by (cases data) (auto simp: asn1_bool_contents_def length_Suc_conv)

lemma CBS_get_optional_asn1_iff:
  "CBS_get_optional_asn1 t cbs = (Some r, cbs') \<longleftrightarrow>
    (case r of None \<Rightarrow> (\<nexists>rest. cbs = der_tag t @ rest) \<and> cbs' = cbs
     | Some c \<Rightarrow> length c < 2 ^ 32 \<and> cbs = der_elem t c @ cbs')"
proof -
  have "CBS_peek_asn1_tag t (der_elem t c @ cbs')" for c
    by (simp add: CBS_peek_asn1_tag_iff der_elem_def der_header_def)
  then show ?thesis
    by (cases "CBS_peek_asn1_tag t cbs")
      (auto simp: CBS_get_optional_asn1_def and_then_eq_Some CBS_get_asn1_iff
        CBS_peek_asn1_tag_iff split: option.splits)
qed

lemma cbs_get_length_prefixed_iff:
  assumes "n \<le> 3"
  shows "cbs_get_length_prefixed n cbs = (Some out, cbs') \<longleftrightarrow>
    length out < 256 ^ n \<and> cbs = be_bytes n (length out) @ out @ cbs'"
proof -
  have "cbs_get_length_prefixed n cbs = (Some out, cbs') \<longleftrightarrow>
      (\<exists>v. unat (v :: u64) < 256 ^ n \<and> length out = unat v \<and> cbs = be_bytes n (unat v) @ out @ cbs')"
    using assms
    by (auto simp: cbs_get_length_prefixed_def and_then_eq_Some cbs_get_u_iff)
  also have "\<dots> \<longleftrightarrow> length out < 256 ^ n \<and> cbs = be_bytes n (length out) @ out @ cbs'"
  proof -
    have "unat (of_nat (length out) :: u64) = length out" if "length out < 256 ^ n"
    proof -
      have "(256 :: nat) ^ n \<le> 256 ^ 3" using assms by (intro power_increasing) auto
      then show ?thesis using that by (simp add: unat_of_nat)
    qed
    then show ?thesis by (auto intro: exI [of _ "of_nat (length out)"])
  qed
  finally show ?thesis .
qed

text \<open>Indefinite lengths: the one form the BER reader adds.\<close>

lemma element_length_ber:
  "element_length True t b h rest =
    (if b = 0x80 \<and> t AND CBS_ASN1_CONSTRUCTED \<noteq> 0 then Some (h, h)
     else element_length False t b h rest)"
proof -
  have "b AND 0x80 \<noteq> 0 \<and> unat (b AND 0x7f) = 0 \<longleftrightarrow> b = 0x80"
  proof -
    have "b = 0x80 \<longleftrightarrow> unat b = 128" by (simp add: word_unat_eq_iff)
    moreover have "128 \<le> unat b \<and> unat b mod 128 = 0 \<longleftrightarrow> unat b = 128"
      using mod_128_high [of "unat b"] unat_u8_less [of b] by auto
    ultimately show ?thesis unfolding and_0x80_byte unat_and_7F by (simp only:)
  qed
  then show ?thesis unfolding element_length_def Let_def by (auto split: if_splits)
qed

lemma CBS_get_any_ber_asn1_element_iff:
  "CBS_get_any_ber_asn1_element cbs = (Some (out, t, hl), cbs') \<longleftrightarrow>
    CBS_get_any_asn1_element cbs = (Some (out, t, hl), cbs') \<or>
    t AND CBS_ASN1_CONSTRUCTED \<noteq> 0 \<and> out = der_tag t @ [0x80] \<and> hl = length out \<and> cbs = out @ cbs'"
proof (cases "\<exists>r. cbs = der_tag t @ 0x80 # r \<and> t AND CBS_ASN1_CONSTRUCTED \<noteq> 0")
  case True
  then obtain r where cbs: "cbs = der_tag t @ 0x80 # r" and t: "t AND CBS_ASN1_CONSTRUCTED \<noteq> 0"
    by blast
  have tag: "parse_asn1_tag cbs = (Some t, 0x80 # r)" by (simp add: parse_asn1_tag_iff cbs)
  have "element_length False t 0x80 h r = None" for h
    by (simp add: element_length_def and_0x80_eq_0 Let_def)
  then have "CBS_get_any_asn1_element cbs = (None, cbs)"
    by (simp add: CBS_get_any_asn1_element_def cbs_get_any_asn1_element_def tag Let_def)
  moreover have "CBS_get_any_ber_asn1_element cbs =
      (Some (der_tag t @ [0x80], t, length (der_tag t) + 1), r)"
    using t by (simp add: CBS_get_any_ber_asn1_element_def cbs_get_any_asn1_element_def tag [unfolded cbs] Let_def
      element_length_ber cbs CBS_get_bytes_def cbs_get_def and_then_def)
  ultimately show ?thesis using cbs t by auto
next
  case False
  have "CBS_get_any_ber_asn1_element cbs = (Some (out, t, hl), cbs') \<longleftrightarrow>
      CBS_get_any_asn1_element cbs = (Some (out, t, hl), cbs')"
  proof (cases "\<exists>b r. cbs = der_tag t @ b # r")
    case True
    then obtain b r where cbs: "cbs = der_tag t @ b # r" by blast
    have tag: "parse_asn1_tag cbs = (Some t, b # r)" by (simp add: parse_asn1_tag_iff cbs)
    have "element_length True t b h r = element_length False t b h r" for h
      using False cbs by (auto simp: element_length_ber)
    then show ?thesis
      by (simp add: CBS_get_any_asn1_element_def CBS_get_any_ber_asn1_element_def
          cbs_get_any_asn1_element_def tag Let_def)
  next
    case no: False
    have "fst (cbs_get_any_asn1_element ber cbs) \<noteq> Some (out, t, hl)" for ber
    proof
      assume "fst (cbs_get_any_asn1_element ber cbs) = Some (out, t, hl)"
      then obtain h b r where "parse_asn1_tag cbs = (Some t, h)" "CBS_get_u8 h = (Some b, r)"
        unfolding cbs_get_any_asn1_element_def
        by (auto simp: and_then_def Let_def split: prod.splits option.splits)
      then show False using no by (simp add: parse_asn1_tag_iff)
    qed
    from this [of True] this [of False] show ?thesis
      by (auto simp: CBS_get_any_asn1_element_def CBS_get_any_ber_asn1_element_def)
  qed
  then show ?thesis using False by auto
qed

text \<open>Bit strings: the bits of the contents octets, most significant first, without the unused
  ones.\<close>

definition byte_bits :: "u8 \<Rightarrow> bool list" where
  "byte_bits b = map (\<lambda>i. bit b (7 - i)) [0..<8]"

definition der_bits :: "bytes \<Rightarrow> bool list option" where
  "der_bits contents = (case contents of [] \<Rightarrow> None
    | u # bs \<Rightarrow> let bits = concat (map byte_bits bs); n = length bits - unat u
        in if unat u \<le> 7 \<and> unat u \<le> length bits \<and> (\<forall>x \<in> set (drop n bits). \<not> x)
           then Some (take n bits) else None)"

lemma length_byte_bits [simp]: "length (byte_bits b) = 8"
  by (simp add: byte_bits_def)

lemma length_bits [simp]: "length (concat (map byte_bits bs)) = 8 * length bs"
  by (induction bs) simp_all

lemma nth_bits: "i < 8 * length bs \<Longrightarrow> concat (map byte_bits bs) ! i = bit (bs ! (i div 8)) (7 - i mod 8)"
proof (induction bs arbitrary: i)
  case (Cons b bs)
  show ?case
  proof (cases "i < 8")
    case True
    then show ?thesis by (simp add: nth_append byte_bits_def)
  next
    case False
    then have "i div 8 = Suc ((i - 8) div 8)" "i mod 8 = (i - 8) mod 8"
      by (simp_all add: le_div_geq le_mod_geq)
    then show ?thesis using False Cons by (simp add: nth_append)
  qed
qed simp

lemma low_bits_zero:
  "(l :: u8) AND (push_bit k 1 - 1) = 0 \<longleftrightarrow> (\<forall>i<k. \<not> bit l i)" if "k \<le> 7"
proof -
  have "push_bit k 1 - 1 = (mask k :: u8)" by (simp add: mask_eq_exp_minus_1 push_bit_eq_mult)
  then have "l AND (push_bit k 1 - 1) = take_bit k l" by (simp add: take_bit_eq_mask)
  moreover have "take_bit k l = 0 \<longleftrightarrow> (\<forall>i<k. \<not> bit l i)"
    using that by (auto simp: bit_eq_iff bit_take_bit_iff)
  ultimately show ?thesis by simp
qed

lemma drop_bits_zero:
  assumes "bs \<noteq> []" "k \<le> 7"
  shows "(\<forall>x \<in> set (drop (8 * length bs - k) (concat (map byte_bits bs))). \<not> x) \<longleftrightarrow>
    (\<forall>i<k. \<not> bit (last bs) i)"
proof -
  let ?bits = "concat (map byte_bits bs)"
  have l: "1 \<le> length bs" using assms(1) by (cases bs) auto
  have n: "?bits ! (8 * length bs - k + j) \<longleftrightarrow> bit (last bs) (k - 1 - j)" if "j < k" for j
  proof -
    have e: "8 * length bs - k + j = 8 * (length bs - 1) + (8 - k + j)" "8 - k + j < 8"
      using that assms(2) l by simp_all
    then have d: "(8 * length bs - k + j) div 8 = length bs - 1" "(8 * length bs - k + j) mod 8 = 8 - k + j"
      by (simp_all only: div_mult_self4 mod_mult_self4) simp_all
    have "8 * length bs - k + j < 8 * length bs" using that assms(2) l by simp
    then have "?bits ! (8 * length bs - k + j) \<longleftrightarrow> bit (bs ! (length bs - 1)) (7 - (8 - k + j))"
      by (simp only: nth_bits d)
    also have "7 - (8 - k + j) = k - 1 - j" using that assms(2) by simp
    finally show ?thesis using assms(1) by (simp add: last_conv_nth)
  qed
  have "(\<forall>x \<in> set (drop (8 * length bs - k) ?bits). \<not> x) \<longleftrightarrow>
      (\<forall>j<k. \<not> ?bits ! (8 * length bs - k + j))"
    using assms(2) l by (auto simp: all_set_conv_all_nth)
  also have "\<dots> \<longleftrightarrow> (\<forall>j<k. \<not> bit (last bs) (k - 1 - j))" using n by simp
  also have "\<dots> \<longleftrightarrow> (\<forall>i<k. \<not> bit (last bs) i)"
  proof safe
    fix i assume a: "\<forall>j<k. \<not> bit (last bs) (k - 1 - j)" and i: "i < k" "bit (last bs) i"
    have "k - 1 - i < k" "k - 1 - (k - 1 - i) = i" using i by simp_all
    then show False using a i by metis
  next
    fix j assume a: "\<forall>i<k. \<not> bit (last bs) i" and j: "j < k" "bit (last bs) (k - 1 - j)"
    then show False by (cases k) auto
  qed
  finally show ?thesis .
qed

lemma CBS_is_valid_asn1_bitstring_iff:
  "CBS_is_valid_asn1_bitstring cbs \<longleftrightarrow> der_bits cbs \<noteq> None"
proof (cases cbs)
  case (Cons u bs)
  show ?thesis
  proof (cases "unat u \<le> 7 \<and> u \<noteq> 0 \<and> bs \<noteq> []")
    case True
    then have "unat u \<le> 8 * length bs" by (cases bs) auto
    then show ?thesis
      using True low_bits_zero [of "unat u" "last bs"] drop_bits_zero [of bs "unat u"]
      by (simp add: Cons CBS_is_valid_asn1_bitstring_def der_bits_def CBS_get_last_u8_def word_less_nat_alt)
  next
    case False
    have "unat u = 0 \<longleftrightarrow> u = 0" by (simp add: unat_eq_zero)
    then show ?thesis using False
      by (auto simp: Cons CBS_is_valid_asn1_bitstring_def der_bits_def CBS_get_last_u8_def word_less_nat_alt Let_def)
  qed
qed (simp add: CBS_is_valid_asn1_bitstring_def der_bits_def)

lemma has_bit_iff:
  "CBS_asn1_bitstring_has_bit cbs i \<longleftrightarrow>
    (\<exists>bits. der_bits cbs = Some bits \<and> unat i < length bits \<and> bits ! unat i)"
proof (cases "der_bits cbs")
  case None
  then show ?thesis by (simp add: CBS_asn1_bitstring_has_bit_def CBS_is_valid_asn1_bitstring_iff)
next
  case (Some bits)
  then obtain u bs where cbs: "cbs = u # bs" by (auto simp: der_bits_def split: list.splits)
  let ?all = "concat (map byte_bits bs)"
  define n where "n = 8 * length bs - unat u"
  have bits: "bits = take n ?all" and z: "\<And>x. x \<in> set (drop n ?all) \<Longrightarrow> \<not> x"
    using Some by (auto simp: cbs der_bits_def Let_def n_def split: if_splits)
  have d: "unat (drop_bit 3 i + 1) = unat i div 8 + 1"
  proof -
    have "unat i div 8 < 2 ^ 29" using unat_u32_less [of i] by (subst div_less_iff_less_mult) simp_all
    then have "unat (drop_bit 3 i) + unat (1 :: u32) < 2 ^ LENGTH(32)"
      by (simp add: unat_drop_bit_div)
    then show ?thesis by (simp add: unat_word_ariths unat_drop_bit_div)
  qed
  have m: "unat (7 - (i AND 7)) = 7 - unat i mod 8"
  proof -
    have "unat (i AND 7) = unat i mod 8"
      using unat_and_mask [of i 3] by (simp add: mask_eq_exp_minus_1)
    then have "i AND 7 \<le> 7" "unat (i AND 7) = unat i mod 8" by (simp_all add: word_le_nat_alt)
    then show ?thesis by (simp add: unat_sub_if')
  qed
  have b: "x AND 2 ^ k \<noteq> 0 \<longleftrightarrow> bit x k" for x :: u8 and k
    using and_exp_eq_0_iff_not_bit [of x k] by simp
  have in_bounds: "unat i div 8 < length bs \<longleftrightarrow> unat i < 8 * length bs"
    by (simp add: div_less_iff_less_mult mult.commute)
  have "CBS_asn1_bitstring_has_bit cbs i \<longleftrightarrow>
      unat i < 8 * length bs \<and> bit (bs ! (unat i div 8)) (7 - unat i mod 8)"
    using Some by (simp add: CBS_asn1_bitstring_has_bit_def CBS_is_valid_asn1_bitstring_iff
        d m b cbs in_bounds Let_def)
  also have "\<dots> \<longleftrightarrow> unat i < 8 * length bs \<and> ?all ! unat i"
    by (auto simp: nth_bits)
  also have "\<dots> \<longleftrightarrow> unat i < n \<and> ?all ! unat i"
  proof (cases "unat i < n")
    case False
    have "\<not> ?all ! unat i" if "unat i < 8 * length bs"
    proof -
      have "drop n ?all ! (unat i - n) \<in> set (drop n ?all)"
        using that False by (intro nth_mem) (simp add: n_def)
      then show ?thesis using z False that by simp
    qed
    then show ?thesis using False by blast
  qed (auto simp: n_def)
  also have "\<dots> \<longleftrightarrow> unat i < length bits \<and> bits ! unat i"
    by (auto simp: bits n_def)
  finally show ?thesis using Some by simp
qed

lemma tc_minimal_int64:
  "tc_minimal c \<and> length c \<le> 8 \<and> v = (of_int (tc_val c) :: u64) \<longleftrightarrow> tc_minimal c \<and> tc_val c = sint v"
proof (cases "tc_minimal c")
  case True
  then have ne: "c \<noteq> []" by (simp add: tc_minimal_def)
  have sint: "sint (of_int x :: u64) = x" if "- (2 ^ 63) \<le> x" "x < 2 ^ 63" for x
    using that by (simp add: signed_of_int signed_take_bit_int_eq_self)
  have range: "- (2 ^ 63) \<le> tc_val c \<and> tc_val c < 2 ^ 63 \<longleftrightarrow> length c \<le> 8"
  proof
    assume "length c \<le> 8"
    then have "(256 :: int) ^ length c \<le> 256 ^ 8" by (intro power_increasing) simp_all
    then show "- (2 ^ 63) \<le> tc_val c \<and> tc_val c < 2 ^ 63" using tc_val_upper [OF ne] by simp
  next
    assume r: "- (2 ^ 63) \<le> tc_val c \<and> tc_val c < 2 ^ 63"
    show "length c \<le> 8"
    proof (rule ccontr)
      assume l: "\<not> length c \<le> 8"
      then have "(256 :: int) ^ 8 \<le> 256 ^ (length c - 1)" by (intro power_increasing) simp_all
      then show False using tc_val_minimal [OF True] l r by simp
    qed
  qed
  have lt: "sint v < 2 ^ 63" "- (2 ^ 63) \<le> sint v"
    using sint_lt [of v] sint_ge [of v] by simp_all
  show ?thesis
  proof
    assume a: "tc_minimal c \<and> length c \<le> 8 \<and> v = (of_int (tc_val c) :: u64)"
    then show "tc_minimal c \<and> tc_val c = sint v" using range sint by simp
  next
    assume a: "tc_minimal c \<and> tc_val c = sint v"
    then have "length c \<le> 8" using range lt by simp
    moreover have "v = of_int (tc_val c)" using a by simp
    ultimately show "tc_minimal c \<and> length c \<le> 8 \<and> v = (of_int (tc_val c) :: u64)" using a by blast
  qed
qed simp

lemma CBS_get_asn1_uint64_iff:
  "CBS_get_asn1_uint64 cbs = (Some v, cbs') \<longleftrightarrow>
    (\<exists>c. length c < 2 ^ 32 \<and> cbs = der_elem CBS_ASN1_INTEGER c @ cbs' \<and>
      tc_minimal c \<and> tc_val c = int (unat v))"
  by (auto simp: CBS_get_asn1_uint64_def and_then_eq_Some CBS_get_asn1_iff asn1_uint64_contents_iff
      simp del: of_nat_unat)

lemma CBS_get_asn1_int64_iff:
  "CBS_get_asn1_int64 cbs = (Some v, cbs') \<longleftrightarrow>
    (\<exists>c. length c < 2 ^ 32 \<and> cbs = der_elem CBS_ASN1_INTEGER c @ cbs' \<and>
      tc_minimal c \<and> tc_val c = sint v)"
  by (simp only: CBS_get_asn1_int64_def and_then_eq_Some CBS_get_asn1_iff prod.inject
      asn1_int64_contents_iff tc_minimal_int64) blast

lemma uint64_unique:
  assumes "CBS_get_asn1_uint64 x = (Some v, [])" "CBS_get_asn1_uint64 y = (Some v, [])"
  shows "x = y"
proof -
  obtain c where c: "x = der_elem CBS_ASN1_INTEGER c @ []" "tc_minimal c" "tc_val c = int (unat v)"
    using assms(1) unfolding CBS_get_asn1_uint64_iff by blast
  obtain d where d: "y = der_elem CBS_ASN1_INTEGER d @ []" "tc_minimal d" "tc_val d = int (unat v)"
    using assms(2) unfolding CBS_get_asn1_uint64_iff by blast
  have "c = d" by (rule tc_minimal_unique [OF c(2) d(2)]) (simp only: c(3) d(3))
  then show ?thesis by (simp only: c(1) d(1))
qed

lemma int64_unique:
  assumes "CBS_get_asn1_int64 x = (Some v, [])" "CBS_get_asn1_int64 y = (Some v, [])"
  shows "x = y"
proof -
  obtain c where c: "x = der_elem CBS_ASN1_INTEGER c @ []" "tc_minimal c" "tc_val c = sint v"
    using assms(1) unfolding CBS_get_asn1_int64_iff by blast
  obtain d where d: "y = der_elem CBS_ASN1_INTEGER d @ []" "tc_minimal d" "tc_val d = sint v"
    using assms(2) unfolding CBS_get_asn1_int64_iff by blast
  have "c = d" by (rule tc_minimal_unique [OF c(2) d(2)]) (simp only: c(3) d(3))
  then show ?thesis by (simp only: c(1) d(1))
qed

section \<open>The properties of the parser\<close>

text \<open>C11: the DER element reader accepts exactly the canonical encodings. It succeeds with
  element \<open>out\<close>, tag \<open>t\<close> and header length \<open>hl\<close> if and only if the window starts with the one
  DER spelling of some contents under that tag: identifier octets of minimal form, a length of
  minimal form, and precisely that many bytes; and it leaves precisely the bytes that follow.\<close>

theorem CBS_get_any_asn1_element_canonical:
  "CBS_get_any_asn1_element cbs = (Some (out, t, hl), cbs') \<longleftrightarrow>
    (\<exists>c. length c < 2 ^ 32 \<and> out = der_elem t c \<and> hl = length (der_header t (length c)) \<and>
      cbs = out @ cbs')"
  by (rule CBS_get_any_asn1_element_iff)


text \<open>C13: the integer readers are exact and not malleable. \<open>CBS_get_asn1_uint64\<close> and
  \<open>CBS_get_asn1_int64\<close> return \<open>v\<close> precisely for the INTEGER whose contents are the minimal two's
  complement form of \<open>v\<close>, and two inputs read completely as the same value are equal.\<close>

theorem asn1_integers_have_one_spelling:
  "(CBS_get_asn1_uint64 cbs = (Some v, cbs') \<longleftrightarrow>
      (\<exists>c. length c < 2 ^ 32 \<and> cbs = der_elem CBS_ASN1_INTEGER c @ cbs' \<and>
        tc_minimal c \<and> tc_val c = int (unat v))) \<and>
   (CBS_get_asn1_int64 cbs = (Some v, cbs') \<longleftrightarrow>
      (\<exists>c. length c < 2 ^ 32 \<and> cbs = der_elem CBS_ASN1_INTEGER c @ cbs' \<and>
        tc_minimal c \<and> tc_val c = sint v)) \<and>
   (CBS_get_asn1_uint64 x = (Some v, []) \<and> CBS_get_asn1_uint64 y = (Some v, []) \<longrightarrow> x = y) \<and>
   (CBS_get_asn1_int64 x = (Some v, []) \<and> CBS_get_asn1_int64 y = (Some v, []) \<longrightarrow> x = y)"
proof (rule conjI [OF CBS_get_asn1_uint64_iff conjI [OF CBS_get_asn1_int64_iff conjI]])
  show "CBS_get_asn1_uint64 x = (Some v, []) \<and> CBS_get_asn1_uint64 y = (Some v, []) \<longrightarrow> x = y"
    using uint64_unique by blast
  show "CBS_get_asn1_int64 x = (Some v, []) \<and> CBS_get_asn1_int64 y = (Some v, []) \<longrightarrow> x = y"
    using int64_unique by blast
qed

theorem asn1_integers_have_one_spelling_witness:
  "CBS_get_asn1_uint64 [2, 2, 0, 200] = (Some 200, []) \<and>
   CBS_get_asn1_int64 [2, 1, 200] = (Some (- 56), []) \<and>
   CBS_get_asn1_uint64 [2, 3, 0, 0, 200] \<noteq> (Some 200, []) \<and>
   CBS_get_asn1_int64 [2, 2, 255, 200] \<noteq> (Some (- 56), [])"
proof -
  have u: "CBS_get_asn1_uint64 [2, 2, 0, 200] = (Some 200, [])" by code_simp
  have i: "CBS_get_asn1_int64 [2, 1, 200] = (Some (- 56), [])" by code_simp
  have ne: "([2, 2, 0, 200] :: bytes) \<noteq> [2, 3, 0, 0, 200]" "([2, 1, 200] :: bytes) \<noteq> [2, 2, 255, 200]"
    by simp_all
  note U = asn1_integers_have_one_spelling [of "[]" 200 "[]" "[2, 2, 0, 200]" "[2, 3, 0, 0, 200]"]
  note I = asn1_integers_have_one_spelling [of "[]" "- 56" "[]" "[2, 1, 200]" "[2, 2, 255, 200]"]
  have "CBS_get_asn1_uint64 [2, 3, 0, 0, 200] \<noteq> (Some 200, [])"
    using u ne(1) U [THEN conjunct2, THEN conjunct2, THEN conjunct1] by blast
  moreover have "CBS_get_asn1_int64 [2, 2, 255, 200] \<noteq> (Some (- 56), [])"
    using i ne(2) I [THEN conjunct2, THEN conjunct2, THEN conjunct2] by blast
  ultimately show ?thesis using u i by blast
qed

text \<open>The length-prefixed readers. \<open>cbs_get_length_prefixed n\<close> (behind the \<open>u8\<close>, \<open>u16\<close> and
  \<open>u24\<close> variants) returns \<open>out\<close> precisely when the window starts with the length of \<open>out\<close> in
  \<open>n\<close> big-endian bytes followed by \<open>out\<close>; a prefix that announces more than is left is
  rejected.\<close>

lemma length_prefixed_exact:
  "(CBS_get_u8_length_prefixed cbs = (Some out, cbs') \<longleftrightarrow>
      length out < 256 \<and> cbs = be_bytes 1 (length out) @ out @ cbs') \<and>
   (CBS_get_u16_length_prefixed cbs = (Some out, cbs') \<longleftrightarrow>
      length out < 65536 \<and> cbs = be_bytes 2 (length out) @ out @ cbs') \<and>
   (CBS_get_u24_length_prefixed cbs = (Some out, cbs') \<longleftrightarrow>
      length out < 16777216 \<and> cbs = be_bytes 3 (length out) @ out @ cbs')"
  unfolding CBS_get_u8_length_prefixed_def CBS_get_u16_length_prefixed_def
    CBS_get_u24_length_prefixed_def
  by (intro conjI; subst cbs_get_length_prefixed_iff) simp_all

text \<open>C14: bit strings. A BIT STRING is valid precisely when its first byte announces at most
  seven unused bits, which exist and are zero; \<open>CBS_asn1_bitstring_has_bit\<close> then reads bit
  number \<open>i\<close> of the sequence of its used bits, most significant first, and answers no beyond its
  end.\<close>

theorem bitstring_has_bit_reads_the_bits:
  "(CBS_is_valid_asn1_bitstring cbs \<longleftrightarrow> der_bits cbs \<noteq> None) \<and>
   (CBS_asn1_bitstring_has_bit cbs i \<longleftrightarrow>
      (\<exists>bits. der_bits cbs = Some bits \<and> unat i < length bits \<and> bits ! unat i))"
  by (rule conjI [OF CBS_is_valid_asn1_bitstring_iff has_bit_iff])

end
