(* ===== verification/Mem.thy ===== *)
theory Mem
  imports Teamy_Prelude
begin

unbundle bit_operations_syntax

text \<open>
  BoringSSL's allocation wrappers and byte-string utilities (crypto/mem.c). The allocator of the
  C library is a parameter: \<open>am n\<close> is what \<open>malloc(n)\<close> does, None when it fails and otherwise
  the contents of the fresh block, a byte for each index. A block in the model is the list of
  the bytes the allocator really gave, so that a request whose size wrapped around shows as a
  block that is too short.
\<close>

section \<open>Allocation\<close>

type_synonym alloc = "nat \<Rightarrow> (nat \<Rightarrow> u8) option"

text \<open>\<open>OPENSSL_MALLOC_PREFIX\<close> bytes in front of the block hold its size.\<close>

definition OPENSSL_malloc :: "alloc \<Rightarrow> nat \<Rightarrow> bytes option" where
  "OPENSSL_malloc am n = (case am (size_add n 8) of None \<Rightarrow> None
     | Some junk \<Rightarrow> Some (map junk [8..<size_add n 8]))"

text \<open>The old block, None for a null pointer, is copied and freed; on failure it stays.\<close>

definition OPENSSL_realloc :: "alloc \<Rightarrow> bytes option \<Rightarrow> nat \<Rightarrow> bytes option" where
  "OPENSSL_realloc am orig new_size = (case orig of None \<Rightarrow> OPENSSL_malloc am new_size
     | Some old \<Rightarrow> (case OPENSSL_malloc am new_size of None \<Rightarrow> None
        | Some ret \<Rightarrow> let to_copy = (if length old < new_size then length old else new_size)
            in Some (write_at ret 0 (take to_copy old))))"

definition OPENSSL_memdup :: "alloc \<Rightarrow> bytes \<Rightarrow> bytes option" where
  "OPENSSL_memdup am data = (if length data = 0 then None
     else case OPENSSL_malloc am (length data) of None \<Rightarrow> None
       | Some ret \<Rightarrow> Some (write_at ret 0 data))"

section \<open>Comparison and hashing\<close>

text \<open>The C library's comparison of two blocks of the same size.\<close>

fun memcmp :: "bytes \<Rightarrow> bytes \<Rightarrow> int" where
  "memcmp (a # as) (b # bs) = (if a = b then memcmp as bs else int (unat a) - int (unat b))"
| "memcmp _ _ = 0"

definition OPENSSL_memcmp :: "bytes \<Rightarrow> bytes \<Rightarrow> nat \<Rightarrow> int" where
  "OPENSSL_memcmp s1 s2 n = (if n = 0 then 0 else memcmp (take n s1) (take n s2))"

definition CRYPTO_memcmp :: "bytes \<Rightarrow> bytes \<Rightarrow> nat \<Rightarrow> u8" where
  "CRYPTO_memcmp a b len = foldl (\<lambda>x i. x OR (a ! i XOR b ! i)) 0 [0..<len]"

definition OPENSSL_hash32 :: "bytes \<Rightarrow> u32" where
  "OPENSSL_hash32 p = foldl (\<lambda>h b. (h XOR ucast b) * 16777619) 2166136261 p"

section \<open>C strings\<close>

text \<open>A C string is read from a list of characters; the terminating zero is a character of the
  list or the end of the list, where \<open>chr_at\<close> reads it.\<close>

fun chr_at :: "bytes \<Rightarrow> u8" where
  "chr_at [] = 0"
| "chr_at (c # s) = c"

fun cstrlen :: "bytes \<Rightarrow> nat" where
  "cstrlen [] = 0"
| "cstrlen (c # s) = (if c = 0 then 0 else Suc (cstrlen s))"

fun OPENSSL_strnlen :: "bytes \<Rightarrow> nat \<Rightarrow> nat" where
  "OPENSSL_strnlen s 0 = 0"
| "OPENSSL_strnlen s (Suc len) =
     (if chr_at s = 0 then 0 else Suc (OPENSSL_strnlen (tl s) len))"

definition OPENSSL_strdup :: "alloc \<Rightarrow> bytes option \<Rightarrow> bytes option" where
  "OPENSSL_strdup am s = (case s of None \<Rightarrow> None
     | Some s \<Rightarrow> (case OPENSSL_malloc am (cstrlen s + 1) of None \<Rightarrow> None
        | Some ret \<Rightarrow> Some (write_at ret 0 (take (cstrlen s) s @ [0]))))"

definition OPENSSL_strndup :: "alloc \<Rightarrow> bytes option \<Rightarrow> nat \<Rightarrow> bytes option" where
  "OPENSSL_strndup am str n = (case str of None \<Rightarrow> None
     | Some s \<Rightarrow> let n = OPENSSL_strnlen s n; alloc_size = size_add n 1
         in if alloc_size < n then None
            else case OPENSSL_malloc am alloc_size of None \<Rightarrow> None
              | Some ret \<Rightarrow> Some (write_at (write_at ret 0 (take n s)) n [0]))"

text \<open>\<open>char\<close> is signed on the target.\<close>

definition OPENSSL_tolower :: "int \<Rightarrow> int" where
  "OPENSSL_tolower c = (if 65 \<le> c \<and> c \<le> 90 then c + (97 - 65) else c)"

function OPENSSL_strcasecmp :: "bytes \<Rightarrow> bytes \<Rightarrow> int" where
  "OPENSSL_strcasecmp a b =
     (let aa = OPENSSL_tolower (sint (chr_at a)); bb = OPENSSL_tolower (sint (chr_at b))
      in if aa < bb then - 1 else if aa > bb then 1 else if aa = 0 then 0
         else OPENSSL_strcasecmp (tl a) (tl b))"
  by auto

fun OPENSSL_strncasecmp :: "bytes \<Rightarrow> bytes \<Rightarrow> nat \<Rightarrow> int" where
  "OPENSSL_strncasecmp a b 0 = 0"
| "OPENSSL_strncasecmp a b (Suc n) =
     (let aa = OPENSSL_tolower (sint (chr_at a)); bb = OPENSSL_tolower (sint (chr_at b))
      in if aa < bb then - 1 else if aa > bb then 1 else if aa = 0 then 0
         else OPENSSL_strncasecmp (tl a) (tl b) n)"

termination OPENSSL_strcasecmp
proof (relation "measure (\<lambda>(a, b). length a)")
  fix a b aa bb
  assume d: "aa = OPENSSL_tolower (sint (chr_at a))" "aa \<noteq> 0"
  then have "a \<noteq> []" by (cases a) (simp_all add: OPENSSL_tolower_def)
  then show "((tl a, tl b), a, b) \<in> measure (\<lambda>(a, b). length a)" by (cases a) simp_all
qed simp

declare OPENSSL_strcasecmp.simps [simp del]

text \<open>\<open>strlcpy\<close> writes at most \<open>dst_size\<close> bytes at \<open>dst\<close>; the model takes the destination array
  and the index of the next byte to write.\<close>

fun strlcpy_loop :: "bytes \<Rightarrow> nat \<Rightarrow> bytes \<Rightarrow> nat \<Rightarrow> nat \<Rightarrow> bytes \<times> nat" where
  "strlcpy_loop dst d src dst_size l =
     (if dst_size > 1 \<and> chr_at src \<noteq> 0
      then strlcpy_loop (write_at dst d [chr_at src]) (d + 1) (tl src) (dst_size - 1) (l + 1)
      else (if dst_size \<noteq> 0 then write_at dst d [0] else dst, l + cstrlen src))"

declare strlcpy_loop.simps [simp del]

definition OPENSSL_strlcpy :: "bytes \<Rightarrow> bytes \<Rightarrow> nat \<Rightarrow> bytes \<times> nat" where
  "OPENSSL_strlcpy dst src dst_size = strlcpy_loop dst 0 src dst_size 0"

fun strlcat_loop :: "bytes \<Rightarrow> nat \<Rightarrow> bytes \<Rightarrow> nat \<Rightarrow> nat \<Rightarrow> bytes \<times> nat" where
  "strlcat_loop dst d src dst_size l =
     (if dst_size > 0 \<and> chr_at (drop d dst) \<noteq> 0
      then strlcat_loop dst (d + 1) src (dst_size - 1) (l + 1)
      else strlcpy_loop dst d src dst_size l)"

declare strlcat_loop.simps [simp del]

definition OPENSSL_strlcat :: "bytes \<Rightarrow> bytes \<Rightarrow> nat \<Rightarrow> bytes \<times> nat" where
  "OPENSSL_strlcat dst src dst_size = strlcat_loop dst 0 src dst_size 0"

section \<open>Lemmas\<close>

lemma OPENSSL_malloc_length:
  "OPENSSL_malloc am n = Some p \<Longrightarrow> n \<le> SIZE_MAX - 8 \<Longrightarrow> length p = n"
  by (auto simp: OPENSSL_malloc_def size_add_small split: option.splits)

lemma OPENSSL_malloc_succeeds:
  "(\<And>m. am m \<noteq> None) \<Longrightarrow> \<exists>p. OPENSSL_malloc am n = Some p"
  by (auto simp: OPENSSL_malloc_def split: option.splits)

lemma OPENSSL_realloc_grow:
  assumes "OPENSSL_realloc am (Some old) n = Some p" "length old \<le> n" "n \<le> SIZE_MAX - 8"
  shows "length p = n \<and> take (length old) p = old"
proof -
  obtain ret where ret: "OPENSSL_malloc am n = Some ret" "p = write_at ret 0 (take (if length old < n then length old else n) old)"
    using assms(1) by (auto simp: OPENSSL_realloc_def Let_def split: option.splits)
  then have "length ret = n" using assms(3) by (intro OPENSSL_malloc_length)
  then show ?thesis using ret assms(2) by (simp add: write_at_def)
qed

lemma OPENSSL_realloc_succeeds:
  "(\<And>m. am m \<noteq> None) \<Longrightarrow> \<exists>p. OPENSSL_realloc am b n = Some p"
  using OPENSSL_malloc_succeeds [of am n]
  by (auto simp: OPENSSL_realloc_def Let_def split: option.splits)

lemma OPENSSL_memdup_Some:
  assumes "OPENSSL_memdup am data = Some p" "length data \<le> SIZE_MAX - 8"
  shows "p = data"
  using assms OPENSSL_malloc_length [of am "length data"]
  by (auto simp: OPENSSL_memdup_def write_at_def split: if_splits option.splits)

lemma memcmp_eq_0: "length a = length b \<Longrightarrow> memcmp a b = 0 \<longleftrightarrow> a = b"
  by (induction a b rule: list_induct2') (auto simp flip: word_uint_eq_iff)

lemma OPENSSL_memcmp_eq_0:
  "length a = length b \<Longrightarrow> OPENSSL_memcmp a b (length a) = 0 \<longleftrightarrow> a = b"
  by (cases a) (auto simp: OPENSSL_memcmp_def memcmp_eq_0 simp del: memcmp.simps)

lemma CRYPTO_memcmp_fold:
  "foldl (\<lambda>x i. x OR (a ! i XOR b ! i)) c is = 0 \<longleftrightarrow> c = 0 \<and> (\<forall>i\<in>set is. (a ! i :: u8) = b ! i)"
proof (induction "is" arbitrary: c)
  case (Cons i "is")
  have "c OR (a ! i XOR b ! i) = 0 \<longleftrightarrow> c = 0 \<and> a ! i = b ! i"
    by (simp add: or_eq_0_iff word_xor_eq_0)
  then show ?case using Cons by auto
qed simp

lemma CRYPTO_memcmp_eq_0:
  assumes "len \<le> length a" "len \<le> length b"
  shows "CRYPTO_memcmp a b len = 0 \<longleftrightarrow> take len a = take len b"
  using assms by (auto simp: CRYPTO_memcmp_def CRYPTO_memcmp_fold list_eq_iff_nth_eq)

text \<open>The characters of a C string.\<close>

definition cstr :: "bytes \<Rightarrow> bytes" where "cstr s = takeWhile (\<lambda>c. c \<noteq> 0) s"

lemma cstr_simps [simp]: "cstr [] = []" "cstr (c # s) = (if c = 0 then [] else c # cstr s)"
  by (simp_all add: cstr_def)

lemma chr_at_0: "chr_at s = 0 \<longleftrightarrow> cstr s = []"
  by (cases s) simp_all

lemma cstr_unfold: "chr_at s \<noteq> 0 \<Longrightarrow> cstr s = chr_at s # cstr (tl s)"
  by (cases s) simp_all

lemma cstrlen_eq: "cstrlen s = length (cstr s)"
  by (induction s) simp_all

lemma OPENSSL_strnlen_eq: "OPENSSL_strnlen s n = min (length (cstr s)) n"
proof (induction s n rule: OPENSSL_strnlen.induct)
  case (2 s len)
  then show ?case by (cases "chr_at s = 0") (simp_all add: chr_at_0 cstr_unfold)
qed simp

lemma strlcpy_loop_eq:
  assumes "d + n \<le> length dst" "0 < n"
  shows "strlcpy_loop dst d src n l =
    (write_at dst d (take (n - 1) (cstr src) @ [0]), l + length (cstr src))"
  using assms
proof (induction dst d src n l rule: strlcpy_loop.induct)
  case (1 dst d src n l)
  show ?case
  proof (cases "n > 1 \<and> chr_at src \<noteq> 0")
    case True
    let ?dst = "write_at dst d [chr_at src]"
    have len: "length ?dst = length dst" using "1.prems" by (simp add: length_write_at)
    have "strlcpy_loop dst d src n l = strlcpy_loop ?dst (d + 1) (tl src) (n - 1) (l + 1)"
      using True by (subst strlcpy_loop.simps) simp
    also have "\<dots> = (write_at ?dst (d + 1) (take (n - 1 - 1) (cstr (tl src)) @ [0]), l + 1 + length (cstr (tl src)))"
      using "1.IH" [OF True] "1.prems" True len by simp
    also have "write_at ?dst (d + 1) (take (n - 1 - 1) (cstr (tl src)) @ [0]) =
        write_at dst d ([chr_at src] @ take (n - 1 - 1) (cstr (tl src)) @ [0])"
    proof -
      have "d + length [chr_at src] + length (take (n - 1 - 1) (cstr (tl src)) @ [0]) \<le> length dst"
        using "1.prems" True by (auto simp: min_def)
      from write_at_append [OF this] show ?thesis by simp
    qed
    also have "[chr_at src] @ take (n - 1 - 1) (cstr (tl src)) @ [0] = take (n - 1) (cstr src) @ [0]"
      using True cstr_unfold [of src] by (cases "n - 1") simp_all
    finally show ?thesis using True cstr_unfold [of src] by simp
  next
    case False
    then have "take (n - 1) (cstr src) = []"
      using "1.prems" by (cases "n - 1") (auto simp: chr_at_0)
    moreover have "strlcpy_loop dst d src n l = (write_at dst d [0], l + cstrlen src)"
      using False "1.prems" by (subst strlcpy_loop.simps) auto
    ultimately show ?thesis by (simp only: cstrlen_eq append_Nil)
  qed
qed

lemma strlcat_loop_eq:
  assumes "d + n = length dst" "length (cstr (drop d dst)) < n"
  shows "strlcat_loop dst d src n l =
    strlcpy_loop dst (d + length (cstr (drop d dst))) src (n - length (cstr (drop d dst)))
      (l + length (cstr (drop d dst)))"
  using assms
proof (induction dst d src n l rule: strlcat_loop.induct)
  case (1 dst d src n l)
  show ?case
  proof (cases "chr_at (drop d dst) = 0")
    case False
    then have c: "cstr (drop d dst) = chr_at (drop d dst) # cstr (drop (Suc d) dst)"
      by (simp add: cstr_unfold drop_Suc tl_drop)
    have "strlcat_loop dst d src n l = strlcat_loop dst (d + 1) src (n - 1) (l + 1)"
      using False "1.prems" by (subst strlcat_loop.simps) simp
    also have "\<dots> = strlcpy_loop dst (d + 1 + length (cstr (drop (d + 1) dst))) src
        (n - 1 - length (cstr (drop (d + 1) dst))) (l + 1 + length (cstr (drop (d + 1) dst)))"
      using "1.prems" False c by (intro "1.IH") simp_all
    finally show ?thesis using c by simp
  next
    case True
    then have "cstr (drop d dst) = []" by (simp add: chr_at_0)
    then show ?thesis using True by (subst strlcat_loop.simps) simp
  qed
qed

lemma cstr_append: "0 \<notin> set xs \<Longrightarrow> cstr (xs @ ys) = xs @ cstr ys"
  by (induction xs) auto

lemma zero_notin_cstr [simp]: "0 \<notin> set (cstr s)"
  by (induction s) auto

lemma zero_notin_take_cstr [simp]: "0 \<notin> set (take n (cstr s))"
  using zero_notin_cstr [of s] by (meson in_set_takeD)

lemma cstr_prefix: "take (length (cstr s)) s = cstr s"
  by (simp add: cstr_def takeWhile_eq_take [symmetric])

lemma strlcpy_result:
  assumes "d + n = length dst" "0 < n"
  shows "fst (strlcpy_loop dst d src n l) = write_at dst d (take (n - 1) (cstr src) @ [0])"
    "snd (strlcpy_loop dst d src n l) = l + length (cstr src)"
    "length (fst (strlcpy_loop dst d src n l)) = length dst"
proof -
  have "d + length (take (n - 1) (cstr src) @ [0]) \<le> length dst" using assms by (auto simp: min_def)
  then show "length (fst (strlcpy_loop dst d src n l)) = length dst"
    using assms by (simp add: strlcpy_loop_eq length_write_at)
qed (use assms in \<open>simp_all add: strlcpy_loop_eq\<close>)

section \<open>The properties of the utilities\<close>

text \<open>What \<open>OPENSSL_malloc\<close> returns. A request that leaves room for the size prefix gets a
  block of its size. Beyond that \<open>size + OPENSSL_MALLOC_PREFIX\<close> wraps around without a test: the
  allocator is asked for less than eight bytes, and when it succeeds the caller is handed a block
  with no usable byte at all.\<close>

lemma OPENSSL_malloc_block_size:
  "(OPENSSL_malloc am n = Some p \<and> n \<le> SIZE_MAX - 8 \<longrightarrow> length p = n) \<and>
   (am (m - (SIZE_MAX - 7)) = Some junk \<and> SIZE_MAX - 8 < m \<and> m \<le> SIZE_MAX \<longrightarrow>
      OPENSSL_malloc am m = Some [])"
proof (intro conjI impI)
  show "length p = n" if "OPENSSL_malloc am n = Some p \<and> n \<le> SIZE_MAX - 8"
    using that OPENSSL_malloc_length by blast
next
  assume m: "am (m - (SIZE_MAX - 7)) = Some junk \<and> SIZE_MAX - 8 < m \<and> m \<le> SIZE_MAX"
  then have "(m + 8) mod 18446744073709551616 = m + 8 - 18446744073709551616"
    by (subst le_mod_geq, simp) (rule mod_less, linarith)
  then have "size_add m 8 = m - (SIZE_MAX - 7)"
    using m by (simp add: size_add_def)
  then show "OPENSSL_malloc am m = Some []"
    using m by (auto simp: OPENSSL_malloc_def)
qed

text \<open>C15: \<open>OPENSSL_strlcpy\<close> and \<open>OPENSSL_strlcat\<close> on a destination of \<open>dst_size > 0\<close> bytes. They
  stay inside the destination, always terminate it, keep as much of the (concatenated) string
  as fits, and return the length the whole string has, so that a caller detects truncation by
  comparing it with \<open>dst_size\<close>.\<close>

theorem strlcpy_strlcat_truncate:
  assumes "0 < length dst"
  shows "(case OPENSSL_strlcpy dst src (length dst) of (dst', r) \<Rightarrow>
       length dst' = length dst \<and> cstr dst' = take (length dst - 1) (cstr src) \<and>
       length (cstr dst') < length dst \<and> r = length (cstr src)) \<and>
    (length (cstr dst) < length dst \<longrightarrow> (case OPENSSL_strlcat dst src (length dst) of (dst', r) \<Rightarrow>
       length dst' = length dst \<and> cstr dst' = take (length dst - 1) (cstr dst @ cstr src) \<and>
       r = length (cstr dst) + length (cstr src)))"
proof (rule conjI, goal_cases)
  case 1
  show ?case using assms strlcpy_result [of 0 "length dst" dst src 0]
    by (simp add: OPENSSL_strlcpy_def case_prod_unfold write_at_def cstr_append min_def)
next
  case 2
  let ?k = "length (cstr dst)"
  have "OPENSSL_strlcat dst src (length dst) = strlcpy_loop dst ?k src (length dst - ?k) ?k"
    if "?k < length dst"
    using that strlcat_loop_eq [of 0 "length dst" dst src 0] by (simp add: OPENSSL_strlcat_def)
  then show ?case
    using assms strlcpy_result [of ?k "length dst - ?k" dst src ?k]
    by (auto simp: case_prod_unfold write_at_def cstr_append cstr_prefix)
qed

theorem strlcpy_strlcat_truncate_witness:
  "OPENSSL_strlcpy [1, 2, 3] [5, 6, 7, 8] 3 = ([5, 6, 0], 4) \<and> OPENSSL_strlcat [1, 0, 3] [5, 6, 7] 3 = ([1, 5, 0], 4)
   \<and> cstr (fst (OPENSSL_strlcpy [1, 2, 3] [5, 6, 7, 8] (length ([1, 2, 3] :: bytes)))) = [5, 6]"
  using strlcpy_strlcat_truncate [of "[1, 2, 3]" "[5, 6, 7, 8]"]
  by (simp add: case_prod_unfold) code_simp

end
