(* ===== verification/Cbb.thy ===== *)
theory Cbb
  imports Cbs Mem "HOL-Library.List_Lexorder"
begin

unbundle bit_operations_syntax

text \<open>
  The builder half of BoringSSL's bytestring library: crypto/bytestring/cbb.c. A \<open>cbb_buffer_st\<close>
  is the record \<open>cbb_buffer\<close>; its \<open>cap\<close> is the length of its block. The CBBs that share a buffer
  form a chain, each the pending child of the one before. A CBB of the model is the view from
  one object of the chain: the buffer it points to, and the frames of the children below it,
  its own child first. \<open>on_child\<close> lifts an operation on the child to its parent, the way the C
  objects alias.

  Growing asks the allocator for a larger block each time, so that a function from sizes to
  results describes every behaviour the allocator can show to one CBB.
\<close>

section \<open>State\<close>

record cbb_buffer =
  buf :: bytes
  len :: nat
  can_resize :: bool
  cbb_error :: bool

record frame =
  offset :: nat
  pending_len_len :: nat
  pending_is_asn1 :: bool

type_synonym cbb = "cbb_buffer option \<times> frame list"

abbreviation fail_buffer :: "cbb_buffer \<Rightarrow> cbb_buffer" where
  "fail_buffer b \<equiv> b\<lparr>cbb_error := True\<rparr>"

definition CBB_zero :: cbb where
  "CBB_zero = (None, [])"

definition cbb_init :: "alloc \<Rightarrow> bytes \<Rightarrow> cbb \<times> bool" where
  "cbb_init am block = (case OPENSSL_malloc am 32 of None \<Rightarrow> (CBB_zero, False)
     | Some _ \<Rightarrow> ((Some \<lparr>buf = block, len = 0, can_resize = True, cbb_error = False\<rparr>, []), True))"

definition CBB_init :: "alloc \<Rightarrow> nat \<Rightarrow> cbb \<times> bool" where
  "CBB_init am initial_capacity = (case OPENSSL_malloc am initial_capacity of
     None \<Rightarrow> if initial_capacity > 0 then (CBB_zero, False) else cbb_init am []
   | Some block \<Rightarrow> cbb_init am block)"

definition CBB_init_fixed :: "alloc \<Rightarrow> bytes \<Rightarrow> cbb \<times> bool" where
  "CBB_init_fixed am block = (case cbb_init am block of
     ((Some b, fs), True) \<Rightarrow> ((Some (b\<lparr>can_resize := False\<rparr>), fs), True) | _ \<Rightarrow> (CBB_zero, False))"

definition CBB_cleanup :: "cbb \<Rightarrow> cbb" where
  "CBB_cleanup cbb = (None, snd cbb)"

section \<open>The buffer\<close>

definition cbb_buffer_reserve :: "alloc \<Rightarrow> cbb_buffer \<Rightarrow> nat \<Rightarrow> cbb_buffer \<times> bool" where
  "cbb_buffer_reserve am b n =
    (let newlen = size_add (len b) n; cap = length (buf b)
     in if newlen < len b then (fail_buffer b, False)
        else if newlen > cap then
          if \<not> can_resize b then (fail_buffer b, False)
          else let newcap = size_mul cap 2;
                   newcap = (if newcap < cap \<or> newcap < newlen then newlen else newcap)
               in case OPENSSL_realloc am (Some (buf b)) newcap of
                    None \<Rightarrow> (fail_buffer b, False)
                  | Some newbuf \<Rightarrow> (b\<lparr>buf := newbuf\<rparr>, True)
        else (b, True))"

text \<open>The bytes of the added space are written by the caller, from index \<open>len b\<close> of the state
  before.\<close>

definition cbb_buffer_add :: "alloc \<Rightarrow> cbb_buffer \<Rightarrow> nat \<Rightarrow> cbb_buffer \<times> bool" where
  "cbb_buffer_add am b n = (case cbb_buffer_reserve am b n of
     (b, False) \<Rightarrow> (b, False)
   | (b, True) \<Rightarrow> (b\<lparr>len := len b + n\<rparr>, True))"

text \<open>\<open>for (i = n - 1; i < n; i--) { out[i] = v; v >>= 8; }\<close>: the bytes and what is left of \<open>v\<close>.\<close>

fun put_be :: "nat \<Rightarrow> u64 \<Rightarrow> bytes \<times> u64" where
  "put_be 0 v = ([], v)"
| "put_be (Suc n) v = (case put_be n (drop_bit 8 v) of (bs, rest) \<Rightarrow> (bs @ [ucast v], rest))"

definition cbb_buffer_add_u :: "alloc \<Rightarrow> cbb_buffer \<Rightarrow> u64 \<Rightarrow> nat \<Rightarrow> cbb_buffer \<times> bool" where
  "cbb_buffer_add_u am b v len_len =
    (if len_len = 0 then (b, True)
     else case cbb_buffer_add am b len_len of
       (b', False) \<Rightarrow> (b', False)
     | (b', True) \<Rightarrow>
         (case put_be len_len v of (bs, rest) \<Rightarrow>
            let b'' = b'\<lparr>buf := write_at (buf b') (len b) bs\<rparr>
            in if rest \<noteq> 0 then (fail_buffer b'', False) else (b'', True)))"

section \<open>Flushing\<close>

text \<open>The length octets of a pending ASN.1 element: the number of length bytes, the first of
  them, and the value the others hold. None: too large.\<close>

definition asn1_len_form :: "nat \<Rightarrow> (nat \<times> u8 \<times> nat) option" where
  "asn1_len_form n =
    (if n > 0xfffffffe then None
     else if n > 0xffffff then Some (5, 0x80 OR 4, n)
     else if n > 0xffff then Some (4, 0x80 OR 3, n)
     else if n > 0xff then Some (3, 0x80 OR 2, n)
     else if n > 0x7f then Some (2, 0x80 OR 1, n)
     else Some (1, of_nat n, 0))"

text \<open>\<open>close_frame\<close> is the part of \<open>CBB_flush\<close> after the child has been flushed, for a child of
  frame \<open>f\<close>.\<close>

definition close_frame :: "alloc \<Rightarrow> frame \<Rightarrow> cbb_buffer \<Rightarrow> cbb_buffer \<times> bool" where
  "close_frame am f b =
    (let child_start = size_add (offset f) (pending_len_len f)
     in if child_start < offset f \<or> len b < child_start then (fail_buffer b, False)
        else let n = len b - child_start
        in if pending_is_asn1 f then
             (case asn1_len_form n of None \<Rightarrow> (fail_buffer b, False)
              | Some (len_len, initial_length_byte, l) \<Rightarrow>
                  (case (if len_len \<noteq> 1 then
                           (case cbb_buffer_add am b (len_len - 1) of
                              (b, False) \<Rightarrow> (b, False)
                            | (b, True) \<Rightarrow> (b\<lparr>buf := write_at (buf b) (child_start + (len_len - 1))
                                                  (take n (drop child_start (buf b)))\<rparr>, True))
                         else (b, True)) of
                     (b, False) \<Rightarrow> (fail_buffer b, False)
                   | (b, True) \<Rightarrow>
                       let b = b\<lparr>buf := write_at (buf b) (offset f) [initial_length_byte]\<rparr>
                       in (case put_be (len_len - 1) (of_nat l) of (bs, rest) \<Rightarrow>
                            let b = b\<lparr>buf := write_at (buf b) (offset f + 1) bs\<rparr>
                            in if rest \<noteq> 0 then (fail_buffer b, False) else (b, True))))
           else (case put_be (pending_len_len f) (of_nat n) of (bs, rest) \<Rightarrow>
                   let b = b\<lparr>buf := write_at (buf b) (offset f) bs\<rparr>
                   in if rest \<noteq> 0 then (fail_buffer b, False) else (b, True)))"

fun flush_frames :: "alloc \<Rightarrow> cbb_buffer \<Rightarrow> frame list \<Rightarrow> (cbb_buffer \<times> frame list) \<times> bool" where
  "flush_frames am b [] = ((b, []), \<not> cbb_error b)"
| "flush_frames am b (f # fs) =
    (if cbb_error b then ((b, f # fs), False)
     else if pending_len_len f = 0 then ((b, f # fs), True)
     else case flush_frames am b fs of
       ((b, fs), False) \<Rightarrow> ((fail_buffer b, f # fs), False)
     | ((b, fs), True) \<Rightarrow>
         (case close_frame am f b of
            (b, False) \<Rightarrow> ((b, f # fs), False)
          | (b, True) \<Rightarrow> ((b, []), True)))"

definition CBB_flush :: "alloc \<Rightarrow> cbb \<Rightarrow> cbb \<times> bool" where
  "CBB_flush am cbb = (case cbb of (None, fs) \<Rightarrow> ((None, fs), False)
     | (Some b, fs) \<Rightarrow> (case flush_frames am b fs of ((b, fs), ok) \<Rightarrow> ((Some b, fs), ok)))"

text \<open>\<open>flushed am f cbb\<close> is the common shape of the operations: flush, fail if that fails, and then
  work on the buffer.\<close>

definition flushed :: "alloc \<Rightarrow> (cbb_buffer \<Rightarrow> cbb_buffer \<times> bool) \<Rightarrow> cbb \<Rightarrow> cbb \<times> bool" where
  "flushed am f cbb = (case CBB_flush am cbb of
     ((Some b, fs), True) \<Rightarrow> (case f b of (b, ok) \<Rightarrow> ((Some b, fs), ok))
   | (cbb, _) \<Rightarrow> (cbb, False))"

definition CBB_finish :: "alloc \<Rightarrow> cbb \<Rightarrow> cbb \<times> bytes option" where
  "CBB_finish am cbb = (case CBB_flush am cbb of
     ((Some b, fs), True) \<Rightarrow> (CBB_cleanup (Some b, fs), Some (take (len b) (buf b)))
   | (cbb, _) \<Rightarrow> (cbb, None))"

text \<open>An operation on the pending child, seen from the parent.\<close>

definition on_child :: "(cbb \<Rightarrow> cbb \<times> bool) \<Rightarrow> cbb \<Rightarrow> cbb \<times> bool" where
  "on_child op cbb = (case cbb of
     (b, f # fs) \<Rightarrow> (case op (b, fs) of ((b, fs), ok) \<Rightarrow> ((b, f # fs), ok))
   | (b, []) \<Rightarrow> ((b, []), False))"

text \<open>\<open>then_do\<close> is C's \<open>&&\<close> on operations.\<close>

definition then_do :: "(cbb \<Rightarrow> cbb \<times> bool) \<Rightarrow> (cbb \<Rightarrow> cbb \<times> bool) \<Rightarrow> cbb \<Rightarrow> cbb \<times> bool" where
  "then_do f g cbb = (case f cbb of (cbb, False) \<Rightarrow> (cbb, False) | (cbb, True) \<Rightarrow> g cbb)"

section \<open>Adding values\<close>

definition cbb_add_length_prefixed :: "alloc \<Rightarrow> nat \<Rightarrow> cbb \<Rightarrow> cbb \<times> bool" where
  "cbb_add_length_prefixed am len_len cbb = (case CBB_flush am cbb of
     ((Some b, fs), True) \<Rightarrow>
       (case cbb_buffer_add am b len_len of
          (b', False) \<Rightarrow> ((Some b', fs), False)
        | (b', True) \<Rightarrow>
            ((Some (b'\<lparr>buf := write_at (buf b') (len b) (replicate len_len 0)\<rparr>),
              [\<lparr>offset = len b, pending_len_len = len_len, pending_is_asn1 = False\<rparr>]), True))
   | (cbb, _) \<Rightarrow> (cbb, False))"

definition CBB_add_u8_length_prefixed :: "alloc \<Rightarrow> cbb \<Rightarrow> cbb \<times> bool" where
  "CBB_add_u8_length_prefixed am = cbb_add_length_prefixed am 1"

definition CBB_add_u16_length_prefixed :: "alloc \<Rightarrow> cbb \<Rightarrow> cbb \<times> bool" where
  "CBB_add_u16_length_prefixed am = cbb_add_length_prefixed am 2"

definition CBB_add_u24_length_prefixed :: "alloc \<Rightarrow> cbb \<Rightarrow> cbb \<times> bool" where
  "CBB_add_u24_length_prefixed am = cbb_add_length_prefixed am 3"

definition CBB_add_u8 :: "alloc \<Rightarrow> u8 \<Rightarrow> cbb \<Rightarrow> cbb \<times> bool" where
  "CBB_add_u8 am v = flushed am (\<lambda>b. cbb_buffer_add_u am b (ucast v) 1)"

definition CBB_add_u16 :: "alloc \<Rightarrow> u16 \<Rightarrow> cbb \<Rightarrow> cbb \<times> bool" where
  "CBB_add_u16 am v = flushed am (\<lambda>b. cbb_buffer_add_u am b (ucast v) 2)"

definition CBB_add_u24 :: "alloc \<Rightarrow> u32 \<Rightarrow> cbb \<Rightarrow> cbb \<times> bool" where
  "CBB_add_u24 am v = flushed am (\<lambda>b. cbb_buffer_add_u am b (ucast v) 3)"

definition CBB_add_u32 :: "alloc \<Rightarrow> u32 \<Rightarrow> cbb \<Rightarrow> cbb \<times> bool" where
  "CBB_add_u32 am v = flushed am (\<lambda>b. cbb_buffer_add_u am b (ucast v) 4)"

definition CBB_add_u64 :: "alloc \<Rightarrow> u64 \<Rightarrow> cbb \<Rightarrow> cbb \<times> bool" where
  "CBB_add_u64 am v = flushed am (\<lambda>b. cbb_buffer_add_u am b v 8)"

definition CBB_add_u16le :: "alloc \<Rightarrow> u16 \<Rightarrow> cbb \<Rightarrow> cbb \<times> bool" where
  "CBB_add_u16le am v = CBB_add_u16 am (CRYPTO_bswap2 v)"

definition CBB_add_u32le :: "alloc \<Rightarrow> u32 \<Rightarrow> cbb \<Rightarrow> cbb \<times> bool" where
  "CBB_add_u32le am v = CBB_add_u32 am (CRYPTO_bswap4 v)"

definition CBB_add_u64le :: "alloc \<Rightarrow> u64 \<Rightarrow> cbb \<Rightarrow> cbb \<times> bool" where
  "CBB_add_u64le am v = CBB_add_u64 am (CRYPTO_bswap8 v)"

definition CBB_add_bytes :: "alloc \<Rightarrow> bytes \<Rightarrow> cbb \<Rightarrow> cbb \<times> bool" where
  "CBB_add_bytes am data = flushed am (\<lambda>b. case cbb_buffer_add am b (length data) of
     (b', False) \<Rightarrow> (b', False)
   | (b', True) \<Rightarrow> (b'\<lparr>buf := write_at (buf b') (len b) data\<rparr>, True))"

text \<open>\<open>CBB_add_space\<close> and \<open>CBB_reserve\<close> hand out a pointer to the bytes from the old length on;
  what the caller writes there is its own.\<close>

definition CBB_add_space :: "alloc \<Rightarrow> nat \<Rightarrow> cbb \<Rightarrow> cbb \<times> bool" where
  "CBB_add_space am n = flushed am (\<lambda>b. cbb_buffer_add am b n)"

definition CBB_reserve :: "alloc \<Rightarrow> nat \<Rightarrow> cbb \<Rightarrow> cbb \<times> bool" where
  "CBB_reserve am n = flushed am (\<lambda>b. cbb_buffer_reserve am b n)"

definition CBB_did_write :: "nat \<Rightarrow> cbb \<Rightarrow> cbb \<times> bool" where
  "CBB_did_write n cbb = (case cbb of
     (Some b, []) \<Rightarrow> let newlen = size_add (len b) n
        in if newlen < len b \<or> newlen > length (buf b) then (cbb, False)
           else ((Some (b\<lparr>len := newlen\<rparr>), []), True)
   | _ \<Rightarrow> (cbb, False))"

definition CBB_discard_child :: "cbb \<Rightarrow> cbb" where
  "CBB_discard_child cbb = (case cbb of
     (Some b, f # fs) \<Rightarrow> (Some (b\<lparr>len := offset f\<rparr>), [])
   | _ \<Rightarrow> cbb)"

section \<open>ASN.1\<close>

function base128_len :: "u64 \<Rightarrow> nat" where
  "base128_len copy = (if copy > 0 then Suc (base128_len (drop_bit 7 copy)) else 0)"
  by auto

termination base128_len
proof (relation "measure unat")
  fix copy :: u64
  assume "copy > 0"
  then have "0 < unat copy" by (simp add: word_less_nat_alt)
  then show "(drop_bit 7 copy, copy) \<in> measure unat" by (simp add: unat_drop_bit_div)
qed simp

declare base128_len.simps [simp del]

text \<open>The bytes for positions \<open>i - 1\<close> down to 0.\<close>

fun add_base128_loop :: "alloc \<Rightarrow> nat \<Rightarrow> u64 \<Rightarrow> cbb \<Rightarrow> cbb \<times> bool" where
  "add_base128_loop am 0 v cbb = (cbb, True)"
| "add_base128_loop am (Suc i) v cbb =
     (let byte = ucast (drop_bit (7 * i) v) AND 0x7f;
          byte = (if i \<noteq> 0 then byte OR 0x80 else byte)
      in then_do (CBB_add_u8 am byte) (add_base128_loop am i v) cbb)"

definition add_base128_integer :: "alloc \<Rightarrow> u64 \<Rightarrow> cbb \<Rightarrow> cbb \<times> bool" where
  "add_base128_integer am v =
    (let len_len = base128_len v; len_len = (if len_len = 0 then 1 else len_len)
     in add_base128_loop am len_len v)"

definition CBB_add_asn1 :: "alloc \<Rightarrow> u32 \<Rightarrow> cbb \<Rightarrow> cbb \<times> bool" where
  "CBB_add_asn1 am tag cbb =
    (let tag_bits = (ucast (drop_bit 24 tag) AND 0xe0 :: u8);
         tag_num = tag AND CBS_ASN1_TAG_NUMBER_MASK
     in case then_do (CBB_flush am)
         (if tag_num \<ge> 0x1f
          then then_do (CBB_add_u8 am (tag_bits OR 0x1f)) (add_base128_integer am (ucast tag_num))
          else CBB_add_u8 am (tag_bits OR ucast tag_num)) cbb of
        ((Some b, fs), True) \<Rightarrow>
          (case CBB_add_u8 am 0 (Some b, fs) of
             ((b', fs), True) \<Rightarrow>
               ((b', [\<lparr>offset = len b, pending_len_len = 1, pending_is_asn1 = True\<rparr>]), True)
           | (cbb, False) \<Rightarrow> (cbb, False))
      | (cbb, _) \<Rightarrow> (cbb, False))"

fun asn1_uint64_add_loop :: "alloc \<Rightarrow> nat \<Rightarrow> bool \<Rightarrow> u64 \<Rightarrow> cbb \<Rightarrow> cbb \<times> bool" where
  "asn1_uint64_add_loop am 0 started v cbb =
     (if \<not> started then CBB_add_u8 am 0 cbb else (cbb, True))"
| "asn1_uint64_add_loop am (Suc n) started v cbb =
     (let byte = (ucast (drop_bit (8 * n) v) :: u8)
      in if \<not> started \<and> byte = 0 then asn1_uint64_add_loop am n False v cbb
         else then_do (if \<not> started \<and> byte AND 0x80 \<noteq> 0 then CBB_add_u8 am 0 else (\<lambda>cbb. (cbb, True)))
               (then_do (CBB_add_u8 am byte) (asn1_uint64_add_loop am n True v)) cbb)"

definition CBB_add_asn1_uint64 :: "alloc \<Rightarrow> u64 \<Rightarrow> cbb \<Rightarrow> cbb \<times> bool" where
  "CBB_add_asn1_uint64 am v = then_do (CBB_add_asn1 am CBS_ASN1_INTEGER)
     (then_do (on_child (asn1_uint64_add_loop am 8 False v)) (CBB_flush am))"

text \<open>The bytes of the union, least significant first.\<close>

definition int64_bytes :: "u64 \<Rightarrow> bytes" where
  "int64_bytes v = map (\<lambda>i. ucast (drop_bit (8 * i) v)) [0..<8]"

fun int64_start :: "bytes \<Rightarrow> nat \<Rightarrow> nat" where
  "int64_start bs start =
    (if start > 0 \<and> bs ! start = 0xff \<and> bs ! (start - 1) AND 0x80 \<noteq> 0
     then int64_start bs (start - 1) else start)"

declare int64_start.simps [simp del]

fun add_bytes_down :: "alloc \<Rightarrow> bytes \<Rightarrow> nat \<Rightarrow> cbb \<Rightarrow> cbb \<times> bool" where
  "add_bytes_down am bs 0 cbb = (cbb, True)"
| "add_bytes_down am bs (Suc i) cbb = then_do (CBB_add_u8 am (bs ! i)) (add_bytes_down am bs i) cbb"

definition CBB_add_asn1_int64 :: "alloc \<Rightarrow> u64 \<Rightarrow> cbb \<Rightarrow> cbb \<times> bool" where
  "CBB_add_asn1_int64 am v =
    (if sint v \<ge> 0 then CBB_add_asn1_uint64 am v
     else let bs = int64_bytes v; start = int64_start bs 7
          in then_do (CBB_add_asn1 am CBS_ASN1_INTEGER)
               (then_do (on_child (add_bytes_down am bs (start + 1))) (CBB_flush am)))"

definition CBB_add_asn1_octet_string :: "alloc \<Rightarrow> bytes \<Rightarrow> cbb \<Rightarrow> cbb \<times> bool" where
  "CBB_add_asn1_octet_string am data = then_do (CBB_add_asn1 am CBS_ASN1_OCTETSTRING)
     (then_do (on_child (CBB_add_bytes am data)) (CBB_flush am))"

definition CBB_add_asn1_bool :: "alloc \<Rightarrow> int \<Rightarrow> cbb \<Rightarrow> cbb \<times> bool" where
  "CBB_add_asn1_bool am v = then_do (CBB_add_asn1 am CBS_ASN1_BOOLEAN)
     (then_do (on_child (CBB_add_u8 am (if v \<noteq> 0 then 0xff else 0))) (CBB_flush am))"

end
