(* ===== verification/Cbb_Flush.thy ===== *)
theory Cbb_Flush
  imports Cbb
begin

text \<open>
  What the CBB operations of Cbb do to the contents of the buffer: the block grows without
  touching what it holds, added bytes are appended, and \<open>CBB_flush\<close> refines \<open>closed\<close>, the
  abstract filling in of the pending length prefixes. Each lemma bounds the sizes by \<open>2 ^ 62\<close>,
  which no object of a 64 bit machine reaches; below it neither the doubling of the capacity nor
  the prefix of \<open>OPENSSL_malloc\<close> wraps around.
\<close>

section \<open>The buffer\<close>

abbreviation out :: "cbb_buffer \<Rightarrow> bytes" where "out b \<equiv> take (len b) (buf b)"

definition buffer_ok :: "cbb_buffer \<Rightarrow> bool" where
  "buffer_ok b \<longleftrightarrow> len b \<le> length (buf b) \<and> length (buf b) \<le> 2 ^ 63 \<and> \<not> cbb_error b"

text \<open>There is room for \<open>n\<close> bytes in all: they fit the block, or the block can grow and the
  allocator delivers.\<close>

definition room :: "alloc \<Rightarrow> cbb_buffer \<Rightarrow> nat \<Rightarrow> bool" where
  "room am b n \<longleftrightarrow> n \<le> length (buf b) \<or> can_resize b \<and> (\<forall>m. am m \<noteq> None)"

text \<open>\<open>reaches am b w r\<close>: the run \<open>r\<close> from \<open>b\<close> ends, when it succeeds, in a good buffer that holds
  \<open>w\<close>; and it does succeed when there is room for \<open>w\<close>.\<close>

definition later :: "cbb_buffer \<Rightarrow> cbb_buffer \<Rightarrow> bool" where
  "later b b' \<longleftrightarrow> buffer_ok b' \<and> can_resize b' = can_resize b \<and> length (buf b) \<le> length (buf b')"

definition reaches :: "alloc \<Rightarrow> cbb_buffer \<Rightarrow> bytes \<Rightarrow> cbb_buffer \<times> bool \<Rightarrow> bool" where
  "reaches am b w r \<longleftrightarrow> (snd r \<longrightarrow> later b (fst r) \<and> out (fst r) = w) \<and>
     (room am b (length w) \<longrightarrow> snd r)"

lemma later_refl: "buffer_ok b \<Longrightarrow> later b b"
  by (simp add: later_def)

lemma later_trans: "later a b \<Longrightarrow> later b c \<Longrightarrow> later a c"
  by (simp add: later_def)

lemma later_room: "later b b' \<Longrightarrow> room am b n \<Longrightarrow> room am b' n"
  by (auto simp: later_def room_def)

lemma room_mono: "room am b n \<Longrightarrow> m \<le> n \<Longrightarrow> room am b m"
  by (auto simp: room_def)

lemma length_out: "buffer_ok b \<Longrightarrow> length (out b) = len b"
  by (simp add: buffer_ok_def)

lemma be_bytes_mod: "be_bytes n (v mod 256 ^ n) = be_bytes n v"
  by (metis be_bytes_be_val be_val_be_bytes length_be_bytes)

lemma put_be_eq: "put_be n v = (be_bytes n (unat v), drop_bit (8 * n) v)"
proof (induction n arbitrary: v)
  case (Suc n)
  have "(of_nat (unat v mod 256) :: u8) = ucast v"
    by (simp add: word_unat_eq_iff unat_of_nat)
  then show ?case using Suc [of "drop_bit 8 v"] by (simp add: unat_drop_bit_div add.commute)
qed simp

lemma put_be_rest: "drop_bit (8 * n) v = 0 \<longleftrightarrow> unat v < 256 ^ n"
  by (simp add: drop_bit_eq_0_iff power_mult)

lemma cbb_buffer_reserve_ok:
  assumes "buffer_ok b" "len b + n \<le> 2 ^ 62"
  shows "cbb_buffer_reserve am b n = (b', True) \<Longrightarrow>
      later b b' \<and> len b' = len b \<and> out b' = out b \<and> len b + n \<le> length (buf b')"
    and "room am b (len b + n) \<Longrightarrow> snd (cbb_buffer_reserve am b n)"
proof -
  let ?cap = "length (buf b)"
  define newcap where "newcap = (if size_mul ?cap 2 < ?cap \<or> size_mul ?cap 2 < len b + n then len b + n else size_mul ?cap 2)"
  have sum: "size_add (len b) n = len b + n" using assms(2) by (intro size_add_small) simp
  have step: "cbb_buffer_reserve am b n =
      (if len b + n > ?cap then if \<not> can_resize b then (fail_buffer b, False)
       else (case OPENSSL_realloc am (Some (buf b)) newcap of None \<Rightarrow> (fail_buffer b, False)
             | Some newbuf \<Rightarrow> (b\<lparr>buf := newbuf\<rparr>, True)) else (b, True))"
    unfolding cbb_buffer_reserve_def Let_def sum newcap_def by simp
  have cap: "?cap < newcap \<and> len b + n \<le> newcap \<and> newcap \<le> 2 ^ 63" if "len b + n > ?cap"
  proof -
    have "size_mul ?cap 2 = ?cap * 2" using that assms(2) by (intro size_mul_small) simp
    then show ?thesis using that assms(2) by (auto simp: newcap_def)
  qed
  {
    assume r: "cbb_buffer_reserve am b n = (b', True)"
    show "later b b' \<and> len b' = len b \<and> out b' = out b \<and> len b + n \<le> length (buf b')"
    proof (cases "len b + n > ?cap")
      case True
      then obtain p where p: "OPENSSL_realloc am (Some (buf b)) newcap = Some p" "b' = b\<lparr>buf := p\<rparr>"
        using r unfolding step by (auto split: if_splits option.splits)
      have "length p = newcap \<and> take ?cap p = buf b"
        using p(1) by (rule OPENSSL_realloc_grow) (use cap [OF True] in auto)
      moreover from this have "take (len b) p = take (len b) (buf b)"
        using assms(1) by (metis buffer_ok_def min.absorb1 take_take)
      ultimately show ?thesis
        using p(2) assms(1) cap [OF True] by (auto simp: later_def buffer_ok_def)
    next
      case False
      then show ?thesis using r assms(1) unfolding step by (auto simp: later_refl)
    qed
  }
  show "snd (cbb_buffer_reserve am b n)" if "room am b (len b + n)"
    using that OPENSSL_realloc_succeeds [of am "Some (buf b)" newcap]
    unfolding step room_def by (auto split: option.splits)
qed

lemma cbb_buffer_add_ok:
  assumes "buffer_ok b" "len b + n \<le> 2 ^ 62"
  shows "cbb_buffer_add am b n = (b', True) \<Longrightarrow>
      later b b' \<and> len b' = len b + n \<and> take (len b) (buf b') = out b"
    and "room am b (len b + n) \<Longrightarrow> snd (cbb_buffer_add am b n)"
proof -
  assume "cbb_buffer_add am b n = (b', True)"
  then obtain b1 where b1: "cbb_buffer_reserve am b n = (b1, True)" "b' = b1\<lparr>len := len b1 + n\<rparr>"
    by (auto simp: cbb_buffer_add_def split: prod.splits bool.splits)
  with cbb_buffer_reserve_ok(1) [OF assms b1(1)]
  show "later b b' \<and> len b' = len b + n \<and> take (len b) (buf b') = out b"
    by (auto simp: later_def buffer_ok_def)
next
  assume "room am b (len b + n)"
  then show "snd (cbb_buffer_add am b n)"
    using cbb_buffer_reserve_ok(2) [OF assms, of am]
    by (auto simp: cbb_buffer_add_def split: prod.splits bool.splits)
qed

text \<open>Adding space and filling it appends.\<close>

lemma fill_added:
  assumes "buffer_ok b" "later b b'" "len b' = len b + length w" "take (len b) (buf b') = out b"
  shows "later b (b'\<lparr>buf := write_at (buf b') (len b) w\<rparr>)"
    and "out (b'\<lparr>buf := write_at (buf b') (len b) w\<rparr>) = out b @ w"
  using assms by (auto simp: later_def buffer_ok_def length_write_at take_write_at_all)

lemma add_and_fill:
  assumes "buffer_ok b" "len b + length w \<le> 2 ^ 62"
  shows "reaches am b (out b @ w) (case cbb_buffer_add am b (length w) of (b', False) \<Rightarrow> (b', False)
     | (b', True) \<Rightarrow> (b'\<lparr>buf := write_at (buf b') (len b) w\<rparr>, True))"
proof (cases "cbb_buffer_add am b (length w)")
  case (Pair b' ok)
  show ?thesis
  proof (cases ok)
    case True
    note add = cbb_buffer_add_ok(1) [OF assms, of am b'] 
    have a: "later b b' \<and> len b' = len b + length w \<and> take (len b) (buf b') = out b"
      using add Pair True by simp
    then show ?thesis
      using fill_added [OF assms(1), of b' w] Pair True by (simp add: reaches_def)
  next
    case False
    then show ?thesis
      using cbb_buffer_add_ok(2) [OF assms, of am] assms(1) Pair
      by (auto simp: reaches_def buffer_ok_def min_absorb1)
  qed
qed

lemma cbb_buffer_add_u_ok:
  assumes "buffer_ok b" "len b + n \<le> 2 ^ 62"
  shows "if unat v < 256 ^ n then reaches am b (out b @ be_bytes n (unat v)) (cbb_buffer_add_u am b v n)
     else n \<noteq> 0 \<longrightarrow> \<not> snd (cbb_buffer_add_u am b v n)"
proof (cases "n = 0")
  case True
  then show ?thesis using assms(1) by (auto simp: cbb_buffer_add_u_def reaches_def later_refl)
next
  case False
  let ?w = "be_bytes n (unat v)"
  have "cbb_buffer_add_u am b v n = (case cbb_buffer_add am b (length ?w) of (b', False) \<Rightarrow> (b', False)
     | (b', True) \<Rightarrow> (let b'' = b'\<lparr>buf := write_at (buf b') (len b) ?w\<rparr>
         in if unat v < 256 ^ n then (b'', True) else (fail_buffer b'', False)))"
    using False by (auto simp: cbb_buffer_add_u_def put_be_eq put_be_rest Let_def split: prod.splits bool.splits)
  then show ?thesis
    using add_and_fill [of b ?w am] assms by (auto simp: Let_def split: prod.splits bool.splits)
qed

section \<open>Flushing\<close>

text \<open>The frames of a chain lie one after the other in the buffer.\<close>

fun frames_ok :: "nat \<Rightarrow> nat \<Rightarrow> frame list \<Rightarrow> bool" where
  "frames_ok lo hi [] = (lo \<le> hi)"
| "frames_ok lo hi (f # fs) = (lo \<le> offset f \<and> 1 \<le> pending_len_len f \<and> pending_len_len f \<le> 3 \<and>
     (pending_is_asn1 f \<longrightarrow> pending_len_len f = 1) \<and> frames_ok (offset f + pending_len_len f) hi fs)"

text \<open>What the contents become when one pending prefix is filled in, and when all are, from the
  innermost on: the abstract meaning of \<open>CBB_flush\<close>.\<close>

definition close_one :: "frame \<Rightarrow> bytes \<Rightarrow> bytes option" where
  "close_one f w =
    (let c = drop (offset f + pending_len_len f) w
     in if pending_is_asn1 f
        then if length c > 0xfffffffe then None else Some (take (offset f) w @ der_len (length c) @ c)
        else if length c < 256 ^ pending_len_len f
             then Some (take (offset f) w @ be_bytes (pending_len_len f) (length c) @ c) else None)"

fun closed :: "frame list \<Rightarrow> bytes \<Rightarrow> bytes option" where
  "closed [] w = Some w"
| "closed (f # fs) w = (case closed fs w of None \<Rightarrow> None | Some w \<Rightarrow> close_one f w)"

lemma asn1_len_form_Some:
  assumes "n \<le> 0xfffffffe"
  obtains k i l where "asn1_len_form n = Some (k, i, l)" "1 \<le> k" "k \<le> 5"
    "i # be_bytes (k - 1) l = der_len n" "l < 256 ^ (k - 1)" "l \<le> n"
proof -
  have or: "(0x80 OR 1 :: u8) = 0x81" "(0x80 OR 2 :: u8) = 0x82" "(0x80 OR 3 :: u8) = 0x83"
    "(0x80 OR 4 :: u8) = 0x84" by simp_all
  consider "n \<le> 0x7f" | "0x7f < n" "n \<le> 0xff" | "0xff < n" "n \<le> 0xffff"
    | "0xffff < n" "n \<le> 0xffffff" | "0xffffff < n" "n \<le> 0xfffffffe"
    using assms by linarith
  then show ?thesis
  proof cases
    case 1
    then show ?thesis
      by (intro that [of 1 "of_nat n" 0]) (simp_all add: asn1_len_form_def der_len_def)
  next
    case 2
    then show ?thesis
      by (intro that [of 2 "0x81" n]) (simp_all add: asn1_len_form_def or der_len_def len_bytes_def)
  next
    case 3
    then show ?thesis
      by (intro that [of 3 "0x82" n]) (simp_all add: asn1_len_form_def or der_len_def len_bytes_def numeral_2_eq_2)
  next
    case 4
    then show ?thesis
      by (intro that [of 4 "0x83" n]) (simp_all add: asn1_len_form_def or der_len_def len_bytes_def)
  next
    case 5
    then show ?thesis
      by (intro that [of 5 "0x84" n]) (simp_all add: asn1_len_form_def or der_len_def len_bytes_def)
  qed
qed

lemma length_der_len: "length (der_len n) \<le> 5"
  by (simp add: der_len_def len_bytes_def)

lemma close_one_length:
  assumes "close_one f w = Some o'" "offset f + pending_len_len f \<le> length w"
    "pending_is_asn1 f \<longrightarrow> pending_len_len f = 1"
  shows "length w \<le> length o'" "length o' \<le> length w + 4"
proof -
  let ?n = "length w - (offset f + pending_len_len f)"
  have d: "1 \<le> length (der_len ?n)" "length (der_len ?n) \<le> 5"
    by (simp_all add: der_len_def len_bytes_def)
  have "length o' = offset f + (if pending_is_asn1 f then length (der_len ?n) else pending_len_len f) + ?n"
    using assms by (auto simp: close_one_def Let_def split: if_splits)
  then show "length w \<le> length o'" "length o' \<le> length w + 4"
    using d assms(2,3) by (auto split: if_splits)
qed

lemma take_write_at_inside:
  "i + length ys \<le> n \<Longrightarrow> n \<le> length xs \<Longrightarrow> take n (write_at xs i ys) = write_at (take n xs) i ys"
  by (simp add: write_at_def min_absorb1 drop_take)

lemma later_write:
  "later b b' \<Longrightarrow> i + length ys \<le> length (buf b') \<Longrightarrow> later b (b'\<lparr>buf := write_at (buf b') i ys\<rparr>)"
  by (simp add: later_def buffer_ok_def length_write_at)

lemma unat_of_nat_u64: "n < 2 ^ 64 \<Longrightarrow> unat (of_nat n :: u64) = n"
  by (simp add: unat_of_nat)

lemma close_frame_plain:
  assumes "buffer_ok b" "offset f + pending_len_len f \<le> len b" "len b + 4 \<le> 2 ^ 62"
    "\<not> pending_is_asn1 f"
  shows "case close_one f (out b) of None \<Rightarrow> \<not> snd (close_frame am f b)
    | Some w \<Rightarrow> reaches am b w (close_frame am f b)"
proof -
  define n where "n = len b - (offset f + pending_len_len f)"
  let ?w = "be_bytes (pending_len_len f) n"
  have cs: "size_add (offset f) (pending_len_len f) = offset f + pending_len_len f"
    using assms(2,3) by (intro size_add_small) simp
  have n: "unat (of_nat n :: u64) = n" using assms(3) by (intro unat_of_nat_u64) (simp add: n_def)
  have step: "close_frame am f b = (if n < 256 ^ pending_len_len f
      then (b\<lparr>buf := write_at (buf b) (offset f) ?w\<rparr>, True)
      else (fail_buffer (b\<lparr>buf := write_at (buf b) (offset f) ?w\<rparr>), False))"
    using assms(2,4) by (simp add: close_frame_def cs put_be_eq put_be_rest n Let_def flip: n_def)
  have one: "close_one f (out b) = (if n < 256 ^ pending_len_len f
      then Some (write_at (out b) (offset f) ?w) else None)"
    using assms by (simp add: close_one_def Let_def n_def write_at_def length_out min_absorb1 buffer_ok_def)
  have "later b (b\<lparr>buf := write_at (buf b) (offset f) ?w\<rparr>)"
    using assms(1,2) by (intro later_write later_refl) (simp_all add: buffer_ok_def)
  then show ?thesis
    using assms(1,2) by (simp add: step one reaches_def take_write_at_inside buffer_ok_def)
qed

lemma shift_and_prefix:
  assumes "length w0 = length w + e" "take (length w) w0 = w" "off + 1 \<le> length w" "length bs = e"
  shows "write_at (write_at w0 (off + 1 + e) (drop (off + 1) w)) off (i # bs) =
    take off w @ (i # bs) @ drop (off + 1) w"
proof -
  have "take (off + 1 + e) w0 @ drop (off + 1) w = write_at w0 (off + 1 + e) (drop (off + 1) w)"
    using assms by (simp add: write_at_def)
  moreover have "take off w0 = take off w"
    using assms(2,3) by (metis add_leD1 min.absorb1 take_take)
  ultimately show ?thesis
    using assms by (simp add: write_at_def min_absorb1)
qed

lemma close_frame_asn1:
  assumes "buffer_ok b" "offset f + 1 \<le> len b" "len b + 4 \<le> 2 ^ 62"
    "pending_is_asn1 f" "pending_len_len f = 1"
  shows "case close_one f (out b) of None \<Rightarrow> \<not> snd (close_frame am f b)
    | Some w \<Rightarrow> reaches am b w (close_frame am f b)"
proof -
  define n where "n = len b - Suc (offset f)"
  have cs: "size_add (offset f) (Suc 0) = Suc (offset f)" using assms(2,3) by (simp add: size_add_small)
  let ?c = "drop (offset f + 1) (out b)"
  have c: "length ?c = n" using assms(1) by (simp add: n_def buffer_ok_def)
  show ?thesis
  proof (cases "n \<le> 0xfffffffe")
    case False
    then have "close_one f (out b) = None" using assms(4,5) c by (simp add: close_one_def)
    moreover have "\<not> snd (close_frame am f b)"
    proof -
      have "asn1_len_form n = None" using False by (simp add: asn1_len_form_def)
      then show ?thesis using assms by (simp add: close_frame_def cs Let_def flip: n_def)
    qed
    ultimately show ?thesis by simp
  next
    case True
    then obtain k i l where form: "asn1_len_form n = Some (k, i, l)" "1 \<le> k" "k \<le> 5"
        "i # be_bytes (k - 1) l = der_len n" "l < 256 ^ (k - 1)" "l \<le> n"
      by (rule asn1_len_form_Some)
    let ?bs = "be_bytes (k - 1) l"
    have l: "unat (of_nat l :: u64) = l" using form(6) True by (intro unat_of_nat_u64) simp
    have one: "close_one f (out b) = Some (take (offset f) (out b) @ (i # ?bs) @ ?c)"
      using assms(4,5) c True form(4) by (simp add: close_one_def Let_def)
    have lo: "length (take (offset f) (out b) @ (i # ?bs) @ ?c) = len b + (k - 1)"
      using assms(1,2) c by (simp add: n_def buffer_ok_def min_absorb2)
    have step: "close_frame am f b =
      (case (if k \<noteq> 1 then (case cbb_buffer_add am b (k - 1) of (b, False) \<Rightarrow> (b, False)
          | (b, True) \<Rightarrow> (b\<lparr>buf := write_at (buf b) (offset f + 1 + (k - 1))
               (take n (drop (offset f + 1) (buf b)))\<rparr>, True)) else (b, True)) of
         (b, False) \<Rightarrow> (fail_buffer b, False)
       | (b, True) \<Rightarrow> (b\<lparr>buf := write_at (write_at (buf b) (offset f) [i]) (offset f + 1) ?bs\<rparr>, True))"
      using assms(2,4,5) form(1,5) l
      by (simp add: close_frame_def cs Let_def put_be_eq put_be_rest flip: n_def cong: if_cong)
        (auto split: prod.splits bool.splits)
    show ?thesis
    proof (cases "k = 1")
      case True
      have "later b (b\<lparr>buf := write_at (buf b) (offset f) [i]\<rparr>)"
        using assms(1,2) by (intro later_write later_refl) (simp_all add: buffer_ok_def)
      then show ?thesis
        using True assms(1,2) by (simp add: step one reaches_def buffer_ok_def length_write_at
            take_write_at_inside) (simp add: write_at_def min_absorb1)
    next
      case False
      obtain b1 ok where add: "cbb_buffer_add am b (k - 1) = (b1, ok)" by (cases "cbb_buffer_add am b (k - 1)")
      have le: "len b + (k - 1) \<le> 2 ^ 62" using form(3) assms(3) by simp
      show ?thesis
      proof (cases ok)
        case False
        then have "\<not> room am b (len b + (k - 1))"
          using cbb_buffer_add_ok(2) [OF assms(1) le, of am] add by auto
        then show ?thesis
          using lo False add \<open>k \<noteq> 1\<close> by (simp add: step one reaches_def del: length_append)
      next
        case True
        then have b1: "later b b1" "len b1 = len b + (k - 1)" "take (len b) (buf b1) = out b"
          using cbb_buffer_add_ok(1) [OF assms(1) le, of am b1] add by auto
        then have ok1: "len b1 \<le> length (buf b1)" by (simp add: later_def buffer_ok_def)
        have mv: "take n (drop (offset f + 1) (buf b1)) = ?c"
          using b1(3) by (simp add: n_def flip: drop_take)
        let ?B = "write_at (write_at (buf b1) (offset f + 1 + (k - 1)) ?c) (offset f) (i # ?bs)"
        have bnd: "offset f + 1 + (k - 1) + length ?c \<le> len b1" "offset f + length (i # ?bs) \<le> len b1"
          using assms(2) c b1(2) by (simp_all add: n_def)
        have "write_at (write_at (write_at (buf b1) (offset f + 1 + (k - 1)) ?c) (offset f) [i])
            (offset f + 1) ?bs = ?B"
          using write_at_append [of "offset f" "[i]" ?bs] bnd ok1 by (simp add: length_write_at)
        then have res: "close_frame am f b = (b1\<lparr>buf := ?B\<rparr>, True)"
          using True add \<open>k \<noteq> 1\<close> mv by (simp add: step)
        have lenB: "length ?B = length (buf b1)"
          using bnd ok1 by (simp add: length_write_at)
        have "take (len b1) ?B = write_at (write_at (out b1) (offset f + 1 + (k - 1)) ?c) (offset f) (i # ?bs)"
          using bnd ok1 by (simp add: take_write_at_inside length_write_at)
        also have "\<dots> = take (offset f) (out b) @ (i # ?bs) @ ?c"
          using b1 ok1 assms(1,2) by (intro shift_and_prefix) (simp_all add: length_out buffer_ok_def min_absorb1)
        finally show ?thesis
          using b1(1) lenB by (simp add: res one reaches_def later_def buffer_ok_def)
      qed
    qed
  qed
qed

lemma close_frame_ok:
  assumes "buffer_ok b" "offset f + pending_len_len f \<le> len b" "len b + 4 \<le> 2 ^ 62"
    "pending_is_asn1 f \<longrightarrow> pending_len_len f = 1"
  shows "case close_one f (out b) of None \<Rightarrow> \<not> snd (close_frame am f b)
    | Some w \<Rightarrow> reaches am b w (close_frame am f b)"
proof (cases "pending_is_asn1 f")
  case True
  with assms show ?thesis by (intro close_frame_asn1) simp_all
next
  case False
  with assms show ?thesis by (intro close_frame_plain)
qed

lemma reaches_trans:
  assumes "reaches am b w (b1, True)" "reaches am b1 w' r" "length w \<le> length w'"
  shows "reaches am b w' r"
  using assms later_room room_mono unfolding reaches_def by (auto intro: later_trans)

lemma frames_ok_le: "frames_ok lo hi fs \<Longrightarrow> lo \<le> hi"
  by (induction fs arbitrary: lo) fastforce+

lemma closed_length:
  assumes "frames_ok lo (length w) fs" "closed fs w = Some w'"
  shows "length w \<le> length w' \<and> length w' \<le> length w + 4 * length fs"
  using assms
proof (induction fs arbitrary: lo w')
  case (Cons f fs)
  then obtain w1 where w1: "closed fs w = Some w1" "close_one f w1 = Some w'"
    by (auto split: option.splits)
  have f: "frames_ok (offset f + pending_len_len f) (length w) fs" using Cons.prems by simp
  note IH = Cons.IH [OF f w1(1)]
  have "offset f + pending_len_len f \<le> length w1" using frames_ok_le [OF f] IH by simp
  then show ?case using close_one_length [OF w1(2)] IH Cons.prems(1) by fastforce
qed simp

text \<open>One level of \<open>CBB_flush\<close>: the children are flushed, then the frame is closed.\<close>

lemma flush_frames_step:
  assumes b: "buffer_ok b" and r: "flush_frames am b fs = ((b1, fs1), ok)"
    and IH: "reaches am b w (b1, ok)"
    and f: "offset f + pending_len_len f \<le> length w" "pending_len_len f \<noteq> 0"
      "pending_is_asn1 f \<longrightarrow> pending_len_len f = 1" and l: "length w + 4 \<le> 2 ^ 62"
  shows "case close_one f w of None \<Rightarrow> \<not> snd (flush_frames am b (f # fs))
    | Some w' \<Rightarrow> reaches am b w' (fst (fst (flush_frames am b (f # fs))), snd (flush_frames am b (f # fs))) \<and>
        (snd (flush_frames am b (f # fs)) \<longrightarrow> snd (fst (flush_frames am b (f # fs))) = [])"
proof -
  have e: "\<not> cbb_error b" using b by (simp add: buffer_ok_def)
  show ?thesis
  proof (cases ok)
    case False
    then have "\<not> room am b (length w)" using IH by (simp add: reaches_def)
    then have "\<not> room am b (length w')" if "close_one f w = Some w'" for w'
      using close_one_length(1) [OF that f(1,3)] room_mono by blast
    then show ?thesis using r e f(2) False by (auto simp: reaches_def split: option.split)
  next
    case True
    then have b1: "buffer_ok b1" "out b1 = w" using IH by (simp_all add: reaches_def later_def)
    then have len: "len b1 = length w" using length_out by metis
    have step: "flush_frames am b (f # fs) = (case close_frame am f b1 of (b, False) \<Rightarrow> ((b, f # fs1), False)
        | (b, True) \<Rightarrow> ((b, []), True))"
      using r e f(2) True by simp
    have close: "case close_one f w of None \<Rightarrow> \<not> snd (close_frame am f b1)
        | Some w' \<Rightarrow> reaches am b1 w' (close_frame am f b1)"
      using close_frame_ok [OF b1(1) _ _ f(3), of am] b1(2) f(1) l len by simp
    show ?thesis
    proof (cases "close_one f w")
      case None
      then show ?thesis using close
        by (auto simp: step simp del: flush_frames.simps split: prod.splits bool.splits)
    next
      case (Some w')
      have "length w \<le> length w'" using close_one_length(1) [OF Some f(1,3)] .
      then have "reaches am b w' (close_frame am f b1)"
        using reaches_trans [of am b w b1 w'] IH True close Some by simp
      then show ?thesis using Some
        by (auto simp: step reaches_def simp del: flush_frames.simps split: prod.splits bool.splits)
    qed
  qed
qed

lemma closed_out_length:
  "buffer_ok b \<Longrightarrow> frames_ok lo (len b) fs \<Longrightarrow> closed fs (out b) = Some w \<Longrightarrow>
    len b \<le> length w \<and> length w \<le> len b + 4 * length fs"
  using closed_length [of lo "out b" fs w] by (simp only: length_out)

lemma flush_frames_ok:
  assumes "buffer_ok b" "frames_ok lo (len b) fs" "len b + 4 * length fs \<le> 2 ^ 62"
  shows "case closed fs (out b) of None \<Rightarrow> \<not> snd (flush_frames am b fs)
    | Some w \<Rightarrow> reaches am b w (fst (fst (flush_frames am b fs)), snd (flush_frames am b fs)) \<and>
        (snd (flush_frames am b fs) \<longrightarrow> snd (fst (flush_frames am b fs)) = [])"
  using assms(2,3)
proof (induction fs arbitrary: lo)
  case Nil
  then show ?case using assms(1) by (simp add: reaches_def later_refl) (simp add: buffer_ok_def)
next
  case (Cons f fs)
  have f: "frames_ok (offset f + pending_len_len f) (len b) fs" "pending_len_len f \<noteq> 0"
    "pending_is_asn1 f \<longrightarrow> pending_len_len f = 1" using Cons.prems(1) by auto
  obtain b1 fs1 ok where r: "flush_frames am b fs = ((b1, fs1), ok)" by (cases "flush_frames am b fs") auto
  note IH = Cons.IH [OF f(1)]
  show ?case
  proof (cases "closed fs (out b)")
    case None
    then have "\<not> ok" using IH Cons.prems(2) r by simp
    then show ?thesis using r f(2) None by simp
  next
    case (Some w)
    then have "reaches am b w (b1, ok)" using IH Cons.prems(2) r by simp
    moreover note lw = closed_out_length [OF assms(1) f(1) Some]
    moreover have "offset f + pending_len_len f \<le> length w" using frames_ok_le [OF f(1)] lw by simp
    moreover have "length w + 4 \<le> 2 ^ 62" using lw Cons.prems(2) by simp
    ultimately show ?thesis
      using flush_frames_step [OF assms(1) r _ _ f(2,3)] Some by (simp del: flush_frames.simps)
  qed
qed

end
