(* ===== verification/Cbb_Write.thy ===== *)
theory Cbb_Write
  imports Cbb_Flush
begin

text \<open>
  What each CBB operation writes. \<open>emits am op c\<close> is the contract all of them are shown to
  satisfy; it composes along \<open>&&\<close> (\<open>emits_then_do\<close>) and through children (\<open>emits_with_child\<close>), so
  that the output of a program over the library is computed from its text.
\<close>

section \<open>Writers\<close>

definition wf :: "cbb_buffer \<Rightarrow> frame list \<Rightarrow> bool" where
  "wf b fs \<longleftrightarrow> buffer_ok b \<and> frames_ok 0 (len b) fs"

text \<open>\<open>emits am op c\<close>: the operation writes \<open>c\<close>. From a good state whose contents, all pending
  prefixes filled in, would be \<open>w\<close>, a successful run leaves a good state whose contents would be
  \<open>w @ c\<close>; and it does succeed when there is room. At most one prefix is left pending that was
  not before.\<close>

definition written :: "cbb_buffer \<Rightarrow> nat \<Rightarrow> bytes \<Rightarrow> cbb \<Rightarrow> bool" where
  "written b k w s \<longleftrightarrow> (case s of (None, _) \<Rightarrow> False
     | (Some b', fs') \<Rightarrow> later b b' \<and> frames_ok 0 (len b') fs' \<and> length fs' \<le> k \<and>
         closed fs' (out b') = Some w)"

definition emits :: "alloc \<Rightarrow> (cbb \<Rightarrow> cbb \<times> bool) \<Rightarrow> bytes \<Rightarrow> bool" where
  "emits am op c \<longleftrightarrow> (\<forall>b fs w. wf b fs \<and> length fs \<le> 1000 \<and> closed fs (out b) = Some w \<and>
       length w + length c \<le> 2 ^ 61 \<longrightarrow>
     (snd (op (Some b, fs)) \<longrightarrow> written b (max 1 (length fs)) (w @ c) (fst (op (Some b, fs)))) \<and>
     (room am b (length w + length c) \<longrightarrow> snd (op (Some b, fs))))"

lemma emitsI:
  assumes "\<And>b fs w. wf b fs \<Longrightarrow> length fs \<le> 1000 \<Longrightarrow> closed fs (out b) = Some w \<Longrightarrow>
      length w + length c \<le> 2 ^ 61 \<Longrightarrow>
      (snd (op (Some b, fs)) \<longrightarrow> written b (max 1 (length fs)) (w @ c) (fst (op (Some b, fs)))) \<and>
      (room am b (length w + length c) \<longrightarrow> snd (op (Some b, fs)))"
  shows "emits am op c"
  using assms unfolding emits_def by blast

lemma emitsD:
  assumes "emits am op c" "wf b fs" "length fs \<le> 1000" "closed fs (out b) = Some w"
    "length w + length c \<le> 2 ^ 61"
  shows "op (Some b, fs) = (s, True) \<Longrightarrow>
      \<exists>b' fs'. s = (Some b', fs') \<and> later b b' \<and> wf b' fs' \<and> length fs' \<le> max 1 (length fs) \<and>
        closed fs' (out b') = Some (w @ c)"
    and "room am b (length w + length c) \<Longrightarrow> snd (op (Some b, fs))"
proof -
  have e: "(snd (op (Some b, fs)) \<longrightarrow> written b (max 1 (length fs)) (w @ c) (fst (op (Some b, fs)))) \<and>
      (room am b (length w + length c) \<longrightarrow> snd (op (Some b, fs)))"
    using assms unfolding emits_def by blast
  then show "room am b (length w + length c) \<Longrightarrow> snd (op (Some b, fs))" by blast
  assume "op (Some b, fs) = (s, True)"
  then show "\<exists>b' fs'. s = (Some b', fs') \<and> later b b' \<and> wf b' fs' \<and> length fs' \<le> max 1 (length fs) \<and>
        closed fs' (out b') = Some (w @ c)"
    using e by (auto simp: written_def wf_def later_def split: prod.splits option.splits)
qed

lemma CBB_flush_ok:
  assumes "wf b fs" "length fs \<le> 1001" "closed fs (out b) = Some w" "length w \<le> 2 ^ 61"
  shows "CBB_flush am (Some b, fs) = (s, True) \<Longrightarrow> \<exists>b'. s = (Some b', []) \<and> later b b' \<and> out b' = w"
    and "room am b (length w) \<Longrightarrow> snd (CBB_flush am (Some b, fs))"
proof -
  have b: "buffer_ok b" "frames_ok 0 (len b) fs" using assms(1) by (simp_all add: wf_def)
  have "len b \<le> length w" using closed_out_length [OF b assms(3)] by simp
  then have "len b + 4 * length fs \<le> 2 ^ 62" using assms(2,4) by simp
  note fl = flush_frames_ok [OF b this, of am, unfolded assms(3), simplified]
  obtain b' fs' ok where r: "flush_frames am b fs = ((b', fs'), ok)" by (cases "flush_frames am b fs") auto
  show "\<exists>b'. s = (Some b', []) \<and> later b b' \<and> out b' = w" if "CBB_flush am (Some b, fs) = (s, True)"
    using that fl r by (auto simp: CBB_flush_def reaches_def)
  show "snd (CBB_flush am (Some b, fs))" if "room am b (length w)"
    using that fl r by (auto simp: CBB_flush_def reaches_def)
qed

lemma CBB_flush_None:
  assumes "wf b fs" "length fs \<le> 1001" "closed fs (out b) = None" "len b \<le> 2 ^ 61"
  shows "\<not> snd (CBB_flush am (Some b, fs))"
proof -
  have b: "buffer_ok b" "frames_ok 0 (len b) fs" using assms(1) by (simp_all add: wf_def)
  have "len b + 4 * length fs \<le> 2 ^ 62" using assms(2,4) by simp
  note fl = flush_frames_ok [OF b this, of am, unfolded assms(3), simplified]
  then show ?thesis by (auto simp: CBB_flush_def split: prod.splits)
qed

text \<open>The operations that flush and then append to the buffer.\<close>

lemma emits_flushed:
  assumes "\<And>b. buffer_ok b \<Longrightarrow> len b + length c \<le> 2 ^ 62 \<Longrightarrow> reaches am b (out b @ c) (f b)"
  shows "emits am (flushed am f) c"
proof (rule emitsI)
  fix b fs w
  assume wf: "wf b fs" "length fs \<le> 1000" and Some: "closed fs (out b) = Some w"
    and l: "length w + length c \<le> 2 ^ 61"
  note fl = CBB_flush_ok [OF wf(1) _ Some, of am]
  obtain s ok where r: "CBB_flush am (Some b, fs) = (s, ok)" by (cases "CBB_flush am (Some b, fs)")
  show "(snd (flushed am f (Some b, fs)) \<longrightarrow> written b (max 1 (length fs)) (w @ c) (fst (flushed am f (Some b, fs)))) \<and>
      (room am b (length w + length c) \<longrightarrow> snd (flushed am f (Some b, fs)))"
  proof (cases ok)
    case False
    have "\<not> room am b (length w + length c)"
      using fl(2) r False wf(2) l room_mono [of am b "length w + length c" "length w"] by auto
    then show ?thesis using r False by (auto simp: flushed_def split: prod.splits option.splits)
  next
    case True
    then obtain b' where b': "s = (Some b', [])" "later b b'" "out b' = w"
      using fl(1) [of s] r wf(2) l by auto
    then have ok': "buffer_ok b'" by (simp add: later_def)
    then have "len b' = length w" using b'(3) length_out by metis
    then have re: "reaches am b' (w @ c) (f b')" using assms [OF ok'] b'(3) l by simp
    show ?thesis
      using re r True b' later_room [OF b'(2)] later_trans [OF b'(2)]
      by (auto simp: flushed_def reaches_def written_def later_def buffer_ok_def split: prod.splits)
  qed
qed

lemma emits_then_do:
  assumes f: "emits am f c" and g: "emits am g d"
  shows "emits am (then_do f g) (c @ d)"
proof (rule emitsI)
  fix b fs w
  assume wf: "wf b fs" "length fs \<le> 1000" and w: "closed fs (out b) = Some w"
    and l: "length w + length (c @ d) \<le> 2 ^ 61"
  have l1: "length w + length c \<le> 2 ^ 61" using l by simp
  note F = emitsD [OF f wf w l1]
  obtain s ok where r: "f (Some b, fs) = (s, ok)" by (cases "f (Some b, fs)")
  show "(snd (then_do f g (Some b, fs)) \<longrightarrow>
        written b (max 1 (length fs)) (w @ c @ d) (fst (then_do f g (Some b, fs)))) \<and>
      (room am b (length w + length (c @ d)) \<longrightarrow> snd (then_do f g (Some b, fs)))"
  proof (cases ok)
    case False
    then have "\<not> room am b (length w + length (c @ d))"
      using F(2) r room_mono [of am b "length w + length (c @ d)" "length w + length c"] by auto
    then show ?thesis using r False by (auto simp: then_do_def)
  next
    case True
    then obtain b1 fs1 where s: "s = (Some b1, fs1)" "later b b1" "wf b1 fs1"
        "length fs1 \<le> max 1 (length fs)" "closed fs1 (out b1) = Some (w @ c)"
      using F(1) [of s] r by auto
    then have k: "length fs1 \<le> 1000" using wf(2) by simp
    have l2: "length (w @ c) + length d \<le> 2 ^ 61" using l by simp
    note G = emitsD [OF g s(3) k s(5) l2]
    obtain s2 ok2 where r2: "g (Some b1, fs1) = (s2, ok2)" by (cases "g (Some b1, fs1)")
    have run: "then_do f g (Some b, fs) = (s2, ok2)" using r r2 True s(1) by (simp add: then_do_def)
    have "written b (max 1 (length fs)) (w @ c @ d) s2" if "ok2"
    proof -
      have "g (Some b1, fs1) = (s2, True)" using r2 that by simp
      from G(1) [OF this] obtain b2 fs2 where s2: "s2 = (Some b2, fs2)" "later b1 b2" "wf b2 fs2"
          "length fs2 \<le> max 1 (length fs1)" "closed fs2 (out b2) = Some ((w @ c) @ d)"
        by blast
      then show ?thesis
        using s(2,4) by (auto simp: written_def wf_def intro: later_trans)
    qed
    moreover have "ok2" if "room am b (length w + length (c @ d))"
      using G(2) r2 later_room [OF s(2) that] by (simp add: add.assoc)
    ultimately show ?thesis by (simp add: run)
  qed
qed

lemma emits_nop: "emits am (\<lambda>s. (s, True)) []"
  by (rule emitsI) (simp add: written_def wf_def later_refl)

lemma emits_flush: "emits am (CBB_flush am) []"
proof -
  have "CBB_flush am = flushed am (\<lambda>b. (b, True))" if True
    by (rule ext) (auto simp: flushed_def CBB_flush_def split: prod.splits option.splits bool.splits)
  moreover have "emits am (flushed am (\<lambda>b. (b, True))) []"
    by (rule emits_flushed) (simp add: reaches_def later_refl)
  ultimately show ?thesis by simp
qed

section \<open>The writers of the component\<close>

lemma emits_add_bytes: "emits am (CBB_add_bytes am data) data"
  unfolding CBB_add_bytes_def by (rule emits_flushed) (rule add_and_fill)

lemma emits_add_u:
  "unat v < 256 ^ n \<Longrightarrow> emits am (flushed am (\<lambda>b. cbb_buffer_add_u am b v n)) (be_bytes n (unat v))"
  by (rule emits_flushed) (use cbb_buffer_add_u_ok [of _ n v am] in auto)

lemma emits_add_u8: "emits am (CBB_add_u8 am v) [v]"
proof -
  have v: "unat (ucast v :: u64) = unat v" by (simp add: unsigned_ucast_eq take_bit_nat_eq_self less_trans [OF unat_u8_less])
  have "be_bytes 1 (unat v) = [v]" by simp
  then show ?thesis using emits_add_u [of "ucast v" 1 am] v by (simp add: CBB_add_u8_def)
qed

lemma emits_add_u16: "emits am (CBB_add_u16 am v) (be_bytes 2 (unat v))"
proof -
  have l: "unat v < 2 ^ LENGTH(16)" by (rule unsigned_less)
  then have v: "unat (ucast v :: u64) = unat v" by (simp add: unsigned_ucast_eq take_bit_nat_eq_self)
  show ?thesis using emits_add_u [of "ucast v" 2 am] v l by (simp add: CBB_add_u16_def)
qed

lemma emits_add_u24: "unat v < 2 ^ 24 \<Longrightarrow> emits am (CBB_add_u24 am v) (be_bytes 3 (unat v))"
proof -
  assume l: "unat v < 2 ^ 24"
  then have v: "unat (ucast v :: u64) = unat v" by (simp add: unsigned_ucast_eq take_bit_nat_eq_self)
  show ?thesis using emits_add_u [of "ucast v" 3 am] v l by (simp add: CBB_add_u24_def)
qed

lemma emits_add_u32: "emits am (CBB_add_u32 am v) (be_bytes 4 (unat v))"
proof -
  have l: "unat v < 2 ^ 32" by (rule unat_u32_less)
  then have v: "unat (ucast v :: u64) = unat v" by (simp add: unsigned_ucast_eq take_bit_nat_eq_self)
  show ?thesis using emits_add_u [of "ucast v" 4 am] v l by (simp add: CBB_add_u32_def)
qed

lemma emits_add_u64: "emits am (CBB_add_u64 am v) (be_bytes 8 (unat v))"
  unfolding CBB_add_u64_def using emits_add_u [of v 8 am] unat_u64_less [of v] by simp

text \<open>Base 128.\<close>

lemma base128_len_0 [simp]: "base128_len 0 = 0"
  by (simp add: base128_len.simps)

lemma base128_len_pos: "0 < unat v \<Longrightarrow> base128_len v = Suc (base128_len (drop_bit 7 v))"
  by (subst base128_len.simps) (simp add: word_less_nat_alt)

fun high_digits :: "nat \<Rightarrow> nat \<Rightarrow> bytes" where
  "high_digits 0 m = []"
| "high_digits (Suc i) m = of_nat (128 + m div 128 ^ i mod 128) # high_digits i m"

lemma high_digits_snoc:
  "high_digits (Suc k) m = high_digits k (m div 128) @ [of_nat (128 + m mod 128)]"
proof (induction k)
  case (Suc k)
  have "m div 128 ^ Suc k = m div 128 div 128 ^ k" by (simp add: div_mult2_eq)
  then show ?case using Suc by simp
qed simp

lemma high_digits_base128_len: "high_digits (base128_len v) (unat v) = base128_high (unat v)"
proof (induction v rule: base128_len.induct)
  case (1 v)
  show ?case
  proof (cases "v > 0")
    case True
    then have "0 < unat v" by (simp add: word_less_nat_alt)
    moreover have "unat (drop_bit 7 v) = unat v div 128" by (simp add: unat_drop_bit_div)
    ultimately show ?thesis
      using 1 True base128_high.simps [of "unat v"]
      by (simp only: base128_len_pos high_digits_snoc) simp
  next
    case False
    then have "v = 0" by (simp add: word_gt_0)
    then show ?thesis by simp
  qed
qed

lemma or_0x80: "(x AND 0x7f) OR 0x80 = (of_nat (128 + unat x mod 128) :: u8)"
proof -
  have e: "(0x80 :: u8) = push_bit 7 1" by simp
  have "unat (push_bit 7 1 OR (x AND 0x7f)) = 1 * 2 ^ 7 + unat x mod 128"
    by (subst unat_push_or) (simp_all add: unat_and_7F add_less_mono)
  then show ?thesis
    unfolding e by (subst or.commute) (simp only: word_unat_eq_iff unat_of_nat, simp add: mod_less)
qed

lemma base128_byte:
  "(ucast (drop_bit (7 * i) v) AND 0x7f :: u8) = of_nat (unat (v :: u64) div 128 ^ i mod 128)"
  "(ucast (drop_bit (7 * i) v) AND 0x7f OR 0x80 :: u8) = of_nat (128 + unat (v :: u64) div 128 ^ i mod 128)"
proof -
  have m: "n mod 256 mod 128 = n mod 128" for n :: nat by (simp add: mod_mod_cancel)
  have d: "unat (ucast (drop_bit (7 * i) v) :: u8) mod 128 = unat v div 128 ^ i mod 128"
    by (simp add: unat_drop_bit_div power_mult m)
  then show "(ucast (drop_bit (7 * i) v) AND 0x7f OR 0x80 :: u8) = of_nat (128 + unat (v :: u64) div 128 ^ i mod 128)"
    by (simp only: or_0x80)
  show "(ucast (drop_bit (7 * i) v) AND 0x7f :: u8) = of_nat (unat (v :: u64) div 128 ^ i mod 128)"
    using d unat_and_7F [of "ucast (drop_bit (7 * i) v)"] by (intro word_eq_of_nat) simp
qed

lemma add_base128_loop_emits:
  "emits am (add_base128_loop am (Suc i) v)
     (high_digits i (unat v div 128) @ [of_nat (unat v mod 128)])"
proof (induction i)
  case 0
  have "add_base128_loop am (Suc 0) v = then_do (CBB_add_u8 am (of_nat (unat v mod 128))) (\<lambda>s. (s, True))"
    using base128_byte(1) [of 0 v] by (simp add: fun_eq_iff then_do_def split: prod.splits bool.splits)
  then show ?case using emits_then_do [OF emits_add_u8 emits_nop, of am "of_nat (unat v mod 128)"] by simp
next
  case (Suc i)
  have "unat v div 128 ^ Suc i = unat v div 128 div 128 ^ i" by (simp add: div_mult2_eq)
  moreover have "add_base128_loop am (Suc (Suc i)) v =
      then_do (CBB_add_u8 am (of_nat (128 + unat v div 128 ^ Suc i mod 128))) (add_base128_loop am (Suc i) v)"
    by (rule ext, subst add_base128_loop.simps(2)) (simp only: base128_byte(2) Let_def nat.distinct if_True not_False_eq_True)
  ultimately show ?case
    using emits_then_do [OF emits_add_u8 Suc, of "of_nat (128 + unat v div 128 ^ Suc i mod 128)"]
    by (simp del: add_base128_loop.simps of_nat_add)
qed

lemma emits_add_base128: "emits am (add_base128_integer am v) (base128 (unat v))"
proof (cases "v = 0")
  case True
  then show ?thesis
    using add_base128_loop_emits [of am 0 0] by (simp add: add_base128_integer_def base128_def)
next
  case False
  then have "0 < unat v" by (simp add: unat_gt_0)
  then have "base128_len v = Suc (base128_len (drop_bit 7 v))" by (rule base128_len_pos)
  moreover have "high_digits (base128_len (drop_bit 7 v)) (unat v div 128) = base128_high (unat v div 128)"
    using high_digits_base128_len [of "drop_bit 7 v"] by (simp add: unat_drop_bit_div)
  ultimately show ?thesis
    using add_base128_loop_emits [of am "base128_len (drop_bit 7 v)" v]
    by (simp add: add_base128_integer_def base128_def Let_def)
qed

text \<open>An element: \<open>CBB_add_asn1\<close> opens it, the operations on the child fill it, the flush of the
  parent closes it. The same for the plain length prefixes. The frame is at the end of the
  buffer when it is opened, so that the child starts with an empty window.\<close>

definition opens :: "alloc \<Rightarrow> (cbb \<Rightarrow> cbb \<times> bool) \<Rightarrow> bytes \<Rightarrow> nat \<Rightarrow> bool \<Rightarrow> bool" where
  "opens am op pre k asn1 \<longleftrightarrow> (\<forall>b fs w. wf b fs \<and> length fs \<le> 1000 \<and> closed fs (out b) = Some w \<and>
       length w + length pre + k \<le> 2 ^ 61 \<longrightarrow>
     (snd (op (Some b, fs)) \<longrightarrow> (\<exists>b'. fst (op (Some b, fs)) =
          (Some b', [\<lparr>offset = length w + length pre, pending_len_len = k, pending_is_asn1 = asn1\<rparr>]) \<and>
          later b b' \<and> out b' = w @ pre @ replicate k 0)) \<and>
     (room am b (length w + length pre + k) \<longrightarrow> snd (op (Some b, fs))))"

lemma opensD:
  assumes "opens am op pre k asn1" "wf b fs" "length fs \<le> 1000" "closed fs (out b) = Some w"
    "length w + length pre + k \<le> 2 ^ 61"
  shows "op (Some b, fs) = (s, True) \<Longrightarrow> \<exists>b'. s =
          (Some b', [\<lparr>offset = length w + length pre, pending_len_len = k, pending_is_asn1 = asn1\<rparr>]) \<and>
          later b b' \<and> out b' = w @ pre @ replicate k 0"
    and "room am b (length w + length pre + k) \<Longrightarrow> snd (op (Some b, fs))"
  using assms unfolding opens_def by fastforce+

text \<open>What the element opened with \<open>opens am op pre k asn1\<close> and filled with \<open>c\<close> looks like.\<close>

definition filled :: "nat \<Rightarrow> bool \<Rightarrow> bytes \<Rightarrow> bytes option" where
  "filled k asn1 c = close_one \<lparr>offset = 0, pending_len_len = k, pending_is_asn1 = asn1\<rparr> (replicate k 0 @ c)"

lemma filled_asn1: "filled 1 True c = (if length c > 0xfffffffe then None else Some (der_len (length c) @ c))"
  by (simp add: filled_def close_one_def Let_def)

lemma filled_plain: "filled k False c = (if length c < 256 ^ k then Some (be_bytes k (length c) @ c) else None)"
  by (simp add: filled_def close_one_def Let_def)

lemma close_one_filled:
  "close_one \<lparr>offset = length w, pending_len_len = k, pending_is_asn1 = a\<rparr> (w @ replicate k 0 @ c) =
    map_option (\<lambda>x. w @ x) (filled k a c)"
  by (simp add: filled_def close_one_def Let_def)

definition with_child :: "alloc \<Rightarrow> (cbb \<Rightarrow> cbb \<times> bool) \<Rightarrow> (cbb \<Rightarrow> cbb \<times> bool) \<Rightarrow> cbb \<Rightarrow> cbb \<times> bool" where
  "with_child am op body = then_do op (then_do (on_child body) (CBB_flush am))"

lemma with_child_run:
  assumes op: "opens am op pre k asn1" and body: "emits am body c"
    and k: "1 \<le> k" "k \<le> 3" "asn1 \<longrightarrow> k = 1"
    and s: "wf b fs" "length fs \<le> 1000" "closed fs (out b) = Some w"
    and l: "length w + length pre + k + length c \<le> 2 ^ 61"
  shows "case filled k asn1 c of
      None \<Rightarrow> \<not> snd (with_child am op body (Some b, fs))
    | Some x \<Rightarrow>
        (snd (with_child am op body (Some b, fs)) \<longrightarrow>
           written b (max 1 (length fs)) (w @ pre @ x) (fst (with_child am op body (Some b, fs)))) \<and>
        (room am b (length w + length pre + length x) \<longrightarrow> snd (with_child am op body (Some b, fs)))"
proof -
  define f where "f = \<lparr>offset = length (w @ pre), pending_len_len = k, pending_is_asn1 = asn1\<rparr>"
  have l1: "length w + length pre + k \<le> 2 ^ 61" using l by simp
  note O = opensD [OF op s l1]
  obtain s1 ok1 where r1: "op (Some b, fs) = (s1, ok1)" by (cases "op (Some b, fs)")
  have fl: "length x = length (replicate k (0 :: u8) @ c) + (length x - k - length c) \<and> k + length c \<le> length x \<and> length x \<le> k + length c + 4"
    if "filled k asn1 c = Some x" for x
    using close_one_length [of "\<lparr>offset = 0, pending_len_len = k, pending_is_asn1 = asn1\<rparr>" "replicate k 0 @ c" x]
      that k(3) by (auto simp: filled_def)
  show ?thesis
  proof (cases ok1)
    case False
    then have "\<not> room am b (length w + length pre + k)" using O(2) r1 by auto
    then have "\<not> room am b (length w + length pre + length x)" if "filled k asn1 c = Some x" for x
      using fl [OF that] room_mono [of am b "length w + length pre + length x"] by fastforce
    then show ?thesis using r1 False by (auto simp: with_child_def then_do_def split: option.split)
  next
    case True
    then obtain b1 where b1: "s1 = (Some b1, [f])" "later b b1" "out b1 = w @ pre @ replicate k 0"
      using O(1) [of s1] r1 by (auto simp: f_def)
    have ok1: "buffer_ok b1" using b1(2) by (simp add: later_def)
    have len1: "len b1 = length w + length pre + k" using b1(3) length_out [OF ok1] by simp
    have wf1: "wf b1 []" "closed [] (out b1) = Some (out b1)" using ok1 by (simp_all add: wf_def)
    have l2: "length (out b1) + length c \<le> 2 ^ 61" using l b1(3) by simp
    note B = emitsD [OF body wf1(1) _ wf1(2) l2]
    obtain s2 ok2 where r2: "body (Some b1, []) = (s2, ok2)" by (cases "body (Some b1, [])")
    show ?thesis
    proof (cases ok2)
      case False
      then have "\<not> room am b1 (length (out b1) + length c)" using B(2) r2 by auto
      then have "\<not> room am b (length w + length pre + k + length c)"
        using later_room [OF b1(2)] b1(3) by (auto simp: add.assoc)
      then have "\<not> room am b (length w + length pre + length x)" if "filled k asn1 c = Some x" for x
        using fl [OF that] room_mono [of am b "length w + length pre + length x"] by fastforce
      moreover have "\<not> snd (with_child am op body (Some b, fs))"
        using r1 True r2 False b1(1) by (simp add: with_child_def then_do_def on_child_def split: prod.splits)
      ultimately show ?thesis by (auto split: option.split)
    next
      case True2: True
      have "body (Some b1, []) = (s2, True)" using r2 True2 by simp
      from B(1) [OF _ this] obtain b2 fs2 where b2: "s2 = (Some b2, fs2)" "later b1 b2" "wf b2 fs2"
          "length fs2 \<le> 1" "closed fs2 (out b2) = Some (out b1 @ c)" by auto
      have ok2': "buffer_ok b2" "frames_ok 0 (len b2) fs2" using b2(3) by (simp_all add: wf_def)
      let ?w2 = "out b1 @ c"
      have w2: "?w2 = (w @ pre) @ replicate k 0 @ c" using b1(3) by simp
      have lw2: "len b2 \<le> length ?w2" using closed_out_length [OF ok2' b2(5)] by simp
      obtain b3 fs3 ok3 where r3: "flush_frames am b2 fs2 = ((b3, fs3), ok3)" by (cases "flush_frames am b2 fs2") auto
      have "len b2 + 4 * length fs2 \<le> 2 ^ 62" using lw2 b2(4) l b1(3) by simp
      from flush_frames_ok [OF ok2' this, of am, unfolded b2(5)] r3
      have "reaches am b2 ?w2 (b3, ok3)" by simp
      from flush_frames_step [OF ok2'(1) r3 this, of f]
      have st: "case filled k asn1 c of None \<Rightarrow> \<not> snd (flush_frames am b2 (f # fs2))
        | Some x \<Rightarrow> reaches am b2 (w @ pre @ x) (fst (fst (flush_frames am b2 (f # fs2))), snd (flush_frames am b2 (f # fs2))) \<and>
            (snd (flush_frames am b2 (f # fs2)) \<longrightarrow> snd (fst (flush_frames am b2 (f # fs2))) = [])"
        using k l b1(3) unfolding w2 f_def close_one_filled
        by (simp del: flush_frames.simps split: option.splits)
      obtain b4 fs4 ok4 where r4: "flush_frames am b2 (f # fs2) = ((b4, fs4), ok4)"
        by (cases "flush_frames am b2 (f # fs2)") auto
      have run: "with_child am op body (Some b, fs) = ((Some b4, fs4), ok4)"
        using r1 True b1(1) r2 True2 b2(1) r4
        by (simp add: with_child_def then_do_def on_child_def CBB_flush_def del: flush_frames.simps)
      have "later b b2" using b1(2) b2(2) by (rule later_trans)
      then show ?thesis
        using st r4 later_room [of b b2] later_trans [of b b2 b4]
        by (auto simp: run reaches_def written_def later_def buffer_ok_def add.assoc split: option.splits)
    qed
  qed
qed

lemma filled_length:
  assumes "filled k asn1 c = Some x" "asn1 \<longrightarrow> k = 1"
  shows "k + length c \<le> length x"
  using close_one_length(1) [of "\<lparr>offset = 0, pending_len_len = k, pending_is_asn1 = asn1\<rparr>" "replicate k 0 @ c" x]
    assms by (auto simp: filled_def)

lemma emits_with_child:
  assumes op: "opens am op pre k asn1" and body: "emits am body c"
    and k: "1 \<le> k" "k \<le> 3" "asn1 \<longrightarrow> k = 1" and x: "filled k asn1 c = Some x"
  shows "emits am (with_child am op body) (pre @ x)"
proof (rule emitsI)
  fix b fs w
  assume s: "wf b fs" "length fs \<le> 1000" "closed fs (out b) = Some w" and l: "length w + length (pre @ x) \<le> 2 ^ 61"
  have "length w + length pre + k + length c \<le> 2 ^ 61" using l filled_length [OF x k(3)] by simp
  from with_child_run [OF op body k s this] x
  show "(snd (with_child am op body (Some b, fs)) \<longrightarrow>
        written b (max 1 (length fs)) (w @ pre @ x) (fst (with_child am op body (Some b, fs)))) \<and>
      (room am b (length w + length (pre @ x)) \<longrightarrow> snd (with_child am op body (Some b, fs)))"
    by (simp add: add.assoc)
qed

lemma opens_length_prefixed:
  "opens am (cbb_add_length_prefixed am k) [] k False"
  unfolding opens_def
proof (intro allI impI, elim conjE)
  fix b fs w
  assume s: "wf b fs" "length fs \<le> 1000" "closed fs (out b) = Some w"
    and l: "length w + length ([] :: bytes) + k \<le> 2 ^ 61"
  have l1: "length w \<le> 2 ^ 61" "length fs \<le> 1001" using l s(2) by simp_all
  note fl = CBB_flush_ok [OF s(1) l1(2) s(3) l1(1), of am]
  obtain s1 ok where r: "CBB_flush am (Some b, fs) = (s1, ok)" by (cases "CBB_flush am (Some b, fs)")
  let ?run = "cbb_add_length_prefixed am k (Some b, fs)"
  show "(snd ?run \<longrightarrow> (\<exists>b'. fst ?run =
          (Some b', [\<lparr>offset = length w + length ([] :: bytes), pending_len_len = k, pending_is_asn1 = False\<rparr>]) \<and>
          later b b' \<and> out b' = w @ [] @ replicate k 0)) \<and>
     (room am b (length w + length ([] :: bytes) + k) \<longrightarrow> snd ?run)"
  proof (cases ok)
    case False
    have "\<not> room am b (length w + k)"
      using fl(2) r False room_mono [of am b "length w + k" "length w"] by auto
    then show ?thesis using r False
      by (auto simp: cbb_add_length_prefixed_def split: prod.splits option.splits)
  next
    case True
    then obtain b1 where b1: "s1 = (Some b1, [])" "later b b1" "out b1 = w" using fl(1) [of s1] r by auto
    then have ok1: "buffer_ok b1" by (simp add: later_def)
    have len1: "len b1 = length w" using b1(3) length_out [OF ok1] by simp
    have "min (length (buf b1)) (length w) = length w"
      using ok1 len1 by (simp add: buffer_ok_def min_absorb2)
    moreover have "len b1 + length (replicate k (0 :: u8)) \<le> 2 ^ 62" using l len1 by simp
    moreover note add_and_fill [OF ok1 this, of am]
    ultimately show ?thesis
      using r True b1 len1 later_trans [OF b1(2)] later_room [OF b1(2)]
      by (auto simp: cbb_add_length_prefixed_def reaches_def split: prod.splits bool.splits)
  qed
qed

text \<open>The tag byte of \<open>CBB_add_asn1\<close> and the octets of \<open>der_tag\<close>.\<close>

lemma asn1_tag_number:
  "unat (tag AND CBS_ASN1_TAG_NUMBER_MASK) = tag_number tag"
proof -
  have "CBS_ASN1_TAG_NUMBER_MASK = mask 29" by (simp add: CBS_ASN1_TAG_NUMBER_MASK_def mask_eq_exp_minus_1)
  then show ?thesis using unat_and_mask [of tag 29] by (simp add: tag_number_def)
qed

lemma asn1_tag_byte:
  fixes m :: u8
  assumes "unat m < 32"
  shows "(ucast (drop_bit 24 tag) AND 0xe0 :: u8) OR m = of_nat (tag_class tag * 32 + unat m)"
proof -
  have e: "(0xe0 :: u8) = push_bit 5 (mask 3)" by (simp add: mask_eq_exp_minus_1)
  have "ucast (drop_bit 24 tag) AND (0xe0 :: u8) = push_bit 5 (ucast (drop_bit 29 tag))"
    unfolding e by (rule bit_word_eqI) (auto simp: bit_simps)
  moreover have u: "unat (ucast (drop_bit 29 tag) :: u8) = tag_class tag"
    using tag_class_less [of tag] by (simp add: unat_drop_bit_div tag_class_def)
  ultimately have "unat ((ucast (drop_bit 24 tag) AND 0xe0 :: u8) OR m) = tag_class tag * 32 + unat m"
    using assms tag_class_less [of tag] by (simp only:) (subst unat_push_or, simp_all)
  then show ?thesis by (rule word_eq_of_nat)
qed

text \<open>\<open>CBB_add_u8\<close> and what is built from it leave nothing pending.\<close>

definition settles :: "(cbb \<Rightarrow> cbb \<times> bool) \<Rightarrow> bool" where
  "settles op \<longleftrightarrow> (\<forall>s b fs. op s = ((b, fs), True) \<longrightarrow> fs = [] \<or> fs = snd s)"

lemma flush_frames_settles:
  "flush_frames am b fs = ((b', fs'), True) \<Longrightarrow> fs' = [] \<or> fs' = fs"
  by (cases fs) (auto split: if_splits prod.splits bool.splits)

lemma settles_flushed: "settles (flushed am f)"
  by (auto simp: settles_def flushed_def CBB_flush_def dest!: flush_frames_settles
      split: prod.splits option.splits bool.splits)

lemma settles_then_do: "settles f \<Longrightarrow> settles g \<Longrightarrow> settles (then_do f g)"
  unfolding settles_def then_do_def by (auto split: prod.splits bool.splits) (metis snd_conv)+

lemma settles_add_u8: "settles (CBB_add_u8 am v)"
  unfolding CBB_add_u8_def by (rule settles_flushed)

lemma settles_add_base128: "settles (add_base128_integer am v)"
proof -
  have "settles (add_base128_loop am i v)" for i
  proof (induction i)
    case (Suc i)
    have "add_base128_loop am (Suc i) v = then_do (CBB_add_u8 am
        (if i \<noteq> 0 then ucast (drop_bit (7 * i) v) AND 0x7f OR 0x80 else ucast (drop_bit (7 * i) v) AND 0x7f))
        (add_base128_loop am i v)"
      by (rule ext) (simp add: Let_def)
    then show ?case using settles_then_do [OF settles_add_u8 Suc] by simp
  qed (auto simp: settles_def)
  then show ?thesis by (simp add: add_base128_integer_def Let_def)
qed

lemma flush_clears:
  assumes "wf b fs" "CBB_flush am (Some b, fs) = ((b', fs'), True)"
  shows "fs' = []"
proof (cases fs)
  case (Cons f fs1)
  then have "pending_len_len f \<noteq> 0" using assms(1) by (auto simp: wf_def)
  then show ?thesis using assms(2) Cons
    by (auto simp: CBB_flush_def split: if_splits prod.splits bool.splits)
qed (use assms in \<open>auto simp: CBB_flush_def split: prod.splits\<close>)

lemma emits_cleared:
  assumes "emits am op c" "settles op" "wf b fs" "length fs \<le> 1000" "closed fs (out b) = Some w"
    "length w + length c \<le> 2 ^ 61"
  shows "then_do (CBB_flush am) op (Some b, fs) = (s, True) \<Longrightarrow>
      \<exists>b'. s = (Some b', []) \<and> later b b' \<and> out b' = w @ c"
    and "room am b (length w + length c) \<Longrightarrow> snd (then_do (CBB_flush am) op (Some b, fs))"
proof -
  have e: "emits am (then_do (CBB_flush am) op) c" using emits_then_do [OF emits_flush assms(1)] by simp
  note E = emitsD [OF e assms(3-6)]
  show "room am b (length w + length c) \<Longrightarrow> snd (then_do (CBB_flush am) op (Some b, fs))" by (rule E(2))
  assume run: "then_do (CBB_flush am) op (Some b, fs) = (s, True)"
  then obtain b' fs' where s: "s = (Some b', fs')" "later b b'" "closed fs' (out b') = Some (w @ c)"
    using E(1) by blast
  obtain b1 fs1 where "CBB_flush am (Some b, fs) = ((b1, fs1), True)" "op (b1, fs1) = ((Some b', fs'), True)"
    using run s(1) by (auto simp: then_do_def split: prod.splits bool.splits)
  then have "fs' = []" using flush_clears [OF assms(3)] assms(2) unfolding settles_def by fastforce
  then show "\<exists>b'. s = (Some b', []) \<and> later b b' \<and> out b' = w @ c" using s by simp
qed

text \<open>The identifier octets.\<close>

definition add_tag :: "alloc \<Rightarrow> u32 \<Rightarrow> cbb \<Rightarrow> cbb \<times> bool" where
  "add_tag am tag = (let n = tag AND CBS_ASN1_TAG_NUMBER_MASK; tag_bits = ucast (drop_bit 24 tag) AND 0xe0 in
     if n \<ge> 0x1f then then_do (CBB_add_u8 am (tag_bits OR 0x1f)) (add_base128_integer am (ucast n))
     else CBB_add_u8 am (tag_bits OR ucast n))"

lemma settles_add_tag: "settles (add_tag am tag)"
  unfolding add_tag_def Let_def by (auto intro: settles_add_u8 settles_then_do settles_add_base128)

lemma emits_add_tag: "emits am (add_tag am tag) (der_tag tag)"
proof -
  define n where "n = tag AND CBS_ASN1_TAG_NUMBER_MASK"
  define tag_bits where "tag_bits = (ucast (drop_bit 24 tag) AND 0xe0 :: u8)"
  have n: "unat n = tag_number tag" by (simp add: n_def asn1_tag_number)
  show ?thesis
  proof (cases "unat n < 31")
    case True
    then have "unat (ucast n :: u8) = unat n" by simp
    moreover from this have "tag_bits OR ucast n = of_nat (tag_class tag * 32 + unat (ucast n :: u8))"
      using True unfolding tag_bits_def by (intro asn1_tag_byte) simp
    ultimately show ?thesis
      using True n emits_add_u8 [of am "tag_bits OR ucast n"]
      by (simp add: add_tag_def Let_def der_tag_def word_le_nat_alt flip: n_def tag_bits_def)
  next
    case False
    have u64: "unat (ucast n :: u64) = unat n"
      using unat_u32_less [of n] by (simp add: unsigned_ucast_eq take_bit_nat_eq_self)
    have "tag_bits OR 0x1f = of_nat (tag_class tag * 32 + 31)"
      using asn1_tag_byte [of "0x1f" tag] by (simp add: tag_bits_def)
    then have "emits am (CBB_add_u8 am (tag_bits OR 0x1f)) [of_nat (tag_class tag * 32 + 31)]"
      using emits_add_u8 [of am "tag_bits OR 0x1f"] by (simp only:)
    from emits_then_do [OF this emits_add_base128, of "ucast n"] show ?thesis
      using False n u64
      by (simp add: add_tag_def Let_def der_tag_def word_le_nat_alt flip: n_def tag_bits_def)
  qed
qed

lemma CBB_add_asn1_alt:
  "CBB_add_asn1 am tag s = (case then_do (CBB_flush am) (add_tag am tag) s of
        ((Some b, fs), True) \<Rightarrow>
          (case CBB_add_u8 am 0 (Some b, fs) of
             ((b', fs), True) \<Rightarrow>
               ((b', [\<lparr>offset = len b, pending_len_len = 1, pending_is_asn1 = True\<rparr>]), True)
           | (cbb, False) \<Rightarrow> (cbb, False))
      | (cbb, _) \<Rightarrow> (cbb, False))"
  by (simp only: CBB_add_asn1_def Let_def add_tag_def)

lemma opens_add_asn1: "opens am (CBB_add_asn1 am tag) (der_tag tag) 1 True"
  unfolding opens_def
proof (intro allI impI, elim conjE)
  fix b fs and w :: bytes
  let ?n = "length w + length (der_tag tag)"
  assume s: "wf b fs" "length fs \<le> 1000" "closed fs (out b) = Some w" and l: "?n + 1 \<le> 2 ^ 61"
  let ?run = "CBB_add_asn1 am tag (Some b, fs)"
  have l1: "?n \<le> 2 ^ 61" using l by simp
  note T = emits_cleared [OF emits_add_tag [of am tag] settles_add_tag s l1]
  obtain s2 ok2 where r2: "then_do (CBB_flush am) (add_tag am tag) (Some b, fs) = (s2, ok2)"
    by (cases "then_do (CBB_flush am) (add_tag am tag) (Some b, fs)")
  show "(snd ?run \<longrightarrow> (\<exists>b'. fst ?run =
          (Some b', [\<lparr>offset = ?n, pending_len_len = 1, pending_is_asn1 = True\<rparr>]) \<and>
          later b b' \<and> out b' = w @ der_tag tag @ replicate 1 0)) \<and> (room am b (?n + 1) \<longrightarrow> snd ?run)"
  proof (cases ok2)
    case False
    then have "\<not> room am b (?n + 1)" using T(2) r2 room_mono [of am b "?n + 1" ?n] by auto
    then show ?thesis using r2 False by (auto simp: CBB_add_asn1_alt split: prod.splits option.splits)
  next
    case True
    then obtain b2 where b2: "s2 = (Some b2, [])" "later b b2" "out b2 = w @ der_tag tag"
      using T(1) [of s2] r2 by auto
    then have okb2: "buffer_ok b2" by (simp add: later_def)
    then have len2: "len b2 = ?n" using b2(3) length_out [OF okb2] by simp
    have st: "wf b2 []" "closed [] (out b2) = Some (out b2)" "length (out b2) + length [0 :: u8] \<le> 2 ^ 61"
      using okb2 l b2(3) by (simp_all add: wf_def)
    note Z = emitsD [OF emits_add_u8 [of am 0] st(1) _ st(2,3)]
    obtain s3 ok3 where r3: "CBB_add_u8 am 0 (Some b2, []) = (s3, ok3)" by (cases "CBB_add_u8 am 0 (Some b2, [])")
    have step: "?run = (case (s3, ok3) of
        ((b', fs), True) \<Rightarrow> ((b', [\<lparr>offset = ?n, pending_len_len = 1, pending_is_asn1 = True\<rparr>]), True)
      | (cbb, False) \<Rightarrow> (cbb, False))"
      using r2 True b2(1) r3 by (auto simp: CBB_add_asn1_alt len2 split: prod.split bool.split)
    have "snd s3 = []" if ok3
      using settles_add_u8 [of am 0] r3 that unfolding settles_def by (cases s3) fastforce
    then have "ok3 \<longrightarrow> (\<exists>b3. s3 = (Some b3, []) \<and> later b2 b3 \<and> out b3 = w @ der_tag tag @ [0])"
      using Z(1) [of s3] r3 b2(3) by auto
    moreover have "room am b (?n + 1) \<longrightarrow> ok3"
      using Z(2) r3 later_room [OF b2(2), of am] length_out [OF okb2] len2 by (auto simp del: length_take)
    ultimately show ?thesis using step later_trans [OF b2(2)]
      by (cases ok3) (auto split: prod.splits)
  qed
qed

end
