(* ===== verification/Cbb_Asn1.thy ===== *)
theory Cbb_Asn1
  imports Cbb_Write
begin

text \<open>
  The ASN.1 writers of the builder, and the interface \<open>codec\<close> that joins a writer of Cbb with the
  reader of Cbs for the same type: what is built, finished and read back is the value that was
  written.
\<close>

section \<open>The ASN.1 writers\<close>

text \<open>A whole element.\<close>

lemma emits_asn1:
  assumes "emits am body c" "length c \<le> 0xfffffffe"
  shows "emits am (with_child am (CBB_add_asn1 am tag) body) (der_elem tag c)"
proof -
  have "filled 1 True c = Some (der_len (length c) @ c)" using assms(2) filled_asn1 [of c] by simp
  from emits_with_child [OF opens_add_asn1 assms(1) _ _ _ this]
  show ?thesis by (simp add: der_elem_def der_header_def)
qed

lemma emits_length_prefixed:
  assumes "emits am body c" "1 \<le> k" "k \<le> 3" "length c < 256 ^ k"
  shows "emits am (with_child am (cbb_add_length_prefixed am k) body) (be_bytes k (length c) @ c)"
proof -
  have "filled k False c = Some (be_bytes k (length c) @ c)" using assms(4) by (simp add: filled_plain)
  from emits_with_child [OF opens_length_prefixed assms(1-3) _ this] show ?thesis by simp
qed

text \<open>Integers. The loop of \<open>CBB_add_asn1_uint64\<close> writes the minimal form.\<close>

fun uint64_digits :: "nat \<Rightarrow> bool \<Rightarrow> nat \<Rightarrow> bytes" where
  "uint64_digits 0 started v = (if started then [] else [0])"
| "uint64_digits (Suc n) started v =
     (let byte = of_nat (v div 256 ^ n mod 256)
      in if \<not> started \<and> byte = 0 then uint64_digits n False v
         else (if \<not> started \<and> byte AND 0x80 \<noteq> 0 then [0] else []) @ byte # uint64_digits n True v)"

lemma uint64_loop_emits:
  "emits am (asn1_uint64_add_loop am n started v) (uint64_digits n started (unat v))"
proof (induction n arbitrary: started)
  case 0
  have "asn1_uint64_add_loop am 0 started v = (if started then (\<lambda>s. (s, True)) else CBB_add_u8 am 0)"
    by (rule ext) simp
  then show ?case using emits_nop [of am] emits_add_u8 [of am 0] by simp
next
  case (Suc n)
  define byte where "byte = (ucast (drop_bit (8 * n) v) :: u8)"
  have byte: "(of_nat (unat v div 256 ^ n mod 256) :: u8) = byte"
    by (simp add: byte_def word_unat_eq_iff unat_drop_bit_div power_mult)
  define pad where "pad = (if \<not> started \<and> byte AND 0x80 \<noteq> 0 then CBB_add_u8 am 0 else (\<lambda>s. (s, True)))"
  have pad: "emits am pad (if \<not> started \<and> byte AND 0x80 \<noteq> 0 then [0] else [])"
    using emits_nop [of am] emits_add_u8 [of am 0] by (simp add: pad_def)
  have run: "asn1_uint64_add_loop am (Suc n) started v =
      (if \<not> started \<and> byte = 0 then asn1_uint64_add_loop am n False v
       else then_do pad (then_do (CBB_add_u8 am byte) (asn1_uint64_add_loop am n True v)))"
    unfolding pad_def byte_def by (rule ext) (simp only: asn1_uint64_add_loop.simps Let_def if_distribR)
  have "emits am (then_do pad (then_do (CBB_add_u8 am byte) (asn1_uint64_add_loop am n True v)))
      ((if \<not> started \<and> byte AND 0x80 \<noteq> 0 then [0] else []) @ [byte] @ uint64_digits n True (unat v))"
    by (intro emits_then_do pad emits_add_u8 Suc)
  then show ?case
    using Suc [of False] by (auto simp: run byte Let_def simp del: asn1_uint64_add_loop.simps)
qed

lemma be_bytes_Cons: "be_bytes (Suc n) v = of_nat (v div 256 ^ n mod 256) # be_bytes n v"
  by (induction n arbitrary: v) (simp_all add: div_mult2_eq)

lemma uint64_digits_started: "uint64_digits n True v = be_bytes n v"
proof (induction n arbitrary: v)
  case (Suc n)
  then show ?case by (simp only: uint64_digits.simps be_bytes_Cons Let_def) simp
qed simp

lemma uint64_digits_minimal:
  assumes "v < 256 ^ n"
  shows "tc_minimal (uint64_digits n False v) \<and> tc_val (uint64_digits n False v) = int v \<and>
    length (uint64_digits n False v) \<le> Suc n"
  using assms
proof (induction n)
  case 0
  then show ?case by (simp add: tc_minimal_def tc_val_def)
next
  case (Suc n)
  define d where "d = v div 256 ^ n"
  have d: "d < 256" using Suc.prems by (simp add: d_def less_mult_imp_div_less)
  define byte where "byte = (of_nat d :: u8)"
  have ub: "unat byte = d" using d by (simp add: byte_def unat_of_nat_u8)
  have byte: "(of_nat (v div 256 ^ n mod 256) :: u8) = byte"
    using d by (simp add: byte_def flip: d_def)
  show ?case
  proof (cases "byte = 0")
    case True
    then have "d = 0" using ub by simp
    then have "v < 256 ^ n" by (simp add: d_def div_eq_0_iff)
    then show ?thesis using Suc.IH True byte by simp
  next
    case False
    then have "0 < d" using ub by (metis gr0I word_unat_eq_iff unsigned_0)
    define r where "r = be_bytes n v"
    have val: "be_val (byte # r) = v"
      using be_val_be_bytes [of n v] ub by (simp add: be_val_Cons r_def d_def div_mult_mod_eq)
    have digits: "uint64_digits (Suc n) False v = (if 128 \<le> d then [0] else []) @ byte # r"
      using False byte ub by (simp add: Let_def uint64_digits_started and_0x80_byte flip: r_def)
    have lr: "length r = n" by (simp add: r_def)
    show ?thesis
    proof (cases "128 \<le> d")
      case True
      then show ?thesis using val ub lr unfolding digits
        by (simp add: tc_minimal_def tc_val_def) (simp add: be_val_Cons)
    next
      case False
      then show ?thesis using val ub lr \<open>0 < d\<close> \<open>byte \<noteq> 0\<close> unfolding digits
        by (auto simp: tc_minimal_def tc_val_def)
    qed
  qed
qed

lemma emits_asn1_uint64:
  "emits am (CBB_add_asn1_uint64 am v) (der_elem CBS_ASN1_INTEGER (uint64_digits 8 False (unat v)))"
proof -
  have "unat v < 256 ^ 8" using unat_u64_less [of v] by simp
  then have "length (uint64_digits 8 False (unat v)) \<le> Suc 8" using uint64_digits_minimal by blast
  then show ?thesis
    using emits_asn1 [OF uint64_loop_emits [of am 8 False v], of CBS_ASN1_INTEGER]
    by (simp add: CBB_add_asn1_uint64_def with_child_def)
qed

lemma sint_unat_u64: "sint (v :: u64) = int (unat v) - (if sint v < 0 then 2 ^ 64 else 0)"
proof -
  have u: "int (unat v) = sint v mod 2 ^ 64" using uint_sint [of v] by (simp add: take_bit_eq_mod)
  have r: "- (2 ^ 63) \<le> sint v" "sint v < 2 ^ 63" using sint_ge [of v] sint_lt [of v] by simp_all
  show ?thesis
  proof (cases "sint v < 0")
    case True
    have "sint v mod 2 ^ 64 = (sint v + 2 ^ 64) mod 2 ^ 64" by simp
    also have "\<dots> = sint v + 2 ^ 64" using r True by (intro mod_pos_pos_trivial) simp_all
    finally show ?thesis using True u by simp
  next
    case False
    then have "sint v mod 2 ^ 64 = sint v" using r by (intro mod_pos_pos_trivial) simp_all
    then show ?thesis using False u by simp
  qed
qed

text \<open>Negative numbers: the bytes of the union, without the sign bytes that carry nothing.\<close>

lemma tc_val_sign_byte: "128 \<le> unat c \<Longrightarrow> tc_val (255 # c # r) = tc_val (c # r)"
  by (simp add: tc_val_def be_val_Cons)

lemma int64_start_spec:
  assumes "k < length bs" "128 \<le> unat (bs ! k)"
  shows "int64_start bs k \<le> k \<and> tc_minimal (rev (take (int64_start bs k + 1) bs)) \<and>
    tc_val (rev (take (int64_start bs k + 1) bs)) = tc_val (rev (take (k + 1) bs))"
  using assms
proof (induction bs k rule: int64_start.induct)
  case (1 bs k)
  have hd: "rev (take (k + 1) bs) = bs ! k # rev (take k bs)"
    using "1.prems"(1) by (simp add: take_Suc_conv_app_nth)
  show ?case
  proof (cases "k > 0 \<and> bs ! k = 0xff \<and> bs ! (k - 1) AND 0x80 \<noteq> 0")
    case True
    then have c: "128 \<le> unat (bs ! (k - 1))" by (simp add: and_0x80_byte [symmetric])
    have "take k bs = take (k - 1) bs @ [bs ! (k - 1)]"
      using True "1.prems"(1) by (metis Suc_diff_1 Suc_lessD take_Suc_conv_app_nth)
    then have "tc_val (rev (take (k + 1) bs)) = tc_val (rev (take (k - 1 + 1) bs))"
      using hd True tc_val_sign_byte [OF c] by simp
    moreover have "int64_start bs k = int64_start bs (k - 1)" using True by (subst int64_start.simps) simp
    ultimately show ?thesis
      using "1.IH" [OF True] "1.prems"(1) c by (auto intro: le_trans [of _ "k - 1" k])
  next
    case False
    then have st: "int64_start bs k = k" by (subst int64_start.simps) auto
    have "bs ! k \<noteq> 0" using "1.prems"(2) by auto
    moreover have "rev (take k bs) ! 0 = bs ! (k - 1)" if "0 < k"
      using that "1.prems"(1) by (simp add: rev_nth min_absorb2)
    ultimately have "tc_minimal (bs ! k # rev (take k bs))"
      using False "1.prems"(1) by (auto simp: tc_minimal_def and_0x80_byte)
    then show ?thesis using hd st by simp
  qed
qed

lemma int64_bytes_rev: "rev (int64_bytes v) = be_bytes 8 (unat v)"
proof -
  have "int64_bytes v = map (\<lambda>i. of_nat (unat v div 256 ^ i mod 256)) [0..<8]"
    unfolding int64_bytes_def
    by (rule map_cong) (auto simp: word_unat_eq_iff unat_drop_bit_div power_mult)
  moreover have "rev (map (\<lambda>i. of_nat (n div 256 ^ i mod 256)) [0..<k]) = be_bytes k n" for n k
    by (induction k) (simp_all del: be_bytes.simps(2) add: be_bytes_Cons)
  ultimately show ?thesis by simp
qed

lemma int64_bytes_negative:
  assumes "sint v < 0"
  shows "128 \<le> unat (int64_bytes v ! 7)" "tc_val (rev (int64_bytes v)) = sint v"
proof -
  have s: "sint v = int (unat v) - 2 ^ 64"
    using assms sint_unat_u64 [of v] by simp
  then have "int (2 ^ 63) \<le> int (unat v)"
    using sint_ge [of v] by (simp del: of_nat_unat of_nat_le_iff)
  then have v: "2 ^ 63 \<le> unat v" by (simp only: of_nat_le_iff)
  have "int64_bytes v ! 7 = ucast (drop_bit 56 v)" by (simp add: int64_bytes_def)
  then have u: "unat (int64_bytes v ! 7) = unat v div 2 ^ 56 mod 256" by (simp add: unat_drop_bit_div)
  have "unat v div 2 ^ 56 < 256" using unat_u64_less [of v] by (simp add: less_mult_imp_div_less)
  moreover have "2 ^ 63 div 2 ^ 56 \<le> unat v div 2 ^ 56" using v by (rule div_le_mono)
  ultimately show top: "128 \<le> unat (int64_bytes v ! 7)" by (simp add: u)
  have l: "length (int64_bytes v) = 8" by (simp add: int64_bytes_def)
  then have "hd (rev (int64_bytes v)) = int64_bytes v ! 7"
    by (simp add: hd_rev last_conv_nth flip: length_greater_0_conv)
  moreover have "be_val (rev (int64_bytes v)) = unat v"
    using unat_u64_less [of v] by (simp add: int64_bytes_rev be_val_be_bytes)
  ultimately show "tc_val (rev (int64_bytes v)) = sint v"
    using top l s by (auto simp: tc_val_def simp del: of_nat_unat)
qed

lemma add_bytes_down_emits: "emits am (add_bytes_down am bs n) (rev (take n bs))" if "n \<le> length bs"
  using that
proof (induction n)
  case 0
  have "add_bytes_down am bs 0 = (\<lambda>s. (s, True))" by (rule ext) simp
  then show ?case using emits_nop by simp
next
  case (Suc n)
  have "add_bytes_down am bs (Suc n) = then_do (CBB_add_u8 am (bs ! n)) (add_bytes_down am bs n)"
    by (rule ext) simp
  then show ?case using emits_then_do [OF emits_add_u8 Suc.IH, of "bs ! n"] Suc.prems
    by (simp add: take_Suc_conv_app_nth)
qed

lemma emits_asn1_octet_string:
  "length data \<le> 0xfffffffe \<Longrightarrow>
    emits am (CBB_add_asn1_octet_string am data) (der_elem CBS_ASN1_OCTETSTRING data)"
  using emits_asn1 [OF emits_add_bytes [of am data], of CBS_ASN1_OCTETSTRING]
  by (simp add: CBB_add_asn1_octet_string_def with_child_def)

lemma emits_asn1_bool:
  "emits am (CBB_add_asn1_bool am v) (der_elem CBS_ASN1_BOOLEAN [if v \<noteq> 0 then 255 else 0])"
  using emits_asn1 [OF emits_add_u8 [of am "if v \<noteq> 0 then 0xff else 0"], of CBS_ASN1_BOOLEAN]
  by (simp add: CBB_add_asn1_bool_def with_child_def)

section \<open>Building and reading back\<close>

lemma finish_written:
  assumes "wf b fs" "length fs \<le> 1" "closed fs (out b) = Some w" "length w \<le> 2 ^ 61"
  shows "CBB_finish am (Some b, fs) = (s, Some r) \<Longrightarrow> r = w"
    and "room am b (length w) \<Longrightarrow> \<exists>s. CBB_finish am (Some b, fs) = (s, Some w)"
proof -
  have k: "length fs \<le> 1001" using assms(2) by simp
  note F = CBB_flush_ok [OF assms(1) k assms(3,4), of am]
  show "r = w" if "CBB_finish am (Some b, fs) = (s, Some r)"
    using that F(1) by (auto simp: CBB_finish_def split: prod.splits option.splits bool.splits)
  show "\<exists>s. CBB_finish am (Some b, fs) = (s, Some w)" if r: "room am b (length w)"
  proof -
    obtain s2 where "CBB_flush am (Some b, fs) = (s2, True)"
      using F(2) [OF r] by (cases "CBB_flush am (Some b, fs)") auto
    moreover from F(1) [OF this] obtain b2 where "s2 = (Some b2, [])" "out b2 = w" by blast
    ultimately show ?thesis by (simp add: CBB_finish_def)
  qed
qed

lemma written_fresh:
  assumes "emits am op c" "wf b []" "len b = 0" "length c \<le> 2 ^ 61"
  shows "op (Some b, []) = (s, True) \<Longrightarrow> CBB_finish am s = (s', Some r) \<Longrightarrow> r = c"
    and "can_resize b \<Longrightarrow> (\<And>m. am m \<noteq> None) \<Longrightarrow>
      \<exists>s s'. op (Some b, []) = (s, True) \<and> CBB_finish am s = (s', Some c)"
proof -
  have st: "length ([] :: frame list) \<le> 1000" "closed [] (out b) = Some []"
      "length ([] :: bytes) + length c \<le> 2 ^ 61" using assms(3,4) by simp_all
  note E = emitsD [OF assms(1,2) st]
  {
    fix s assume "op (Some b, []) = (s, True)"
    from E(1) [OF this] have "\<exists>b' fs'. s = (Some b', fs') \<and> later b b' \<and> wf b' fs' \<and>
        length fs' \<le> 1 \<and> closed fs' (out b') = Some c" by simp
  } note * = this
  show "r = c" if "op (Some b, []) = (s, True)" "CBB_finish am s = (s', Some r)"
    using * [OF that(1)] that(2) finish_written(1) [OF _ _ _ assms(4)] by blast
  assume grow: "can_resize b" "\<And>m. am m \<noteq> None"
  have "snd (op (Some b, []))" using E(2) grow by (simp add: room_def)
  then obtain s where r: "op (Some b, []) = (s, True)" by (cases "op (Some b, [])") auto
  from * [OF r] obtain b' fs' where b': "s = (Some b', fs')" "later b b'" "wf b' fs'" "length fs' \<le> 1"
      "closed fs' (out b') = Some c" by blast
  have "room am b' (length c)" using grow b'(2) by (simp add: room_def later_def)
  then show "\<exists>s s'. op (Some b, []) = (s, True) \<and> CBB_finish am s = (s', Some c)"
    using finish_written(2) [OF b'(3-5) assms(4)] r b'(1) by blast
qed

text \<open>The interface of a value that can be written and read: the writer emits an encoding, the
  reader accepts precisely the encodings.\<close>

locale codec = canonical rd ok enc for rd :: "'a reader" and ok and enc +
  fixes wr :: "alloc \<Rightarrow> 'a \<Rightarrow> cbb \<Rightarrow> cbb \<times> bool"
    and wok :: "'a \<Rightarrow> bool"
  assumes wok_ok: "wok a \<Longrightarrow> ok a"
    and wr_emits: "wok a \<Longrightarrow> emits am (wr am a) (enc a)"
    and enc_small: "wok a \<Longrightarrow> length (enc a) \<le> 2 ^ 61"
begin

text \<open>What was written on a fresh CBB and finished is read back, and nothing is left.\<close>

lemma build_then_read:
  assumes "wok a" "wf b []" "len b = 0"
    and "wr am a (Some b, []) = (s, True)" "CBB_finish am s = (s', Some r)"
  shows "r = enc a \<and> rd r = (Some a, [])"
  using written_fresh(1) [OF wr_emits assms(2,3) enc_small assms(4,5)] assms(1)
    reads_enc [OF wok_ok, of a "[]"] by simp

text \<open>On a buffer that can grow, with an allocator that delivers, both succeed.\<close>

lemma build_succeeds:
  assumes "wok a" "wf b []" "len b = 0" "can_resize b" "\<And>m. am m \<noteq> None"
  shows "\<exists>s s'. wr am a (Some b, []) = (s, True) \<and> CBB_finish am s = (s', Some (enc a))"
  using written_fresh(2) [OF wr_emits [OF assms(1), of am] assms(2,3) enc_small [OF assms(1)] assms(4,5)] .

end

definition int64_contents :: "u64 \<Rightarrow> bytes" where
  "int64_contents v = (if sint v \<ge> 0 then uint64_digits 8 False (unat v)
     else rev (take (int64_start (int64_bytes v) 7 + 1) (int64_bytes v)))"

lemma uint64_contents:
  "tc_minimal (uint64_digits 8 False (unat (v :: u64)))"
  "tc_val (uint64_digits 8 False (unat v)) = int (unat v)"
  "length (uint64_digits 8 False (unat v)) \<le> 9"
proof -
  have "unat v < 256 ^ 8" using unat_u64_less [of v] by simp
  from uint64_digits_minimal [OF this] show "tc_minimal (uint64_digits 8 False (unat (v :: u64)))"
    "tc_val (uint64_digits 8 False (unat v)) = int (unat v)"
    "length (uint64_digits 8 False (unat v)) \<le> 9" by simp_all
qed

lemma int64_contents:
  "tc_minimal (int64_contents v)" "tc_val (int64_contents v) = sint v" "length (int64_contents v) \<le> 9"
  "emits am (CBB_add_asn1_int64 am v) (der_elem CBS_ASN1_INTEGER (int64_contents v))"
proof -
  have "(tc_minimal (int64_contents v) \<and> tc_val (int64_contents v) = sint v) \<and> length (int64_contents v) \<le> 9 \<and>
      emits am (CBB_add_asn1_int64 am v) (der_elem CBS_ASN1_INTEGER (int64_contents v))"
  proof (cases "sint v \<ge> 0")
  case True
  then have "sint v = int (unat v)" using sint_unat_u64 [of v] by simp
  then show ?thesis
    using True emits_asn1_uint64 [of am v] uint64_contents [of v]
    by (simp add: CBB_add_asn1_int64_def int64_contents_def)
next
  case False
  define bs where "bs = int64_bytes v"
  define start where "start = int64_start bs 7"
  let ?c = "rev (take (start + 1) bs)"
  have l: "length bs = 8" by (simp add: bs_def int64_bytes_def)
  have neg: "128 \<le> unat (bs ! 7)" "tc_val (rev bs) = sint v"
    using int64_bytes_negative [of v] False by (simp_all add: bs_def)
  have sp: "start \<le> 7" "tc_minimal ?c" "tc_val ?c = sint v"
    using int64_start_spec [of 7 bs] l neg by (simp_all add: start_def)
  have c: "int64_contents v = ?c" using False by (simp add: int64_contents_def start_def bs_def)
  have "emits am (CBB_add_asn1_int64 am v) (der_elem CBS_ASN1_INTEGER ?c)"
    using emits_asn1 [OF add_bytes_down_emits [of "start + 1" bs am], of CBS_ASN1_INTEGER] l sp(1) False
    by (simp add: CBB_add_asn1_int64_def with_child_def Let_def flip: bs_def start_def)
  then show ?thesis
    using sp l by (simp add: c)
  qed
  then show "tc_minimal (int64_contents v)" "tc_val (int64_contents v) = sint v"
    "length (int64_contents v) \<le> 9"
    "emits am (CBB_add_asn1_int64 am v) (der_elem CBS_ASN1_INTEGER (int64_contents v))" by simp_all
qed

lemma length_der_elem_le: "length (der_elem t c) \<le> 15 + length c"
  using length_der_tag [of t] by (simp add: der_elem_def der_header_def der_len_def len_bytes_def)

lemma der_elem_nonempty [simp]: "der_elem t c \<noteq> []"
  by (simp add: der_elem_def der_header_def)

lemma codecI:
  assumes "\<And>cbs a cbs'. rd cbs = (Some a, cbs') \<longleftrightarrow> ok a \<and> cbs = enc a @ cbs'"
    and "\<And>a. enc a \<noteq> []" "\<And>a. wok a \<Longrightarrow> ok a" "\<And>am a. wok a \<Longrightarrow> emits am (wr am a) (enc a)"
    and "\<And>a. wok a \<Longrightarrow> length (enc a) \<le> 2 ^ 61"
  shows "codec rd ok enc wr wok"
  by (intro codec.intro canonical.intro codec_axioms.intro) (use assms in blast)+

interpretation asn1_uint64: codec CBS_get_asn1_uint64 "\<lambda>_. True"
    "\<lambda>v. der_elem CBS_ASN1_INTEGER (uint64_digits 8 False (unat v))" CBB_add_asn1_uint64 "\<lambda>_. True"
proof (rule codecI)
  fix cbs cbs' and v :: u64
  let ?c = "uint64_digits 8 False (unat v)"
  have "length ?c < 2 ^ 32" using uint64_contents(3) [of v] by simp
  then show "CBS_get_asn1_uint64 cbs = (Some v, cbs') \<longleftrightarrow> True \<and> cbs = der_elem CBS_ASN1_INTEGER ?c @ cbs'"
    unfolding CBS_get_asn1_uint64_iff
    using uint64_contents [of v] tc_minimal_unique [OF _ uint64_contents(1) [of v]] by (metis (no_types))
  show "length (der_elem CBS_ASN1_INTEGER ?c) \<le> 2 ^ 61"
    using length_der_elem_le [of CBS_ASN1_INTEGER ?c] uint64_contents(3) [of v] by simp
qed (simp_all add: emits_asn1_uint64)

interpretation asn1_int64: codec CBS_get_asn1_int64 "\<lambda>_. True"
    "\<lambda>v. der_elem CBS_ASN1_INTEGER (int64_contents v)" CBB_add_asn1_int64 "\<lambda>_. True"
proof (rule codecI)
  fix cbs cbs' v
  let ?c = "int64_contents v"
  have "length ?c < 2 ^ 32" using int64_contents(3) [of v] by simp
  then show "CBS_get_asn1_int64 cbs = (Some v, cbs') \<longleftrightarrow> True \<and> cbs = der_elem CBS_ASN1_INTEGER ?c @ cbs'"
    unfolding CBS_get_asn1_int64_iff
    using int64_contents(1,2) [of v] tc_minimal_unique [OF _ int64_contents(1) [of v]] by (metis (no_types))
  show "length (der_elem CBS_ASN1_INTEGER ?c) \<le> 2 ^ 61"
    using length_der_elem_le [of CBS_ASN1_INTEGER ?c] int64_contents(3) [of v] by simp
qed (simp_all add: int64_contents)

interpretation asn1_octets: codec "CBS_get_asn1 CBS_ASN1_OCTETSTRING" "\<lambda>c. length c < 2 ^ 32"
    "der_elem CBS_ASN1_OCTETSTRING" CBB_add_asn1_octet_string "\<lambda>c. length c \<le> 0xfffffffe"
proof (rule codecI)
  show "length (der_elem CBS_ASN1_OCTETSTRING c) \<le> 2 ^ 61" if "length c \<le> 0xfffffffe" for c
    using length_der_elem_le [of CBS_ASN1_OCTETSTRING c] that by simp
qed (simp_all add: emits_asn1_octet_string CBS_get_asn1_iff)

interpretation asn1_bool: codec CBS_get_asn1_bool "\<lambda>_. True"
    "\<lambda>v. der_elem CBS_ASN1_BOOLEAN [if v then 255 else 0]"
    "\<lambda>am v. CBB_add_asn1_bool am (if v then 1 else 0)" "\<lambda>_. True"
proof (rule codecI)
  show "CBS_get_asn1_bool cbs = (Some v, cbs') \<longleftrightarrow> True \<and> cbs = der_elem CBS_ASN1_BOOLEAN [if v then 255 else 0] @ cbs'" for cbs v cbs'
    by (auto simp: CBS_get_asn1_bool_def and_then_eq_Some CBS_get_asn1_iff asn1_bool_contents_iff)
  show "emits am (CBB_add_asn1_bool am (if v then 1 else 0)) (der_elem CBS_ASN1_BOOLEAN [if v then 255 else 0])" for am v
    using emits_asn1_bool [of am "if v then 1 else 0"] by (simp split: if_splits)
  show "length (der_elem CBS_ASN1_BOOLEAN [if v then 255 else 0]) \<le> 2 ^ 61" for v
    using length_der_elem_le [of CBS_ASN1_BOOLEAN "[if v then 255 else 0]"] by simp
qed simp_all

end
