(* ===== verification/Cbb_Props.thy ===== *)
theory Cbb_Props
  imports Cbb_Asn1
begin

text \<open>The properties of the CBB builder, and of the builder and the parser together.\<close>

section \<open>The properties of the builder\<close>

lemma CBB_init_fresh:
  assumes "CBB_init am n = (s, True)" "n \<le> 2 ^ 62"
  obtains b where "s = (Some b, [])" "wf b []" "len b = 0" "can_resize b"
proof -
  obtain block where s: "s = (Some \<lparr>buf = block, len = 0, can_resize = True, cbb_error = False\<rparr>, [])"
    and block: "block = [] \<or> OPENSSL_malloc am n = Some block"
    using assms(1) by (auto simp: CBB_init_def cbb_init_def split: option.splits if_splits)
  have "length block \<le> 2 ^ 62" using block OPENSSL_malloc_length [of am n block] assms(2) by auto
  then show ?thesis
    using s by (intro that [of "\<lparr>buf = block, len = 0, can_resize = True, cbb_error = False\<rparr>"])
      (simp_all add: wf_def buffer_ok_def)
qed

abbreviation ample :: alloc where "ample \<equiv> \<lambda>n. Some (\<lambda>i. 0)"

lemma CBB_init_ample:
  "n \<le> 2 ^ 62 \<Longrightarrow> \<exists>b. CBB_init ample n = ((Some b, []), True) \<and> wf b [] \<and> len b = 0 \<and> can_resize b"
proof -
  assume n: "n \<le> 2 ^ 62"
  have "snd (CBB_init ample n)" by (simp add: CBB_init_def cbb_init_def OPENSSL_malloc_def)
  then obtain s where s: "CBB_init ample n = (s, True)" by (cases "CBB_init ample n") auto
  from CBB_init_fresh [OF s n] s show ?thesis by metis
qed

text \<open>C16: \<open>CBB_flush\<close> implements the abstract filling in of pending prefixes. From a good state,
  with the chain of pending children \<open>fs\<close>, a successful flush leaves no child, and in the buffer
  precisely the contents \<open>closed fs\<close> prescribes: each child's length written in front of its
  contents, innermost first, with the contents moved along where a DER length needs more than
  one byte. It fails if some length does not fit its prefix, and succeeds whenever the result
  fits or the buffer can grow.\<close>

theorem CBB_flush_fills_prefixes:
  assumes "wf b fs" "length fs \<le> 1000" "len b \<le> 2 ^ 60"
  shows "case closed fs (out b) of
      None \<Rightarrow> \<not> snd (CBB_flush am (Some b, fs))
    | Some w \<Rightarrow>
        (\<forall>s. CBB_flush am (Some b, fs) = (s, True) \<longrightarrow>
           (\<exists>b'. s = (Some b', []) \<and> wf b' [] \<and> out b' = w)) \<and>
        (room am b (length w) \<longrightarrow> snd (CBB_flush am (Some b, fs)))"
proof (cases "closed fs (out b)")
  case None
  then show ?thesis using CBB_flush_None [OF assms(1) _ None] assms(2,3) by simp
next
  case (Some w)
  have "length w \<le> len b + 4 * length fs"
    using closed_out_length [of b 0 fs w] assms(1) Some by (simp add: wf_def)
  then have l: "length w \<le> 2 ^ 61" "length fs \<le> 1001" using assms(2,3) by simp_all
  note F = CBB_flush_ok [OF assms(1) l(2) Some l(1), of am]
  have "\<exists>b'. s = (Some b', []) \<and> wf b' [] \<and> out b' = w" if "CBB_flush am (Some b, fs) = (s, True)" for s
    using F(1) [OF that] by (auto simp: wf_def later_def buffer_ok_def)
  then show ?thesis using F(2) Some by simp
qed

theorem CBB_flush_fills_prefixes_witness:
  "let b = \<lparr>buf = [7, 4, 0, 9, 9, 0, 0], len = 5, can_resize = False, cbb_error = False\<rparr>;
       fs = [\<lparr>offset = 2, pending_len_len = 1, pending_is_asn1 = True\<rparr>]
   in closed fs (out b) = Some [7, 4, 2, 9, 9] \<and> snd (CBB_flush ample (Some b, fs))"
proof -
  let ?b = "\<lparr>buf = [7, 4, 0, 9, 9, 0, 0], len = 5, can_resize = False, cbb_error = False\<rparr>"
  let ?fs = "[\<lparr>offset = 2, pending_len_len = 1, pending_is_asn1 = True\<rparr>]"
  have c: "closed ?fs (out ?b) = Some [7, 4, 2, 9, 9]"
    by (simp add: close_one_def der_len_def)
  have "wf ?b ?fs" by (simp add: wf_def buffer_ok_def)
  from CBB_flush_fills_prefixes [OF this, of ample] c
  show ?thesis by (simp add: room_def Let_def)
qed

text \<open>C17: an element written with \<open>CBB_add_asn1\<close> is DER. For any program \<open>body\<close> on the child that
  writes \<open>c\<close>: on a fresh CBB, opening the element, running the body on the child and finishing
  produces the DER element of \<open>c\<close>, which \<open>CBS_get_asn1\<close> reads back as \<open>c\<close> with nothing left; with an
  allocator that delivers it does succeed; and contents longer than DER lengths of the library
  can say make the flush fail.\<close>

theorem CBB_add_asn1_writes_der:
  assumes "emits am body c" "CBB_init am n = (s0, True)" "n \<le> 2 ^ 62" "length c \<le> 2 ^ 60"
  shows "(length c \<le> 0xfffffffe \<longrightarrow>
      (\<forall>s1 s2 der. with_child am (CBB_add_asn1 am tag) body s0 = (s1, True) \<and> CBB_finish am s1 = (s2, Some der) \<longrightarrow>
         der = der_elem tag c \<and> CBS_get_asn1 tag der = (Some c, [])) \<and>
      ((\<forall>m. am m \<noteq> None) \<longrightarrow>
         (\<exists>s1 s2. with_child am (CBB_add_asn1 am tag) body s0 = (s1, True) \<and>
            CBB_finish am s1 = (s2, Some (der_elem tag c))))) \<and>
    (0xfffffffe < length c \<longrightarrow> \<not> snd (with_child am (CBB_add_asn1 am tag) body s0))"
proof -
  obtain b where b: "s0 = (Some b, [])" "wf b []" "len b = 0" "can_resize b"
    by (rule CBB_init_fresh [OF assms(2,3)])
  show ?thesis
  proof (cases "length c \<le> 0xfffffffe")
    case True
    let ?op = "with_child am (CBB_add_asn1 am tag) body" and ?der = "der_elem tag c"
    have e: "emits am ?op ?der" using emits_asn1 [OF assms(1) True] .
    have l: "length ?der \<le> 2 ^ 61" using length_der_elem_le [of tag c] assms(4) by simp
    note W = written_fresh [OF e b(2,3) l]
    have "der = ?der \<and> CBS_get_asn1 tag der = (Some c, [])"
      if "?op s0 = (s1, True) \<and> CBB_finish am s1 = (s2, Some der)" for s1 s2 der
      using W(1) [of s1 s2 der] that b(1) True by (auto simp: CBS_get_asn1_iff)
    then show ?thesis using W(2) b(1,4) True by auto
  next
    case False
    have st: "length ([] :: frame list) \<le> 1000" "closed [] (out b) = Some []" using b(3) by simp_all
    have "filled 1 True c = None" using False filled_asn1 [of c] by simp
    moreover have "length ([] :: bytes) + length (der_tag tag) + 1 + length c \<le> 2 ^ 61"
      using assms(4) length_der_tag [of tag] by simp
    ultimately show ?thesis
      using with_child_run [OF opens_add_asn1 assms(1) _ _ _ b(2) st, of tag] False b(1) by simp
  qed
qed

theorem CBB_add_asn1_writes_der_witness:
  "\<exists>s1 s2. with_child ample (CBB_add_asn1 ample 0x20000010) (CBB_add_bytes ample [1, 2])
      (fst (CBB_init ample 4)) = (s1, True) \<and> CBB_finish ample s1 = (s2, Some [0x30, 2, 1, 2])"
proof -
  have i: "CBB_init ample 4 = (fst (CBB_init ample 4), True)"
    using CBB_init_ample [of 4] by auto
  have d: "der_elem 0x20000010 [1, 2] = [0x30, 2, 1, 2]"
    by (simp add: der_elem_def der_header_def der_tag_def der_len_def tag_class_def tag_number_def)
  show ?thesis
    using CBB_add_asn1_writes_der [OF emits_add_bytes [of ample "[1, 2]"] i, of "0x20000010"] by (simp add: d)
qed

text \<open>C18: values written by the builder are read back by the parser. An unsigned or signed 64 bit
  integer, an octet string or a boolean added to a fresh CBB and finished is DER that the
  corresponding reader turns back into the value, with nothing left over.\<close>

theorem asn1_values_roundtrip:
  assumes "CBB_init am n = (s0, True)" "n \<le> 2 ^ 62"
  shows "(CBB_add_asn1_uint64 am u s0 = (s1, True) \<and> CBB_finish am s1 = (s2, Some der) \<longrightarrow>
       CBS_get_asn1_uint64 der = (Some u, [])) \<and>
    (CBB_add_asn1_int64 am i s0 = (s1, True) \<and> CBB_finish am s1 = (s2, Some der) \<longrightarrow>
       CBS_get_asn1_int64 der = (Some i, [])) \<and>
    (length d \<le> 0xfffffffe \<and> CBB_add_asn1_octet_string am d s0 = (s1, True) \<and>
       CBB_finish am s1 = (s2, Some der) \<longrightarrow> CBS_get_asn1 CBS_ASN1_OCTETSTRING der = (Some d, [])) \<and>
    (CBB_add_asn1_bool am (if t then 1 else 0) s0 = (s1, True) \<and> CBB_finish am s1 = (s2, Some der) \<longrightarrow>
       CBS_get_asn1_bool der = (Some t, []))"
proof -
  obtain b where b: "s0 = (Some b, [])" "wf b []" "len b = 0"
    by (rule CBB_init_fresh [OF assms])
  show ?thesis
    unfolding b(1)
    using asn1_uint64.build_then_read [where a = u and am = am, OF _ b(2,3)]
      asn1_int64.build_then_read [where a = i and am = am, OF _ b(2,3)]
      asn1_octets.build_then_read [where a = d and am = am, OF _ b(2,3)]
      asn1_bool.build_then_read [where a = t and am = am, OF _ b(2,3)] by blast
qed

theorem asn1_values_roundtrip_witness:
  "\<exists>s1 s2 der. CBB_add_asn1_int64 ample (- 129) (fst (CBB_init ample 0)) = (s1, True) \<and>
     CBB_finish ample s1 = (s2, Some der) \<and> CBS_get_asn1_int64 der = (Some (- 129), [])"
proof -
  obtain b where b: "CBB_init ample 0 = ((Some b, []), True)" "wf b []" "len b = 0" "can_resize b"
    using CBB_init_ample [of 0] by auto
  obtain s1 s2 where run: "CBB_add_asn1_int64 ample (- 129) (Some b, []) = (s1, True)"
      "CBB_finish ample s1 = (s2, Some (der_elem CBS_ASN1_INTEGER (int64_contents (- 129))))"
    using asn1_int64.build_succeeds [where a = "- 129" and am = ample, OF _ b(2-4)] by auto
  have "CBS_get_asn1_int64 (der_elem CBS_ASN1_INTEGER (int64_contents (- 129))) = (Some (- 129), [])"
    using asn1_values_roundtrip [OF b(1), of 0 s1 s2 "der_elem CBS_ASN1_INTEGER (int64_contents (- 129))" "- 129"] run
    by simp
  then show ?thesis using run b(1) by auto
qed

text \<open>C19: a length prefix says the length of what was written under it. With \<open>k\<close> bytes of prefix,
  contents shorter than \<open>256 ^ k\<close> are framed by their big-endian length and read back by the
  length-prefixed reader; longer contents make the flush of the parent fail instead of being
  truncated.\<close>

theorem CBB_length_prefix_exact:
  assumes "emits am body c" "wf b fs" "length fs \<le> 1000" "closed fs (out b) = Some w"
    "length w + length c \<le> 2 ^ 60" "1 \<le> k" "k \<le> 3"
  shows "(256 ^ k \<le> length c \<longrightarrow>
        \<not> snd (with_child am (cbb_add_length_prefixed am k) body (Some b, fs))) \<and>
     (length c < 256 ^ k \<longrightarrow>
        (\<forall>s1 s2 r. with_child am (cbb_add_length_prefixed am k) body (Some b, fs) = (s1, True) \<and>
           CBB_finish am s1 = (s2, Some r) \<longrightarrow>
           (\<exists>rest. r = w @ rest \<and> cbs_get_length_prefixed k rest = (Some c, []))))"
proof -
  let ?op = "with_child am (cbb_add_length_prefixed am k) body"
  have l: "length w + length ([] :: bytes) + k + length c \<le> 2 ^ 61" using assms(5,7) by simp
  note R = with_child_run [OF opens_length_prefixed assms(1,6,7) _ assms(2-4) l]
  show ?thesis
  proof (intro conjI impI allI)
    show "\<not> snd (?op (Some b, fs))" if "256 ^ k \<le> length c"
      using R that by (simp add: filled_plain)
  next
    fix s1 s2 r
    assume c: "length c < 256 ^ k"
      and run: "?op (Some b, fs) = (s1, True) \<and> CBB_finish am s1 = (s2, Some r)"
    let ?x = "be_bytes k (length c) @ c"
    have "written b (max 1 (length fs)) (w @ ?x) s1"
      using R c run by (auto simp: filled_plain)
    then obtain b' fs' where s: "s1 = (Some b', fs')" "wf b' fs'" "length fs' \<le> 1001"
        "closed fs' (out b') = Some (w @ ?x)"
      using assms(3) by (auto simp: written_def wf_def later_def split: prod.splits option.splits)
    have "length (w @ ?x) \<le> 2 ^ 61" using assms(5,7) by simp
    from CBB_flush_ok(1) [OF s(2-4) this, of am] run s(1)
    have "r = w @ ?x" by (auto simp: CBB_finish_def split: prod.splits option.splits bool.splits)
    moreover have "cbs_get_length_prefixed k ?x = (Some c, [])"
      using c assms(7) by (simp add: cbs_get_length_prefixed_iff)
    ultimately show "\<exists>rest. r = w @ rest \<and> cbs_get_length_prefixed k rest = (Some c, [])" by blast
  qed
qed

theorem CBB_length_prefix_exact_witness:
  "\<not> snd (with_child ample (cbb_add_length_prefixed ample 1) (CBB_add_bytes ample (replicate 256 0))
      (Some \<lparr>buf = [5], len = 1, can_resize = True, cbb_error = False\<rparr>, []))"
proof -
  let ?b = "\<lparr>buf = [5], len = 1, can_resize = True, cbb_error = False\<rparr>"
  have "wf ?b []" "closed [] (out ?b) = Some [5]" by (simp_all add: wf_def buffer_ok_def)
  then show ?thesis
    using CBB_length_prefix_exact [OF emits_add_bytes, of ?b "[]" "[5]" "replicate 256 0" 1 ample] by simp
qed

text \<open>Errors are sticky. Once an operation has failed in a way that leaves the buffer
  undefined, every later operation fails and changes nothing, on the CBB and on its parents.\<close>

lemma CBB_error_is_sticky:
  assumes "cbb_error b"
  shows "CBB_flush am (Some b, fs) = ((Some b, fs), False) \<and>
    CBB_add_bytes am data (Some b, fs) = ((Some b, fs), False) \<and>
    CBB_add_u8 am v (Some b, fs) = ((Some b, fs), False) \<and>
    CBB_add_asn1 am tag (Some b, fs) = ((Some b, fs), False) \<and>
    cbb_add_length_prefixed am k (Some b, fs) = ((Some b, fs), False) \<and>
    CBB_finish am (Some b, fs) = ((Some b, fs), None)"
proof -
  have f: "CBB_flush am (Some b, fs) = ((Some b, fs), False)"
    using assms by (cases fs) (simp_all add: CBB_flush_def)
  then show ?thesis
    by (simp add: CBB_add_bytes_def CBB_add_u8_def flushed_def CBB_add_asn1_alt then_do_def
        cbb_add_length_prefixed_def CBB_finish_def)
qed

lemma CBB_error_example:
  "let b = \<lparr>buf = [], len = 0, can_resize = False, cbb_error = False\<rparr>;
       r = CBB_add_u8 ample 1 (Some b, [])
   in snd r = False \<and> snd (CBB_add_u8 ample 2 (fst r)) = False"
proof -
  let ?b = "\<lparr>buf = [], len = 0, can_resize = False, cbb_error = False\<rparr>"
  have r: "CBB_add_u8 ample 1 (Some ?b, []) = ((Some (fail_buffer ?b), []), False)"
    by (simp add: CBB_add_u8_def flushed_def CBB_flush_def cbb_buffer_add_u_def cbb_buffer_add_def
        cbb_buffer_reserve_def size_add_def)
  show ?thesis using CBB_error_is_sticky [of "fail_buffer ?b" ample "[]" "[]" 2 0 0] by (simp add: r)
qed

end
