(* ===== verification/Constant_Time.thy ===== *)
theory Constant_Time
  imports Teamy_Prelude
begin

unbundle bit_operations_syntax

text \<open>
  The branch-free comparisons and selections of BoringSSL's crypto/internal.h on a
  \<open>crypto_word_t\<close> of 64 bits. Each returns a mask, all ones for true and zero for false; the lemmas
  say which comparison it stands for. \<open>value_barrier_w\<close> is the identity.
\<close>

section \<open>The functions\<close>

type_synonym crypto_word = u64

definition constant_time_msb_w :: "crypto_word \<Rightarrow> crypto_word" where
  "constant_time_msb_w a = 0 - drop_bit (64 - 1) a"

definition constant_time_lt_w :: "crypto_word \<Rightarrow> crypto_word \<Rightarrow> crypto_word" where
  "constant_time_lt_w a b = constant_time_msb_w (a XOR ((a XOR b) OR ((a - b) XOR a)))"

definition constant_time_lt_8 :: "crypto_word \<Rightarrow> crypto_word \<Rightarrow> u8" where
  "constant_time_lt_8 a b = ucast (constant_time_lt_w a b)"

definition constant_time_ge_w :: "crypto_word \<Rightarrow> crypto_word \<Rightarrow> crypto_word" where
  "constant_time_ge_w a b = NOT (constant_time_lt_w a b)"

definition constant_time_ge_8 :: "crypto_word \<Rightarrow> crypto_word \<Rightarrow> u8" where
  "constant_time_ge_8 a b = ucast (constant_time_ge_w a b)"

definition constant_time_is_zero_w :: "crypto_word \<Rightarrow> crypto_word" where
  "constant_time_is_zero_w a = constant_time_msb_w (NOT a AND (a - 1))"

definition constant_time_is_zero_8 :: "crypto_word \<Rightarrow> u8" where
  "constant_time_is_zero_8 a = ucast (constant_time_is_zero_w a)"

definition constant_time_eq_w :: "crypto_word \<Rightarrow> crypto_word \<Rightarrow> crypto_word" where
  "constant_time_eq_w a b = constant_time_is_zero_w (a XOR b)"

definition constant_time_eq_8 :: "crypto_word \<Rightarrow> crypto_word \<Rightarrow> u8" where
  "constant_time_eq_8 a b = ucast (constant_time_eq_w a b)"

definition constant_time_eq_int :: "u32 \<Rightarrow> u32 \<Rightarrow> crypto_word" where
  "constant_time_eq_int a b = constant_time_eq_w (scast a) (scast b)"

definition constant_time_eq_int_8 :: "u32 \<Rightarrow> u32 \<Rightarrow> u8" where
  "constant_time_eq_int_8 a b = constant_time_eq_8 (scast a) (scast b)"

definition constant_time_select_w :: "crypto_word \<Rightarrow> crypto_word \<Rightarrow> crypto_word \<Rightarrow> crypto_word" where
  "constant_time_select_w m a b = (m AND a) OR (NOT m AND b)"

definition constant_time_select_8 :: "u8 \<Rightarrow> u8 \<Rightarrow> u8 \<Rightarrow> u8" where
  "constant_time_select_8 m a b =
     ucast (constant_time_select_w (ucast m) (ucast a) (ucast b))"

definition constant_time_select_int :: "crypto_word \<Rightarrow> u32 \<Rightarrow> u32 \<Rightarrow> u32" where
  "constant_time_select_int m a b = ucast (constant_time_select_w m (scast a) (scast b))"

section \<open>What they compute\<close>

lemma bit_63: "bit (w :: u64) 63 \<longleftrightarrow> 2 ^ 63 \<le> unat w"
proof -
  have "bit w 63 \<longleftrightarrow> bit (unat w) 63" by (simp add: bit_simps)
  also have "\<dots> \<longleftrightarrow> odd (unat w div 2 ^ 63)" by (simp add: bit_iff_odd)
  also have "\<dots> \<longleftrightarrow> 2 ^ 63 \<le> unat w"
  proof -
    have "unat w div 2 ^ 63 < 2" using unat_u64_less [of w] by (subst div_less_iff_less_mult) simp_all
    then have "unat w div 2 ^ 63 = 0 \<or> unat w div 2 ^ 63 = 1" by linarith
    then show ?thesis by (auto simp: div_eq_0_iff; linarith)
  qed
  finally show ?thesis .
qed

lemma msb_w_eq: "constant_time_msb_w a = (if bit a 63 then - 1 else 0)"
proof -
  have "drop_bit 63 a = of_bool (bit a 63)"
  proof (rule bit_word_eqI)
    show "bit (drop_bit 63 a) n \<longleftrightarrow> bit (of_bool (bit a 63) :: u64) n" for n
      using bit_imp_le_length [of a "63 + n"] by (cases n) (auto simp: bit_simps)
  qed
  then show ?thesis by (simp add: constant_time_msb_w_def)
qed

lemma unat_minus_u64:
  "unat (a - b :: u64) = (if unat b \<le> unat a then unat a - unat b else 2 ^ 64 + unat a - unat b)"
  by (simp add: unat_sub_if' add.commute [of _ "unat a"])

lemma lt_w_eq: "constant_time_lt_w a b = (if a < b then - 1 else 0)"
proof -
  have "bit (a XOR ((a XOR b) OR ((a - b) XOR a))) 63 \<longleftrightarrow>
      (if bit a 63 = bit b 63 then bit (a - b) 63 else bit b 63)"
    by (auto simp: bit_simps)
  also have "\<dots> \<longleftrightarrow> unat a < unat b"
    using unat_u64_less [of a] unat_u64_less [of b] unfolding bit_63 unat_minus_u64 by auto
  finally show ?thesis by (simp add: constant_time_lt_w_def msb_w_eq word_less_nat_alt)
qed

lemma is_zero_w_eq: "constant_time_is_zero_w a = (if a = 0 then - 1 else 0)"
proof -
  have "bit (NOT a AND (a - 1)) 63 \<longleftrightarrow> \<not> bit a 63 \<and> bit (a - 1) 63" by (simp add: bit_simps)
  also have "\<dots> \<longleftrightarrow> unat a = 0"
    unfolding bit_63 unat_minus_u64 by auto
  finally show ?thesis by (simp add: constant_time_is_zero_w_def msb_w_eq unat_eq_zero)
qed

lemma eq_w_eq: "constant_time_eq_w a b = (if a = b then - 1 else 0)"
proof -
  have "a XOR b = 0 \<longleftrightarrow> a = b" by (rule word_xor_eq_0)
  then show ?thesis by (simp add: constant_time_eq_w_def is_zero_w_eq)
qed

lemma ucast_ones: "(ucast (- 1 :: u64) :: u8) = 0xff"
  by code_simp

lemma lt_8_eq: "constant_time_lt_8 a b = (if a < b then 0xff else 0)"
  using ucast_ones by (simp add: constant_time_lt_8_def lt_w_eq)

lemma ge_w_eq: "constant_time_ge_w a b = (if a \<ge> b then - 1 else 0)"
  unfolding constant_time_ge_w_def lt_w_eq by (cases "a < b") (simp_all add: leD)

lemma ge_8_eq: "constant_time_ge_8 a b = (if a \<ge> b then 0xff else 0)"
  using ucast_ones by (simp add: constant_time_ge_8_def ge_w_eq)

lemma is_zero_8_eq: "constant_time_is_zero_8 a = (if a = 0 then 0xff else 0)"
  using ucast_ones by (simp add: constant_time_is_zero_8_def is_zero_w_eq)

lemma eq_8_eq: "constant_time_eq_8 a b = (if a = b then 0xff else 0)"
  using ucast_ones by (simp add: constant_time_eq_8_def eq_w_eq)

lemma select_w_eq: "constant_time_select_w (if c then - 1 else 0) a b = (if c then a else b)"
  by (simp add: constant_time_select_w_def)

lemma select_8_eq: "constant_time_select_8 (if c then 0xff else 0) a b = (if c then a else b)"
proof -
  have e: "(ucast (0xff :: u8) :: u64) = mask 8" by (simp add: mask_eq_exp_minus_1)
  have "constant_time_select_8 0xff a b = a"
    unfolding constant_time_select_8_def constant_time_select_w_def e
    by (intro bit_word_eqI) (auto simp: bit_simps)
  moreover have "constant_time_select_8 0 a b = b"
    unfolding constant_time_select_8_def constant_time_select_w_def
    by (intro bit_word_eqI) (auto simp: bit_simps)
  ultimately show ?thesis by simp
qed

section \<open>What the functions compute\<close>

text \<open>The branch-free functions compute the comparisons they are named after, for every pair
  of words: the masks are all ones or zero, and a selection with such a mask is a conditional.\<close>

lemma constant_time_is_comparison:
  "constant_time_lt_w a b = (if a < b then - 1 else 0) \<and>
   constant_time_ge_w a b = (if a \<ge> b then - 1 else 0) \<and>
   constant_time_is_zero_w a = (if a = 0 then - 1 else 0) \<and>
   constant_time_eq_w a b = (if a = b then - 1 else 0) \<and>
   constant_time_select_w (constant_time_lt_w a b) x y = (if a < b then x else y) \<and>
   constant_time_select_8 (constant_time_eq_8 a b) u v = (if a = b then u else v)"
  using select_w_eq [of "a < b" x y] select_8_eq [of "a = b" u v]
  by (simp only: lt_w_eq ge_w_eq is_zero_w_eq eq_w_eq eq_8_eq)

end
