(* ===== verification/Base64.thy ===== *)
theory Base64
  imports Constant_Time
begin

unbundle bit_operations_syntax

text \<open>
  BoringSSL's base64 (crypto/base64/base64.c): the constant-time character conversions, the block
  encoder and decoder, and the streaming interface over \<open>EVP_ENCODE_CTX\<close>, of which \<open>data\<close> keeps the
  \<open>data_used\<close> bytes that are in use. Output goes to a buffer of the caller; the model returns the
  bytes that are written, in order.
\<close>

section \<open>Characters\<close>

definition constant_time_lt_args_8 :: "u8 \<Rightarrow> u8 \<Rightarrow> u8" where
  "constant_time_lt_args_8 a b = ucast (constant_time_msb_w (ucast a - ucast b))"

definition constant_time_in_range_8 :: "u8 \<Rightarrow> u8 \<Rightarrow> u8 \<Rightarrow> u8" where
  "constant_time_in_range_8 a lo hi = constant_time_lt_args_8 (a - lo) (hi - lo + 1)"

definition conv_bin2ascii :: "u8 \<Rightarrow> u8" where
  "conv_bin2ascii a =
    (let a = a AND 0x3f;
         ret = constant_time_select_8 (constant_time_eq_8 (ucast a) 62) 43 47;
         ret = constant_time_select_8 (constant_time_lt_args_8 a 62) (a - 52 + 48) ret;
         ret = constant_time_select_8 (constant_time_lt_args_8 a 52) (a - 26 + 97) ret
     in constant_time_select_8 (constant_time_lt_args_8 a 26) (a + 65) ret)"

definition base64_ascii_to_bin :: "u8 \<Rightarrow> u8" where
  "base64_ascii_to_bin a =
    (let is_upper = constant_time_in_range_8 a 65 90;
         is_lower = constant_time_in_range_8 a 97 122;
         is_digit = constant_time_in_range_8 a 48 57;
         is_plus = constant_time_eq_8 (ucast a) 43;
         is_slash = constant_time_eq_8 (ucast a) 47;
         is_equals = constant_time_eq_8 (ucast a) 61;
         ret = 0xff;
         ret = constant_time_select_8 is_upper (a - 65) ret;
         ret = constant_time_select_8 is_lower (a - 97 + 26) ret;
         ret = constant_time_select_8 is_digit (a - 48 + 52) ret;
         ret = constant_time_select_8 is_plus 62 ret;
         ret = constant_time_select_8 is_slash 63 ret
     in constant_time_select_8 is_equals 0 ret)"

section \<open>Encoding\<close>

definition EVP_EncodedLength :: "nat \<Rightarrow> nat option" where
  "EVP_EncodedLength len =
    (if size_add len 2 < len then None
     else let len = size_add len 2 div 3
       in if size_mul len 4 div 4 \<noteq> len then None
          else let len = size_mul len 4
            in if size_add len 1 < len then None else Some (size_add len 1))"

text \<open>The characters of \<open>EVP_EncodeBlock\<close>, without the terminating zero; three bytes a round.\<close>

fun encode_chars :: "bytes \<Rightarrow> bytes" where
  "encode_chars [] = []"
| "encode_chars [a] =
     (let l = push_bit 16 (ucast a :: u32)
      in [conv_bin2ascii (ucast (drop_bit 18 l)), conv_bin2ascii (ucast (drop_bit 12 l)), 61, 61])"
| "encode_chars [a, b] =
     (let l = push_bit 16 (ucast a :: u32) OR push_bit 8 (ucast b)
      in [conv_bin2ascii (ucast (drop_bit 18 l)), conv_bin2ascii (ucast (drop_bit 12 l)),
          conv_bin2ascii (ucast (drop_bit 6 l)), 61])"
| "encode_chars (a # b # c # src) =
     (let l = (push_bit 16 (ucast a :: u32) OR push_bit 8 (ucast b)) OR ucast c
      in [conv_bin2ascii (ucast (drop_bit 18 l)), conv_bin2ascii (ucast (drop_bit 12 l)),
          conv_bin2ascii (ucast (drop_bit 6 l)), conv_bin2ascii (ucast l)] @ encode_chars src)"

definition EVP_EncodeBlock :: "bytes \<Rightarrow> bytes \<times> nat" where
  "EVP_EncodeBlock src = (encode_chars src @ [0], length (encode_chars src))"

record encode_ctx =
  data :: bytes
  eof_seen :: bool
  error_encountered :: bool

definition EVP_EncodeInit :: encode_ctx where
  "EVP_EncodeInit = \<lparr>data = [], eof_seen = False, error_encountered = False\<rparr>"

text \<open>The loop over full blocks: the characters written so far, and \<open>total\<close> with what is left of the
  input, or None when \<open>total\<close> overflows.\<close>

fun encode_loop :: "bytes \<Rightarrow> bytes \<Rightarrow> nat \<Rightarrow> bytes \<times> (nat \<times> bytes) option" where
  "encode_loop inp out tot =
    (if 48 \<le> length inp then
       let encoded = encode_chars (take 48 inp); inp = drop 48 inp; out = out @ encoded @ [10]
       in if size_add (size_add tot (length encoded)) 1 < tot then (out, None)
          else encode_loop inp out (size_add tot (size_add (length encoded) 1))
     else (out, Some (tot, inp)))"

declare encode_loop.simps [simp del]

definition INT_MAX :: nat where "INT_MAX = 2147483647"

text \<open>What is written ends with the zero that the next line overwrites.\<close>

definition terminated :: "bytes \<Rightarrow> bytes" where
  "terminated out = (if out = [] then [] else out @ [0])"

text \<open>The context after the call, the bytes written at \<open>out\<close>, and \<open>*out_len\<close>.\<close>

definition EVP_EncodeUpdate :: "encode_ctx \<Rightarrow> bytes \<Rightarrow> encode_ctx \<times> bytes \<times> nat" where
  "EVP_EncodeUpdate ctx inp =
    (if length inp = 0 then (ctx, [], 0)
     else if 48 - length (data ctx) > length inp then (ctx\<lparr>data := data ctx @ inp\<rparr>, [], 0)
     else let (ctx, inp, out) =
            (if length (data ctx) \<noteq> 0 then
               let todo = 48 - length (data ctx)
               in (ctx\<lparr>data := []\<rparr>, drop todo inp, encode_chars (data ctx @ take todo inp) @ [10])
             else (ctx, inp, []))
       in case encode_loop inp out (length out) of
            (out, None) \<Rightarrow> (ctx, terminated out, 0)
          | (out, Some (tot, inp)) \<Rightarrow>
              (ctx\<lparr>data := inp\<rparr>, terminated out, if tot > INT_MAX then 0 else tot))"

definition EVP_EncodeFinal :: "encode_ctx \<Rightarrow> encode_ctx \<times> bytes \<times> nat" where
  "EVP_EncodeFinal ctx =
    (if length (data ctx) = 0 then (ctx, [], 0)
     else let encoded = encode_chars (data ctx) @ [10]
       in (ctx\<lparr>data := []\<rparr>, terminated encoded, length encoded))"

section \<open>Decoding\<close>

definition EVP_DecodedLength :: "nat \<Rightarrow> nat option" where
  "EVP_DecodedLength len = (if len mod 4 \<noteq> 0 then None else Some (size_mul (len div 4) 3))"

definition EVP_DecodeInit :: encode_ctx where
  "EVP_DecodeInit = \<lparr>data = [], eof_seen = False, error_encountered = False\<rparr>"

definition base64_decode_quad :: "u8 \<Rightarrow> u8 \<Rightarrow> u8 \<Rightarrow> u8 \<Rightarrow> bytes option" where
  "base64_decode_quad in0 in1 in2 in3 =
    (let a = base64_ascii_to_bin in0; b = base64_ascii_to_bin in1;
         c = base64_ascii_to_bin in2; d = base64_ascii_to_bin in3
     in if a = 0xff \<or> b = 0xff \<or> c = 0xff \<or> d = 0xff then None
        else let v = ((push_bit 18 (ucast a :: u32) OR push_bit 12 (ucast b)) OR push_bit 6 (ucast c)) OR ucast d
          in (case (in0 = 61, in1 = 61, in2 = 61, in3 = 61) of
                (False, False, False, False) \<Rightarrow> Some [ucast (drop_bit 16 v), ucast (drop_bit 8 v), ucast v]
              | (False, False, False, True) \<Rightarrow> Some [ucast (drop_bit 16 v), ucast (drop_bit 8 v)]
              | (False, False, True, True) \<Rightarrow> Some [ucast (drop_bit 16 v)]
              | _ \<Rightarrow> None))"

text \<open>\<open>EVP_DecodeUpdate\<close> one character at a time: the context, the bytes written, and whether the
  loop goes on; it stops where the function returns -1 with \<open>error_encountered\<close> set.\<close>

definition decode_char :: "encode_ctx \<Rightarrow> u8 \<Rightarrow> encode_ctx \<times> bytes \<times> bool" where
  "decode_char ctx c =
    (if c \<in> {32, 9, 13, 10} then (ctx, [], True)
     else if eof_seen ctx then (ctx\<lparr>error_encountered := True\<rparr>, [], False)
     else let d = data ctx @ [c]
       in if length d = 4 then
            (case base64_decode_quad (d ! 0) (d ! 1) (d ! 2) (d ! 3) of
               None \<Rightarrow> (ctx\<lparr>data := d, error_encountered := True\<rparr>, [], False)
             | Some out \<Rightarrow> (ctx\<lparr>data := [], eof_seen := eof_seen ctx \<or> length out < 3\<rparr>, out, True))
          else (ctx\<lparr>data := d\<rparr>, [], True))"

fun decode_chars :: "encode_ctx \<Rightarrow> bytes \<Rightarrow> encode_ctx \<times> bytes \<times> bool" where
  "decode_chars ctx [] = (ctx, [], True)"
| "decode_chars ctx (c # inp) = (case decode_char ctx c of
     (ctx, out, False) \<Rightarrow> (ctx, out, False)
   | (ctx, out, True) \<Rightarrow> (case decode_chars ctx inp of (ctx, out', ok) \<Rightarrow> (ctx, out @ out', ok)))"

text \<open>The context after the call, the bytes written at \<open>out\<close>, \<open>*out_len\<close> and the result.\<close>

definition EVP_DecodeUpdate :: "encode_ctx \<Rightarrow> bytes \<Rightarrow> encode_ctx \<times> bytes \<times> nat \<times> int" where
  "EVP_DecodeUpdate ctx inp =
    (if error_encountered ctx then (ctx, [], 0, - 1)
     else case decode_chars ctx inp of
       (ctx, out, False) \<Rightarrow> (ctx, out, 0, - 1)
     | (ctx, out, True) \<Rightarrow>
         if length out > INT_MAX then (ctx\<lparr>error_encountered := True\<rparr>, out, 0, - 1)
         else (ctx, out, length out, if eof_seen ctx then 0 else 1))"

definition EVP_DecodeFinal :: "encode_ctx \<Rightarrow> int" where
  "EVP_DecodeFinal ctx = (if error_encountered ctx \<or> length (data ctx) \<noteq> 0 then - 1 else 1)"

fun decode_quads :: "bytes \<Rightarrow> bytes option" where
  "decode_quads (a # b # c # d # inp) = (case base64_decode_quad a b c d of
     None \<Rightarrow> None
   | Some out \<Rightarrow> if length out \<noteq> 3 \<and> inp \<noteq> [] then None else map_option (append out) (decode_quads inp))"
| "decode_quads _ = Some []"

definition EVP_DecodeBase64 :: "nat \<Rightarrow> bytes \<Rightarrow> bytes option" where
  "EVP_DecodeBase64 max_out inp =
    (if length inp mod 4 \<noteq> 0 then None
     else case EVP_DecodedLength (length inp) of None \<Rightarrow> None
       | Some max_len \<Rightarrow> if max_out < max_len then None else decode_quads inp)"

definition EVP_DecodeBlock :: "bytes \<Rightarrow> (bytes \<times> int)" where
  "EVP_DecodeBlock src =
    (let src = dropWhile (\<lambda>c. c = 32 \<or> c = 9) src;
         src = rev (dropWhile (\<lambda>c. c = 32 \<or> c = 9 \<or> c = 13 \<or> c = 10) (rev src))
     in case EVP_DecodedLength (length src) of None \<Rightarrow> ([], - 1)
       | Some dst_len \<Rightarrow>
           if dst_len > INT_MAX then ([], - 1)
           else (case EVP_DecodeBase64 dst_len src of None \<Rightarrow> ([], - 1)
             | Some dst \<Rightarrow>
                 let dst = dst @ replicate ((3 - length dst mod 3) mod 3) 0
                 in (dst, int (length dst))))"

section \<open>The character conversions\<close>

lemma lt_args_8_eq: "constant_time_lt_args_8 a b = (if a < b then 0xff else 0)"
proof -
  have u: "unat (ucast x :: u64) = unat x" for x :: u8
    by (simp add: unsigned_ucast_eq take_bit_nat_eq_self less_trans [OF unat_u8_less])
  have "bit (ucast a - ucast b :: u64) 63 \<longleftrightarrow> unat a < unat b"
    using unat_u8_less [of a] unat_u8_less [of b]
    unfolding bit_63 unat_minus_u64 u by (auto simp del: unat_u8_less)
  then show ?thesis using ucast_ones by (simp add: constant_time_lt_args_8_def msb_w_eq word_less_nat_alt)
qed

lemma conv_bin2ascii_eq:
  "conv_bin2ascii a = (let k = a AND 0x3f in
     if k < 26 then k + 65 else if k < 52 then k - 26 + 97 else if k < 62 then k - 52 + 48
     else if k = 62 then 43 else 47)"
proof -
  have e: "ucast k = (62 :: u64) \<longleftrightarrow> k = 62" for k :: u8
    by (simp add: word_unat_eq_iff unsigned_ucast_eq take_bit_nat_eq_self less_trans [OF unat_u8_less])
  show ?thesis unfolding conv_bin2ascii_def Let_def lt_args_8_eq eq_8_eq select_8_eq e by (rule refl)
qed

lemma base64_ascii_to_bin_eq:
  "base64_ascii_to_bin a =
    (if a = 61 then 0 else if a = 47 then 63 else if a = 43 then 62
     else if a - 48 < 10 then a - 48 + 52 else if a - 97 < 26 then a - 97 + 26
     else if a - 65 < 26 then a - 65 else 0xff)"
proof -
  have e: "ucast a = (ucast k :: u64) \<longleftrightarrow> a = k" for k :: u8
    by (simp add: word_unat_eq_iff unsigned_ucast_eq take_bit_nat_eq_self less_trans [OF unat_u8_less])
  have "ucast a = (61 :: u64) \<longleftrightarrow> a = 61" "ucast a = (47 :: u64) \<longleftrightarrow> a = 47" "ucast a = (43 :: u64) \<longleftrightarrow> a = 43"
    using e [of 61] e [of 47] e [of 43] by simp_all
  then show ?thesis
    unfolding base64_ascii_to_bin_def constant_time_in_range_8_def Let_def lt_args_8_eq eq_8_eq select_8_eq
    by simp
qed

lemma and_63: "unat (w AND 63 :: u8) = unat w mod 64"
  using unat_and_mask [of w 6] by (simp add: mask_eq_exp_minus_1)

lemma six_bits_roundtrip_list:
  "list_all (\<lambda>k :: u8. base64_ascii_to_bin (conv_bin2ascii k) = k \<and> conv_bin2ascii k \<noteq> 61
     \<and> conv_bin2ascii k \<notin> {32, 9, 13, 10}) (map of_nat [0..<64])"
  unfolding conv_bin2ascii_eq base64_ascii_to_bin_eq Let_def
  by code_simp

lemma six_bits_roundtrip:
  assumes "k < 64"
  shows "base64_ascii_to_bin (conv_bin2ascii (of_nat k)) = of_nat k" "conv_bin2ascii (of_nat k) \<noteq> 61"
    "conv_bin2ascii (of_nat k) \<notin> {32, 9, 13, 10}"
  using six_bits_roundtrip_list assms by (auto simp only: list_all_iff set_map set_upt atLeast0LessThan lessThan_iff image_iff)

lemma conv_bin2ascii_mod: "conv_bin2ascii (ucast (w :: u32)) = conv_bin2ascii (of_nat (unat w mod 64))"
proof -
  have "unat (ucast w AND 63 :: u8) = unat (of_nat (unat w mod 64) AND 63 :: u8)"
    by (simp add: and_63 unat_of_nat unsigned_ucast_eq take_bit_eq_mod mod_mod_cancel)
  then have "ucast w AND 63 = (of_nat (unat w mod 64) AND 63 :: u8)" by (rule word_unat_eq_iff [THEN iffD2])
  then show ?thesis unfolding conv_bin2ascii_def by (simp add: Let_def)
qed

lemma ascii_of_digit: "base64_ascii_to_bin (conv_bin2ascii (ucast (w :: u32))) = of_nat (unat w mod 64)"
    "conv_bin2ascii (ucast w) \<noteq> 61"
    "conv_bin2ascii (ucast w) \<notin> {32, 9, 13, 10}"
  unfolding conv_bin2ascii_mod by (rule six_bits_roundtrip, simp)+

section \<open>One group\<close>

lemma horner:
  "push_bit 16 (x :: u32) OR push_bit 8 y = push_bit 8 (push_bit 8 x OR y)"
  "(push_bit 18 (x :: u32) OR push_bit 12 y) OR push_bit 6 z = push_bit 6 (push_bit 6 (push_bit 6 x OR y) OR z)"
  by (simp_all add: push_bit_or)

lemma unat_u8_u32: "unat (ucast (a :: u8) :: u32) = unat a"
  by (simp add: unsigned_ucast_eq take_bit_nat_eq_self less_trans [OF unat_u8_less])

lemma unat_group: "unat ((push_bit 16 (ucast (a :: u8) :: u32) OR push_bit 8 (ucast (b :: u8))) OR ucast (c :: u8))
    = (unat a * 256 + unat b) * 256 + unat c"
proof -
  have 1: "unat (push_bit 8 (ucast a :: u32) OR ucast b) = unat a * 256 + unat b"
    using unat_u8_less [of a] unat_u8_less [of b]
    by (subst unat_push_or) (simp_all add: unat_u8_u32 del: unat_u8_less)
  show ?thesis unfolding horner
    using unat_u8_less [of a] unat_u8_less [of b] unat_u8_less [of c]
    by (subst unat_push_or) (simp_all add: unat_u8_u32 1 del: unat_u8_less)
qed

lemma unat_quad:
  assumes "a < 64" "b < 64" "c < 64" "d < 64"
  shows "unat (((push_bit 18 (ucast (of_nat a :: u8) :: u32) OR push_bit 12 (ucast (of_nat b :: u8)))
      OR push_bit 6 (ucast (of_nat c :: u8))) OR ucast (of_nat d :: u8))
    = ((a * 64 + b) * 64 + c) * 64 + d"
proof -
  have u: "unat (ucast (of_nat k :: u8) :: u32) = k" if "k < 64" for k
    using that by (simp add: unat_u8_u32 unat_of_nat)
  have 1: "unat (push_bit 6 (ucast (of_nat a :: u8) :: u32) OR ucast (of_nat b :: u8)) = a * 64 + b"
    using assms by (subst unat_push_or) (simp_all add: u)
  have 2: "unat (push_bit 6 (push_bit 6 (ucast (of_nat a :: u8) :: u32) OR ucast (of_nat b :: u8)) OR ucast (of_nat c :: u8))
      = (a * 64 + b) * 64 + c"
    using assms by (subst unat_push_or) (simp_all add: u 1 del: push_bit_or)
  show ?thesis unfolding horner
    using assms by (subst unat_push_or) (simp_all add: u 2 del: push_bit_or)
qed

definition digit64 :: "nat \<Rightarrow> nat \<Rightarrow> nat" where "digit64 n i = n div 64 ^ i mod 64"

lemma digit64_less [simp]: "digit64 n i < 64" by (simp add: digit64_def)

lemma digits64:
  assumes "n < 2 ^ 24"
  shows "((digit64 n 3 * 64 + digit64 n 2) * 64 + digit64 n 1) * 64 + digit64 n 0 = n"
proof -
  have "n div 64 ^ 3 < 64" using assms by (subst div_less_iff_less_mult) simp_all
  then have "digit64 n 3 = n div 64 div 64 div 64"
    by (simp add: digit64_def flip: div_mult2_eq)
  moreover have "digit64 n 2 = n div 64 div 64 mod 64" by (simp add: digit64_def flip: div_mult2_eq)
  ultimately show ?thesis by (simp add: digit64_def)
qed

lemma enc_digit:
  "conv_bin2ascii (ucast (drop_bit 18 (l :: u32))) = conv_bin2ascii (of_nat (digit64 (unat l) 3))"
  "conv_bin2ascii (ucast (drop_bit 12 (l :: u32))) = conv_bin2ascii (of_nat (digit64 (unat l) 2))"
  "conv_bin2ascii (ucast (drop_bit 6 (l :: u32))) = conv_bin2ascii (of_nat (digit64 (unat l) 1))"
  "conv_bin2ascii (ucast l) = conv_bin2ascii (of_nat (digit64 (unat l) 0))"
  by (subst conv_bin2ascii_mod; simp add: digit64_def unat_drop_bit_div)+

lemma byte_of: "ucast (drop_bit k (v :: u32)) = (of_nat (unat v div 2 ^ k) :: u8)"
  by (simp add: word_unat_eq_iff unsigned_ucast_eq unat_of_nat unat_drop_bit_div take_bit_eq_mod)

lemma byte_of_0: "ucast (v :: u32) = (of_nat (unat v) :: u8)"
  using byte_of [of 0 v] by simp

lemma group_div:
  assumes "a < 256" "b < 256" "c < (256 :: nat)"
  shows "((a * 256 + b) * 256 + c) div 65536 = a" "((a * 256 + b) * 256 + c) div 256 = a * 256 + b"
proof -
  show 1: "((a * 256 + b) * 256 + c) div 256 = a * 256 + b" using assms by (subst div_mult_self3) simp_all
  have "((a * 256 + b) * 256 + c) div 65536 = ((a * 256 + b) * 256 + c) div (256 * 256)" by simp
  also have "\<dots> = a" unfolding div_mult2_eq 1 using assms by (subst div_mult_self3) simp_all
  finally show "((a * 256 + b) * 256 + c) div 65536 = a" .
qed

lemma of_nat_low_byte: "of_nat (k * 256 + unat b) = (b :: u8)"
  by (rule word_unat_eq_iff [THEN iffD2]) (simp only: unat_of_nat, simp)

lemma bytes_of_group:
  assumes "unat (v :: u32) = (unat a * 256 + unat b) * 256 + unat c"
  shows "ucast (drop_bit 16 v) = (a :: u8)" "ucast (drop_bit 8 v) = (b :: u8)" "ucast v = (c :: u8)"
proof -
  note d = group_div [OF unat_u8_less [of a] unat_u8_less [of b] unat_u8_less [of c]]
  have p: "(2 :: nat) ^ 8 = 256" by simp
  show "ucast (drop_bit 16 v) = a" using d(1) by (simp only: byte_of assms) simp
  show "ucast (drop_bit 8 v) = b" by (simp only: byte_of assms p d(2) of_nat_low_byte)
  show "ucast v = c" by (simp only: byte_of_0 assms of_nat_low_byte)
qed

lemma not_invalid: "k < 64 \<Longrightarrow> (of_nat k :: u8) \<noteq> 255"
  by (simp add: word_unat_eq_iff unat_of_nat)

lemma ascii_equals: "base64_ascii_to_bin 61 = of_nat 0"
  by (simp add: base64_ascii_to_bin_eq)

lemma decode_group:
  assumes n: "n = (unat a * 256 + unat b) * 256 + unat c"
  defines "D \<equiv> \<lambda>i. conv_bin2ascii (of_nat (digit64 n i))"
  shows "base64_decode_quad (D 3) (D 2) (D 1) (D 0) = Some [a, b, c]"
    "c = 0 \<Longrightarrow> base64_decode_quad (D 3) (D 2) (D 1) 61 = Some [a, b]"
    "b = 0 \<Longrightarrow> c = 0 \<Longrightarrow> base64_decode_quad (D 3) (D 2) 61 61 = Some [a]"
proof -
  have lt: "n < 2 ^ 24" using n unat_u8_less [of a] unat_u8_less [of b] unat_u8_less [of c] by (simp del: unat_u8_less)
  have v: "unat (((push_bit 18 (ucast (of_nat (digit64 n 3) :: u8) :: u32) OR push_bit 12 (ucast (of_nat (digit64 n 2) :: u8)))
      OR push_bit 6 (ucast (of_nat (digit64 n 1) :: u8))) OR ucast (of_nat (digit64 n 0) :: u8)) = n" (is "unat ?v = n")
    by (subst unat_quad) (simp_all only: digit64_less digits64 [OF lt])
  have o: "ucast (drop_bit 16 ?v) = a" "ucast (drop_bit 8 ?v) = b" "ucast ?v = c"
    by (rule bytes_of_group [OF trans [OF v n]])+
  show "base64_decode_quad (D 3) (D 2) (D 1) (D 0) = Some [a, b, c]"
    unfolding base64_decode_quad_def D_def Let_def
    by (simp only: six_bits_roundtrip digit64_less not_invalid o simp_thms if_False prod.case bool.case)
  show "base64_decode_quad (D 3) (D 2) (D 1) 61 = Some [a, b]" if "c = 0"
  proof -
    have "digit64 n 0 = 0" using n that by (simp add: digit64_def)
    with o show ?thesis unfolding base64_decode_quad_def D_def Let_def
      by (simp only: six_bits_roundtrip digit64_less not_invalid ascii_equals simp_thms if_False prod.case bool.case)
  qed
  show "base64_decode_quad (D 3) (D 2) 61 61 = Some [a]" if "b = 0" "c = 0"
  proof -
    have "digit64 n 0 = 0" "digit64 n 1 = 0" using n that by (simp_all add: digit64_def)
    with o show ?thesis unfolding base64_decode_quad_def D_def Let_def
      by (simp only: six_bits_roundtrip digit64_less not_invalid ascii_equals simp_thms if_False prod.case bool.case)
  qed
qed

lemma length_encode_chars: "length (encode_chars src) = 4 * ((length src + 2) div 3)"
proof (induction src rule: encode_chars.induct)
  case (4 a b c src)
  have "(length src + 2 + 3) div 3 = Suc ((length src + 2) div 3)" by (rule div_add_self2 [THEN trans]) simp_all
  with 4 show ?case by (simp add: Let_def)
qed (simp_all add: Let_def)

lemma encode_chars_simps:
  "encode_chars [a] = (let n = (unat a * 256 + unat (0 :: u8)) * 256 + unat (0 :: u8) in
     [conv_bin2ascii (of_nat (digit64 n 3)), conv_bin2ascii (of_nat (digit64 n 2)), 61, 61])"
  "encode_chars [a, b] = (let n = (unat a * 256 + unat b) * 256 + unat (0 :: u8) in
     [conv_bin2ascii (of_nat (digit64 n 3)), conv_bin2ascii (of_nat (digit64 n 2)),
      conv_bin2ascii (of_nat (digit64 n 1)), 61])"
  "encode_chars (a # b # c # src) = (let n = (unat a * 256 + unat b) * 256 + unat c in
     [conv_bin2ascii (of_nat (digit64 n 3)), conv_bin2ascii (of_nat (digit64 n 2)),
      conv_bin2ascii (of_nat (digit64 n 1)), conv_bin2ascii (of_nat (digit64 n 0))] @ encode_chars src)"
  unfolding encode_chars.simps Let_def enc_digit(1-3) unfolding enc_digit(4)
  using unat_group [of a 0 0] unat_group [of a b 0] by (simp_all only: unat_group ucast_0 push_bit_of_0 or.right_neutral)

lemma decode_quads_encode: "decode_quads (encode_chars src) = Some src"
proof (induction src rule: encode_chars.induct)
  case (2 a)
  show ?case unfolding encode_chars_simps Let_def
    by (simp only: decode_quads.simps decode_group(3) [OF refl] option.case) simp
next
  case (3 a b)
  show ?case unfolding encode_chars_simps Let_def
    by (simp only: decode_quads.simps decode_group(2) [OF refl] option.case) simp
next
  case (4 a b c src)
  then show ?case unfolding encode_chars_simps Let_def append.simps
    by (simp only: decode_quads.simps decode_group(1) [OF refl] option.case) simp
qed simp

lemma encode_chars_not_space: "x \<in> set (encode_chars src) \<Longrightarrow> x \<notin> {32, 9, 13, 10}"
proof (induction src rule: encode_chars.induct)
qed (use six_bits_roundtrip(3) in \<open>force simp: encode_chars_simps Let_def simp del: encode_chars.simps(2-)\<close>)+

section \<open>Streams\<close>

function encode_lines :: "bytes \<Rightarrow> bytes" where
  "encode_lines src = (if src = [] then [] else encode_chars (take 48 src) @ [10] @ encode_lines (drop 48 src))"
  by auto
termination by (relation "measure length") auto
declare encode_lines.simps [simp del]

lemma encode_lines_line: "length xs = 48 \<Longrightarrow> encode_lines (xs @ rest) = encode_chars xs @ [10] @ encode_lines rest"
  by (subst encode_lines.simps) auto

lemma encode_loop_lines:
  assumes "48 * length out + 65 * length inp < 2 ^ 63"
  obtains out' inp' where "encode_loop inp out (length out) = (out', Some (length out', inp'))"
    "length inp' < 48" "\<And>rest. out' @ encode_lines (inp' @ rest) = out @ encode_lines (inp @ rest)"
    "48 * length out' \<le> 48 * length out + 65 * length inp"
  using assms
proof (induction inp out "length out" arbitrary: thesis rule: encode_loop.induct)
  case (1 inp out)
  show ?case
  proof (cases "48 \<le> length inp")
    case False
    then show ?thesis using 1 by (intro 1(2) [of out inp]) (simp_all add: encode_loop.simps)
  next
    case True
    have l: "length (encode_chars (take 48 inp)) = 64" using True by (simp add: length_encode_chars)
    let ?out = "out @ encode_chars (take 48 inp) @ [10]"
    have e: "encode_loop inp out (length out) = encode_loop (drop 48 inp) ?out (length ?out)"
      using True l 1(3) by (subst encode_loop.simps) (simp add: Let_def size_add_def)
    have b: "48 * length ?out + 65 * length (drop 48 inp) = 48 * length out + 65 * length inp"
      using True l by simp
    have r: "out @ encode_lines (inp @ rest) = ?out @ encode_lines (drop 48 inp @ rest)" for rest
      using True encode_lines_line [of "take 48 inp" "drop 48 inp @ rest"]
      by (simp flip: append_assoc)
    show ?thesis
    proof (rule "1.hyps" [OF True refl refl refl])
      show "\<not> size_add (size_add (length out) (length (encode_chars (take 48 inp)))) 1 < length out"
        "size_add (length out) (size_add (length (encode_chars (take 48 inp))) 1) = length ?out"
        "48 * length ?out + 65 * length (drop 48 inp) < 2 ^ 63"
        using b l 1(3) by (simp_all add: size_add_def)
      show ?thesis if "encode_loop (drop 48 inp) ?out (length ?out) = (out', Some (length out', inp'))"
        "length inp' < 48" "\<And>rest. out' @ encode_lines (inp' @ rest) = ?out @ encode_lines (drop 48 inp @ rest)"
        "48 * length out' \<le> 48 * length ?out + 65 * length (drop 48 inp)" for out' inp'
        using that unfolding b by (intro 1(2)) (simp_all only: e r)
    qed
  qed
qed

lemma take_terminated: "take (length out) (terminated out) = out"
  by (simp add: terminated_def)

lemma EVP_EncodeUpdate_lines:
  assumes "length (data ctx) < 48" "length inp \<le> 2 ^ 30"
  obtains d out n where "EVP_EncodeUpdate ctx inp = (ctx\<lparr>data := d\<rparr>, out, n)" "length d < 48"
    "\<And>rest. take n out @ encode_lines (d @ rest) = encode_lines (data ctx @ inp @ rest)"
proof -
  consider "inp = []" | "inp \<noteq> []" "length inp < 48 - length (data ctx)"
    | "inp \<noteq> []" "48 - length (data ctx) \<le> length inp" by linarith
  then show thesis
  proof cases
    case 1
    then show ?thesis using assms by (intro that [of "data ctx" "[]" 0]) (simp_all add: EVP_EncodeUpdate_def)
  next
    case 2
    then show ?thesis using assms
      by (intro that [of "data ctx @ inp" "[]" 0]) (simp_all add: EVP_EncodeUpdate_def)
  next
    case 3
    define todo where "todo = (if data ctx = [] then 0 else 48 - length (data ctx))"
    define out where "out = (if data ctx = [] then [] else encode_chars (data ctx @ take todo inp) @ [10])"
    have len: "length (data ctx @ take todo inp) = 48" if "data ctx \<noteq> []" using that 3 assms by (simp add: todo_def)
    have l: "length out \<le> 65" using len by (simp add: out_def length_encode_chars)
    have e: "out @ encode_lines (drop todo inp @ rest) = encode_lines (data ctx @ inp @ rest)" for rest
    proof (cases "data ctx = []")
      case False
      have "data ctx @ inp @ rest = (data ctx @ take todo inp) @ drop todo inp @ rest" by simp
      also have "encode_lines \<dots> = out @ encode_lines (drop todo inp @ rest)"
        by (subst encode_lines_line [OF len [OF False]]) (simp add: out_def False)
      finally show ?thesis by (rule sym)
    qed (simp add: out_def todo_def)
    have b: "length (drop todo inp) \<le> 2 ^ 30" using assms by simp
    with l have "48 * length out + 65 * length (drop todo inp) < 2 ^ 63" by simp
    then obtain out' d where r: "encode_loop (drop todo inp) out (length out) = (out', Some (length out', d))"
      "length d < 48" "\<And>rest. out' @ encode_lines (d @ rest) = out @ encode_lines (drop todo inp @ rest)"
      "48 * length out' \<le> 48 * length out + 65 * length (drop todo inp)"
      by (rule encode_loop_lines) blast
    have "length out' \<le> INT_MAX" using r(4) b l by (simp add: INT_MAX_def)
    moreover have "EVP_EncodeUpdate ctx inp = (case encode_loop (drop todo inp) out (length out) of
            (out, None) \<Rightarrow> (ctx\<lparr>data := []\<rparr>, terminated out, 0)
          | (out, Some (tot, inp)) \<Rightarrow> (ctx\<lparr>data := inp\<rparr>, terminated out, if tot > INT_MAX then 0 else tot))"
      using 3 by (auto simp: EVP_EncodeUpdate_def out_def todo_def Let_def split: prod.split option.split)
    ultimately have "EVP_EncodeUpdate ctx inp = (ctx\<lparr>data := d\<rparr>, terminated out', length out')"
      by (simp add: r(1))
    then show ?thesis by (rule that) (simp_all only: take_terminated r e)
  qed
qed

text \<open>The output of a whole session: one update for each chunk, then the final call.\<close>

fun encode_session :: "encode_ctx \<Rightarrow> bytes list \<Rightarrow> bytes" where
  "encode_session ctx [] = (case EVP_EncodeFinal ctx of (_, out, n) \<Rightarrow> take n out)"
| "encode_session ctx (inp # chunks) =
     (case EVP_EncodeUpdate ctx inp of (ctx, out, n) \<Rightarrow> take n out @ encode_session ctx chunks)"

lemma EVP_EncodeFinal_lines:
  "length (data ctx) < 48 \<Longrightarrow> (case EVP_EncodeFinal ctx of (_, out, n) \<Rightarrow> take n out) = encode_lines (data ctx)"
  by (subst encode_lines.simps)
     (simp add: EVP_EncodeFinal_def Let_def take_terminated [of "_ @ [10]", simplified] encode_lines.simps [of "[]"])

lemma encode_session_lines:
  assumes "\<forall>inp\<in>set chunks. length inp \<le> 2 ^ 30" "length (data ctx) < 48"
  shows "encode_session ctx chunks = encode_lines (data ctx @ concat chunks)"
  using assms
proof (induction chunks arbitrary: ctx)
  case (Cons inp chunks)
  obtain d out n where r: "EVP_EncodeUpdate ctx inp = (ctx\<lparr>data := d\<rparr>, out, n)" "length d < 48"
    "\<And>rest. take n out @ encode_lines (d @ rest) = encode_lines (data ctx @ inp @ rest)"
    using Cons.prems by (elim EVP_EncodeUpdate_lines [of ctx inp]) auto
  then show ?case using Cons.IH [of "ctx\<lparr>data := d\<rparr>"] Cons.prems by simp
qed (simp add: EVP_EncodeFinal_lines)

section \<open>Decoding a stream\<close>

lemma decode_chars_append:
  "decode_chars ctx (xs @ ys) = (case decode_chars ctx xs of
     (ctx, out, False) \<Rightarrow> (ctx, out, False)
   | (ctx, out, True) \<Rightarrow> (case decode_chars ctx ys of (ctx, out', ok) \<Rightarrow> (ctx, out @ out', ok)))"
  by (induction xs arbitrary: ctx) (auto split: prod.split bool.split)

text \<open>A quad that starts with no data held is decoded at its last character.\<close>

lemma decode_chars_quad:
  assumes "data ctx = []" "\<not> eof_seen ctx" "set [a, b, c, d] \<inter> {32, 9, 13, 10} = {}"
    "base64_decode_quad a b c d = Some out"
  shows "decode_chars ctx (a # b # c # d # inp) =
    (case decode_chars (ctx\<lparr>eof_seen := length out < 3\<rparr>) inp of (ctx, out', ok) \<Rightarrow> (ctx, out @ out', ok))"
  using assms by (cases ctx) (simp add: decode_char_def split: prod.split)

lemma eof_seen_same [simp]: "\<not> eof_seen ctx \<Longrightarrow> ctx\<lparr>eof_seen := False\<rparr> = ctx"
  by (cases ctx) simp

lemma decode_chars_encoded:
  assumes "data ctx = []" "\<not> eof_seen ctx"
  shows "decode_chars ctx (encode_chars src) = (ctx\<lparr>eof_seen := length src mod 3 \<noteq> 0\<rparr>, src, True)"
  using assms
proof (induction src rule: encode_chars.induct)
  case (2 a)
  have "set (encode_chars [a]) \<inter> {32, 9, 13, 10} = {}" using encode_chars_not_space by blast
  with 2 show ?case unfolding encode_chars_simps Let_def
    by (subst decode_chars_quad) (simp_all only: decode_group(3) [OF refl], simp_all)
next
  case (3 a b)
  have "set (encode_chars [a, b]) \<inter> {32, 9, 13, 10} = {}" using encode_chars_not_space by blast
  with 3 show ?case unfolding encode_chars_simps Let_def
    by (subst decode_chars_quad) (simp_all only: decode_group(2) [OF refl], simp_all)
next
  case (4 a b c src)
  have "set (encode_chars (a # b # c # src)) \<inter> {32, 9, 13, 10} = {}" using encode_chars_not_space by blast
  with 4 show ?case unfolding encode_chars_simps Let_def append.simps
    by (subst decode_chars_quad) (simp_all only: decode_group(1) [OF refl], simp_all)
qed simp

lemma decode_chars_lines:
  assumes "data ctx = []" "\<not> eof_seen ctx"
  shows "decode_chars ctx (encode_lines src) = (ctx\<lparr>eof_seen := length src mod 3 \<noteq> 0\<rparr>, src, True)"
  using assms
proof (induction src rule: encode_lines.induct)
  case (1 src)
  have nl: "decode_char c 10 = (c, [], True)" for c by (simp add: decode_char_def)
  show ?case
  proof (cases "length src \<le> 48")
    case True
    then have "encode_lines src = (if src = [] then [] else encode_chars src @ [10])"
      by (subst encode_lines.simps) (simp add: encode_lines.simps [of "[]"])
    then show ?thesis using 1(2,3) by (simp add: decode_chars_append decode_chars_encoded nl)
  next
    case False
    then have "decode_chars ctx (encode_chars (take 48 src)) = (ctx, take 48 src, True)"
      using 1(2,3) by (subst decode_chars_encoded) (simp_all add: min_def)
    moreover have "length (drop 48 src) mod 3 = length src mod 3"
      using False by (simp add: mod_if [of "length src"] le_mod_geq)
    ultimately show ?thesis using False 1
      by (subst encode_lines.simps) (auto simp: decode_chars_append nl split: prod.split)
  qed
qed

text \<open>A whole decoding session: None when an update or the final call reports an error.\<close>

fun decode_session :: "encode_ctx \<Rightarrow> bytes list \<Rightarrow> bytes option" where
  "decode_session ctx [] = (if EVP_DecodeFinal ctx = 1 then Some [] else None)"
| "decode_session ctx (inp # chunks) = (case EVP_DecodeUpdate ctx inp of (ctx, out, n, r) \<Rightarrow>
     if r = - 1 then None else map_option (append (take n out)) (decode_session ctx chunks))"

lemma error_encountered_decode_chars:
  "decode_chars ctx inp = (ctx', out, ok) \<Longrightarrow> error_encountered ctx' = (error_encountered ctx \<or> \<not> ok)"
  by (induction inp arbitrary: ctx out)
     (auto simp: decode_char_def Let_def split: if_splits option.splits prod.splits bool.splits)

lemma length_decode_chars:
  assumes "decode_chars ctx inp = (ctx', out, ok)" "length (data ctx) < 4"
  shows "length out \<le> length (data ctx) + length inp \<and> (ok \<longrightarrow> length (data ctx') < 4)"
  using assms
proof (induction inp arbitrary: ctx out)
  case (Cons c inp)
  have "length out' + length (data ctx'') \<le> Suc (length (data ctx)) \<and> (k \<longrightarrow> length (data ctx'') < 4)"
    if "decode_char ctx c = (ctx'', out', k)" for ctx'' out' k
    using that Cons.prems(2)
    by (auto simp: decode_char_def base64_decode_quad_def Let_def split: if_splits option.splits bool.splits)
  with Cons show ?case by (fastforce split: prod.splits bool.splits)
qed simp

text \<open>The specification of a session: all the characters at once.\<close>

lemma decode_session_chars:
  assumes "\<forall>inp\<in>set chunks. length inp + 4 \<le> INT_MAX" "length (data ctx) < 4" "\<not> error_encountered ctx"
  shows "decode_session ctx chunks = (case decode_chars ctx (concat chunks) of
    (ctx, out, ok) \<Rightarrow> if ok \<and> data ctx = [] then Some out else None)"
  using assms
proof (induction chunks arbitrary: ctx)
  case (Cons inp chunks)
  obtain ctx' out ok where r: "decode_chars ctx inp = (ctx', out, ok)" by (metis prod_cases3)
  have "length out \<le> INT_MAX" using length_decode_chars [OF r] Cons.prems by simp
  moreover have "length (data ctx') < 4" if ok using that length_decode_chars [OF r] Cons.prems by simp
  ultimately show ?case using Cons error_encountered_decode_chars [OF r]
    by (auto simp: EVP_DecodeUpdate_def decode_chars_append r split: prod.split bool.split)
qed (simp add: EVP_DecodeFinal_def)

section \<open>The properties of the module\<close>

text \<open>\<open>EVP_EncodedLength\<close> returns exactly the bytes \<open>EVP_EncodeBlock\<close> writes, terminator
  included, and fails exactly when that number does not fit a \<open>size_t\<close>.\<close>

lemma EVP_EncodedLength_exact:
  assumes "length src < 2 ^ 64"
  shows "EVP_EncodedLength (length src) =
    (if length (fst (EVP_EncodeBlock src)) < 2 ^ 64 then Some (length (fst (EVP_EncodeBlock src))) else None) \<and>
    snd (EVP_EncodeBlock src) + 1 = length (fst (EVP_EncodeBlock src))"
proof -
  have "EVP_EncodedLength n = (if 4 * ((n + 2) div 3) + 1 < 2 ^ 64 then Some (4 * ((n + 2) div 3) + 1) else None)"
    if n: "n < 2 ^ 64" for n
  proof (cases "n + 2 < 2 ^ 64")
    case True
    define k where "k = (n + 2) div 3"
    have k: "k < 2 ^ 63" using True by (simp add: k_def div_less_iff_less_mult)
    have a: "size_add n 2 = n + 2" using True by (simp add: size_add_def)
    show ?thesis
    proof (cases "4 * k < 2 ^ 64")
      case True
      then have "k < 2 ^ 62" by simp
      then have "4 * k + 1 < 2 ^ 64" by simp
      with True show ?thesis using k unfolding EVP_EncodedLength_def a Let_def k_def [symmetric]
        by (simp add: size_mul_def size_add_def mult.commute)
    next
      case False
      then have "4 * k mod 2 ^ 64 div 4 < k"
        using k by (subst div_less_iff_less_mult) (simp_all add: mod_if le_mod_geq)
      with False show ?thesis using k unfolding EVP_EncodedLength_def a Let_def k_def [symmetric]
        by (simp add: size_mul_def size_add_def mult.commute)
    qed
  next
    case False
    then have "size_add n 2 < n" using n by (simp add: size_add_def mod_if le_mod_geq)
    moreover have "(2 ^ 64 :: nat) div 3 \<le> (n + 2) div 3" using False by (intro div_le_mono) simp
    ultimately show ?thesis by (simp add: EVP_EncodedLength_def)
  qed
  with assms show ?thesis by (simp add: EVP_EncodeBlock_def length_encode_chars)
qed

lemma EVP_EncodedLength_example:
  "EVP_EncodedLength 4 = Some 9 \<and> snd (EVP_EncodeBlock [0, 1, 2, 3]) = 8"
proof -
  have "length (fst (EVP_EncodeBlock [0, 1, 2, 3])) = 9" by (simp add: EVP_EncodeBlock_def Let_def)
  moreover have l: "length [0, 1, 2, 3 :: u8] = 4" by simp
  ultimately show ?thesis using EVP_EncodedLength_exact [of "[0, 1, 2, 3]"] unfolding l by simp
qed

lemma fill_3: "n + (3 - n mod 3) mod 3 = 3 * ((n + 2) div 3)" for n :: nat
proof -
  define q r where "q = n div 3" and "r = n mod 3"
  then have n: "n = 3 * q + r" and "r < 3" and m: "n mod 3 = r" by simp_all
  then consider "r = 0" | "r = 1" | "r = 2" by linarith
  then show ?thesis unfolding m unfolding n by cases simp_all
qed

lemma dropWhile_none: "(\<And>x. x \<in> set xs \<Longrightarrow> \<not> P x) \<Longrightarrow> dropWhile P xs = xs"
  by (cases xs) auto

text \<open>Every byte string survives the block encoder followed by either block decoder:
  \<open>EVP_DecodeBase64\<close> returns it as soon as the output buffer has room, and \<open>EVP_DecodeBlock\<close> returns it
  filled up with zeros to a multiple of three.\<close>

lemma base64_block_roundtrip:
  assumes "3 * ((length src + 2) div 3) \<le> max_out" "3 * ((length src + 2) div 3) \<le> INT_MAX"
  shows "EVP_DecodeBase64 max_out (butlast (fst (EVP_EncodeBlock src))) = Some src \<and>
    EVP_DecodeBlock (butlast (fst (EVP_EncodeBlock src))) =
      (src @ replicate ((3 - length src mod 3) mod 3) 0, int (3 * ((length src + 2) div 3)))"
proof -
  let ?e = "encode_chars src"
  have e: "butlast (fst (EVP_EncodeBlock src)) = ?e" by (simp add: EVP_EncodeBlock_def)
  have d: "EVP_DecodedLength (length ?e) = Some (3 * ((length src + 2) div 3))"
    using assms(2) by (simp add: EVP_DecodedLength_def length_encode_chars size_mul_def INT_MAX_def)
  then have b: "EVP_DecodeBase64 m ?e = Some src" if "3 * ((length src + 2) div 3) \<le> m" for m
    using that by (simp add: EVP_DecodeBase64_def decode_quads_encode length_encode_chars)
  have ns: "\<not> (x = 32 \<or> x = 9 \<or> x = 13 \<or> x = 10)" if "x \<in> set ?e" for x
    using encode_chars_not_space [OF that] by simp
  have s: "dropWhile (\<lambda>c. c = 32 \<or> c = 9) ?e = ?e"
    "dropWhile (\<lambda>c. c = 32 \<or> c = 9 \<or> c = 13 \<or> c = 10) (rev ?e) = rev ?e"
    by (rule dropWhile_none, drule ns, simp) (rule dropWhile_none, rule ns, simp)
  have l: "length src + (3 - length src mod 3) mod 3 = 3 * ((length src + 2) div 3)" by (rule fill_3)
  have "EVP_DecodeBlock ?e = (src @ replicate ((3 - length src mod 3) mod 3) 0, int (3 * ((length src + 2) div 3)))"
    unfolding EVP_DecodeBlock_def Let_def s rev_rev_ident d option.case b [OF order_refl]
      length_append length_replicate l using assms(2) by (simp only: not_less [symmetric] if_False)
  then show ?thesis unfolding e using b assms(1) by (intro conjI) 
qed

lemma base64_block_example:
  "EVP_DecodeBase64 6 (butlast (fst (EVP_EncodeBlock [255, 0, 7, 9]))) = Some [255, 0, 7, 9]"
  using base64_block_roundtrip [of "[255, 0, 7, 9]" 6] by (simp add: INT_MAX_def)

text \<open>C28: the streaming encoder does not depend on how its input is cut: for any chunks, the output
  of the updates and the final call is the encoding of the concatenated input in lines of 48 bytes.\<close>

theorem EVP_EncodeUpdate_streams:
  assumes "\<forall>inp\<in>set chunks. length inp \<le> 2 ^ 30"
  shows "encode_session EVP_EncodeInit chunks = encode_lines (concat chunks)"
  using encode_session_lines [OF assms, of EVP_EncodeInit] by (simp add: EVP_EncodeInit_def)

theorem EVP_EncodeUpdate_streams_witness:
  "encode_session EVP_EncodeInit [[1], [2, 3], []] = [65, 81, 73, 68, 10]"
proof -
  have "encode_lines [1, 2, 3] = [65, 81, 73, 68, 10]"
    by (simp add: encode_lines.simps Let_def) code_simp
  then show ?thesis using EVP_EncodeUpdate_streams [of "[[1], [2, 3], []]"] by simp
qed

text \<open>C29: the streaming decoder does not depend on how its input is cut either, errors included: a
  session over any chunks has the result of one update with all the characters.\<close>

theorem EVP_DecodeUpdate_streams:
  assumes "length (concat chunks) + 4 \<le> INT_MAX"
  shows "decode_session EVP_DecodeInit chunks = decode_session EVP_DecodeInit [concat chunks]"
proof -
  have "length inp + 4 \<le> INT_MAX" if "inp \<in> set chunks" for inp
    using assms member_le_sum_list [of "length inp" "map length chunks"] that by (simp add: length_concat)
  then have "decode_session EVP_DecodeInit cs = (case decode_chars EVP_DecodeInit (concat chunks) of
      (ctx, out, ok) \<Rightarrow> if ok \<and> data ctx = [] then Some out else None)"
    if "cs = chunks \<or> cs = [concat chunks]" for cs
    using that assms by (elim disjE; subst decode_session_chars) (auto simp: EVP_DecodeInit_def)
  from this [of chunks] this [of "[concat chunks]"] show ?thesis by simp
qed

theorem EVP_DecodeUpdate_streams_witness:
  "decode_session EVP_DecodeInit [[65, 81], [73, 68]] = decode_session EVP_DecodeInit [[65, 81, 73, 68]]"
  using EVP_DecodeUpdate_streams [of "[[65, 81], [73, 68]]"] by (simp add: INT_MAX_def)

text \<open>C27: what a streaming encoder session writes, cut anywhere, a streaming decoder session turns
  back into the input, skipping the newlines and stopping at the padding.\<close>

theorem base64_stream_roundtrip:
  assumes "\<forall>inp\<in>set chunks. length inp \<le> 2 ^ 30"
    and "concat pieces = encode_session EVP_EncodeInit chunks" "\<forall>inp\<in>set pieces. length inp + 4 \<le> INT_MAX"
  shows "decode_session EVP_DecodeInit pieces = Some (concat chunks)"
proof -
  have "concat pieces = encode_lines (concat chunks)"
    unfolding assms(2) using encode_session_lines [OF assms(1), of EVP_EncodeInit] by (simp add: EVP_EncodeInit_def)
  then show ?thesis
    using decode_chars_lines [of EVP_DecodeInit "concat chunks"] assms(3)
    by (subst decode_session_chars) (simp_all add: EVP_DecodeInit_def)
qed

theorem base64_stream_roundtrip_witness:
  "decode_session EVP_DecodeInit [encode_session EVP_EncodeInit [[1], [2, 3, 4]]] = Some [1, 2, 3, 4]"
proof -
  have "encode_session EVP_EncodeInit [[1], [2, 3, 4]] = encode_lines [1, 2, 3, 4]"
    using encode_session_lines [of "[[1], [2, 3, 4]]" EVP_EncodeInit] by (simp add: EVP_EncodeInit_def)
  then have "length (encode_session EVP_EncodeInit [[1], [2, 3, 4]]) = 9"
    by (simp add: encode_lines.simps Let_def)
  then show ?thesis
    using base64_stream_roundtrip [of "[[1], [2, 3, 4]]" "[encode_session EVP_EncodeInit [[1], [2, 3, 4]]]"]
    by (simp add: INT_MAX_def)
qed

end
