(* ===== verification/Buf.thy ===== *)
theory Buf
  imports Mem
begin

text \<open>
  BoringSSL's growable byte buffer \<open>BUF_MEM\<close> (crypto/buf/buf.c) over the allocator of \<open>Mem\<close>. The
  string functions of that file are \<open>OPENSSL_strdup\<close> and its companions of crypto/mem.c under another
  name.
\<close>

section \<open>The buffer\<close>

record buf_mem =
  blen :: nat
  bdata :: "bytes option"
  bmax :: nat

definition BUF_MEM_new :: "alloc \<Rightarrow> buf_mem option" where
  "BUF_MEM_new am = (case OPENSSL_malloc am 24 of None \<Rightarrow> None
     | Some _ \<Rightarrow> Some \<lparr>blen = 0, bdata = None, bmax = 0\<rparr>)"

definition BUF_MEM_reserve :: "alloc \<Rightarrow> buf_mem \<Rightarrow> nat \<Rightarrow> buf_mem \<times> bool" where
  "BUF_MEM_reserve am b cap =
    (if bmax b \<ge> cap then (b, True)
     else let n = size_add cap 3
       in if n < cap then (b, False)
          else let n = n div 3; alloc_size = size_mul n 4
            in if alloc_size div 4 \<noteq> n then (b, False)
               else case OPENSSL_realloc am (bdata b) alloc_size of
                 None \<Rightarrow> (b, False)
               | Some new_buf \<Rightarrow> (b\<lparr>bdata := Some new_buf, bmax := alloc_size\<rparr>, True))"

text \<open>The memory behind \<open>buf->data\<close>; a null pointer is only ever written with no byte.\<close>

abbreviation block :: "buf_mem \<Rightarrow> bytes" where
  "block b \<equiv> (case bdata b of None \<Rightarrow> [] | Some d \<Rightarrow> d)"

definition poke :: "buf_mem \<Rightarrow> nat \<Rightarrow> bytes \<Rightarrow> buf_mem" where
  "poke b i xs = b\<lparr>bdata := map_option (\<lambda>d. write_at d i xs) (bdata b)\<rparr>"

definition BUF_MEM_grow :: "alloc \<Rightarrow> buf_mem \<Rightarrow> nat \<Rightarrow> buf_mem \<times> nat" where
  "BUF_MEM_grow am b len = (case BUF_MEM_reserve am b len of
     (b, False) \<Rightarrow> (b, 0)
   | (b, True) \<Rightarrow>
       let b = (if blen b < len then poke b (blen b) (replicate (len - blen b) 0) else b)
       in (b\<lparr>blen := len\<rparr>, len))"

definition BUF_MEM_grow_clean :: "alloc \<Rightarrow> buf_mem \<Rightarrow> nat \<Rightarrow> buf_mem \<times> nat" where
  "BUF_MEM_grow_clean am b len = BUF_MEM_grow am b len"

definition BUF_MEM_append :: "alloc \<Rightarrow> buf_mem \<Rightarrow> bytes \<Rightarrow> buf_mem \<times> bool" where
  "BUF_MEM_append am b inp =
    (if length inp = 0 then (b, True)
     else let new_len = size_add (blen b) (length inp)
       in if new_len < length inp then (b, False)
          else case BUF_MEM_reserve am b new_len of
            (b, False) \<Rightarrow> (b, False)
          | (b, True) \<Rightarrow> ((poke b (blen b) inp)\<lparr>blen := new_len\<rparr>, True))"

section \<open>Its invariant\<close>

text \<open>The block has the size the buffer records, and the bytes in use are inside it.\<close>

definition buf_ok :: "buf_mem \<Rightarrow> bool" where
  "buf_ok b \<longleftrightarrow> length (block b) = bmax b \<and> blen b \<le> bmax b"

definition contents :: "buf_mem \<Rightarrow> bytes" where
  "contents b = take (blen b) (block b)"

lemma length_contents: "buf_ok b \<Longrightarrow> length (contents b) = blen b"
  by (simp add: buf_ok_def contents_def)

lemma OPENSSL_realloc_block:
  assumes "OPENSSL_realloc am d n = Some p" "length (case d of None \<Rightarrow> [] | Some d \<Rightarrow> d) \<le> n" "n \<le> SIZE_MAX - 8"
  shows "length p = n \<and> take (length (case d of None \<Rightarrow> [] | Some d \<Rightarrow> d)) p = (case d of None \<Rightarrow> [] | Some d \<Rightarrow> d)"
proof (cases d)
  case None
  then show ?thesis using assms OPENSSL_malloc_length [of am n p] by (simp add: OPENSSL_realloc_def)
next
  case (Some old)
  then show ?thesis using assms OPENSSL_realloc_grow [of am old n p] by simp
qed

text \<open>A reservation keeps the contents; it makes room, or fails and changes nothing, which it does
  only for want of memory.\<close>

lemma BUF_MEM_reserve_ok:
  assumes "buf_ok b" "cap < 2 ^ 62" "BUF_MEM_reserve am b cap = (b', ok)"
  shows "buf_ok b' \<and> contents b' = contents b \<and> blen b' = blen b \<and>
    (if ok then cap \<le> bmax b' else b' = b)" "(\<forall>m. am m \<noteq> None) \<longrightarrow> ok"
proof -
  have "buf_ok b' \<and> contents b' = contents b \<and> blen b' = blen b \<and>
    (if ok then cap \<le> bmax b' else b' = b) \<and> ((\<forall>m. am m \<noteq> None) \<longrightarrow> ok)"
  proof (cases "cap \<le> bmax b")
    case True
    then show ?thesis using assms by (simp add: BUF_MEM_reserve_def)
  next
    case False
    define n where "n = (cap + 3) div 3"
    have n: "n \<le> cap + 3" "cap \<le> n * 3" "n \<le> 2 ^ 61" using assms(2) by (auto simp: n_def)
    have s: "size_add cap 3 = cap + 3" "size_mul n 4 = n * 4" using assms(2) n(3)
      by (simp_all add: size_add_def size_mul_def)
    have r: "BUF_MEM_reserve am b cap = (case OPENSSL_realloc am (bdata b) (n * 4) of
                 None \<Rightarrow> (b, False)
               | Some new_buf \<Rightarrow> (b\<lparr>bdata := Some new_buf, bmax := n * 4\<rparr>, True))"
      using False unfolding BUF_MEM_reserve_def Let_def s n_def [symmetric] by simp
    show ?thesis
    proof (cases "OPENSSL_realloc am (bdata b) (n * 4)")
      case None
      then have "\<exists>m. am m = None" using OPENSSL_realloc_succeeds [of am "bdata b" "n * 4"] by fastforce
      then show ?thesis using None assms by (simp add: r)
    next
      case (Some p)
      have "length (block b) \<le> n * 4" using False assms(1) n(2) by (simp add: buf_ok_def)
      then have p: "length p = n * 4" "take (bmax b) p = block b"
        using OPENSSL_realloc_block [OF Some] n(3) assms(1) by (simp_all add: buf_ok_def)
      have "blen b \<le> bmax b" using assms(1) by (simp add: buf_ok_def)
      then have "take (blen b) p = take (blen b) (block b)" using p(2) by (metis min_def take_take)
      moreover have "bmax b \<le> n * 4" "cap \<le> n * 4" using False n(2) by simp_all
      ultimately show ?thesis using assms p(1) Some
        by (auto simp: r buf_ok_def contents_def)
    qed
  qed
  then show "buf_ok b' \<and> contents b' = contents b \<and> blen b' = blen b \<and>
    (if ok then cap \<le> bmax b' else b' = b)" "(\<forall>m. am m \<noteq> None) \<longrightarrow> ok" by auto
qed

lemma poke_ok:
  assumes "buf_ok b" "blen b + length xs \<le> bmax b"
  shows "buf_ok ((poke b (blen b) xs)\<lparr>blen := blen b + length xs\<rparr>)"
    "contents ((poke b (blen b) xs)\<lparr>blen := blen b + length xs\<rparr>) = contents b @ xs"
  using assms by (auto simp: buf_ok_def contents_def poke_def bytes_simps split: option.splits)

section \<open>The property of the module\<close>

text \<open>C30: \<open>BUF_MEM_append\<close> and \<open>BUF_MEM_grow\<close> implement a byte list: an append that succeeds makes
  the contents longer by the bytes given, a growth cuts the contents or fills them up with zeros; both
  stay inside the block, both leave the buffer as it was when they fail, and neither fails while the
  allocator has memory.\<close>

theorem BUF_MEM_is_a_byte_list:
  assumes "buf_ok b" "blen b + length inp < 2 ^ 62" "len < 2 ^ 62"
  shows "(case BUF_MEM_append am b inp of (b', ok) \<Rightarrow>
       buf_ok b' \<and> contents b' = (if ok then contents b @ inp else contents b) \<and>
       ((\<forall>m. am m \<noteq> None) \<longrightarrow> ok)) \<and>
    (case BUF_MEM_grow am b len of (b', r) \<Rightarrow>
       buf_ok b' \<and>
       ((b' = b \<and> r = 0 \<and> (\<exists>m. am m = None)) \<or>
        (r = len \<and> contents b' = take len (contents b) @ replicate (len - blen b) 0)))"
proof (rule conjI, goal_cases)
  case 1
  obtain b' ok where r: "BUF_MEM_reserve am b (blen b + length inp) = (b', ok)" by fastforce
  note ok = BUF_MEM_reserve_ok [OF assms(1,2) r]
  show ?case
  proof (cases "inp = []")
    case False
    have "size_add (blen b) (length inp) = blen b + length inp"
      using assms(2) by (simp add: size_add_def)
    then show ?thesis using ok poke_ok [of b' inp] False
      by (cases ok) (auto simp: BUF_MEM_append_def r)
  qed (simp add: BUF_MEM_append_def assms)
next
  case 2
  obtain b' ok where r: "BUF_MEM_reserve am b len = (b', ok)" by fastforce
  note ok = BUF_MEM_reserve_ok [OF assms(1,3) r]
  have l: "length (contents b) = blen b" by (rule length_contents [OF assms(1)])
  show ?case
  proof (cases "ok \<and> len \<le> blen b")
    case True
    have "take len (contents x) = take len (block x)" if "len \<le> blen x" for x
      using that by (simp add: contents_def min_def)
    with True ok have "take len (contents b) = take len (block b')" by metis
    then show ?thesis using True ok l
      by (auto simp: BUF_MEM_grow_def r buf_ok_def contents_def)
  next
    case False
    then show ?thesis using ok l poke_ok [of b' "replicate (len - blen b) 0"]
      by (cases ok) (auto simp: BUF_MEM_grow_def r)
  qed
qed

theorem BUF_MEM_is_a_byte_list_witness:
  "BUF_MEM_append (\<lambda>n. Some (\<lambda>_. 7)) \<lparr>blen = 0, bdata = None, bmax = 0\<rparr> [1, 2] =
     (\<lparr>blen = 2, bdata = Some [1, 2, 7, 7], bmax = 4\<rparr>, True) \<and>
   contents \<lparr>blen = 2, bdata = Some [1, 2, 7, 7 :: u8], bmax = 4\<rparr> = [1, 2]"
proof -
  let ?r = "BUF_MEM_append (\<lambda>n. Some (\<lambda>_. 7)) \<lparr>blen = 0, bdata = None, bmax = 0\<rparr> [1, 2]"
  have r: "?r = (\<lparr>blen = 2, bdata = Some [1, 2, 7, 7], bmax = 4\<rparr>, True)"
    by (simp add: BUF_MEM_append_def BUF_MEM_reserve_def OPENSSL_realloc_def OPENSSL_malloc_def
        size_add_def size_mul_def Let_def poke_def write_at_def upt_rec)
  have "buf_ok \<lparr>blen = 0, bdata = None, bmax = 0\<rparr>" by (simp add: buf_ok_def)
  then show ?thesis using BUF_MEM_is_a_byte_list [of "\<lparr>blen = 0, bdata = None, bmax = 0\<rparr>" "[1, 2]" 0 "\<lambda>n. Some (\<lambda>_. 7)"] r
    by (simp add: contents_def)
qed

end
