(* ===== verification/Stack.thy ===== *)
theory Stack
  imports Mem "HOL-Library.Multiset"
begin

text \<open>
  BoringSSL's stack of pointers (crypto/stack/stack.c). A pointer is an \<open>'p option\<close> with None for
  NULL, the array \<open>sdata\<close> has all \<open>num_alloc\<close> slots of which the first \<open>num\<close> are in use. As in the
  code, a comparison function is a function pointer \<open>'f\<close>, compared by identity and called through
  \<open>call_cmp_func\<close>. \<open>qsort\<close> is a parameter. A NULL stack is None.
\<close>

section \<open>The stack\<close>

record ('p, 'f) stack =
  num :: nat
  sdata :: "'p option list"
  sorted_flag :: bool
  num_alloc :: nat
  comp :: "'f option"

text \<open>\<open>OPENSSL_malloc\<close> and \<open>OPENSSL_realloc\<close> of an array of pointers: \<open>am n\<close> is what \<open>malloc(n)\<close> does,
  with the contents of the fresh slots.\<close>

type_synonym 'p palloc = "nat \<Rightarrow> (nat \<Rightarrow> 'p option) option"

definition malloc_ptrs :: "'p palloc \<Rightarrow> nat \<Rightarrow> 'p option list option" where
  "malloc_ptrs am n = map_option (\<lambda>junk. map junk [0..<(size_add n 8 - 8) div 8]) (am (size_add n 8))"

definition realloc_ptrs :: "'p palloc \<Rightarrow> 'p option list \<Rightarrow> nat \<Rightarrow> 'p option list option" where
  "realloc_ptrs am old n = (case malloc_ptrs am n of None \<Rightarrow> None
     | Some ret \<Rightarrow> Some (write_at ret 0 (take (if length old * 8 < n then length old else n div 8) old)))"

definition kMinSize :: nat where "kMinSize = 4"

definition sk_new :: "'p palloc \<Rightarrow> 'f option \<Rightarrow> ('p, 'f) stack option" where
  "sk_new am f = (case am (size_add 40 8) of None \<Rightarrow> None
     | Some _ \<Rightarrow> (case malloc_ptrs am (size_mul 8 kMinSize) of None \<Rightarrow> None
        | Some d \<Rightarrow> Some \<lparr>num = 0, sdata = write_at d 0 (replicate kMinSize None), sorted_flag = False,
             num_alloc = kMinSize, comp = f\<rparr>))"

definition sk_new_null :: "'p palloc \<Rightarrow> ('p, 'f) stack option" where
  "sk_new_null am = sk_new am None"

fun sk_num :: "('p, 'f) stack option \<Rightarrow> nat" where
  "sk_num None = 0"
| "sk_num (Some sk) = num sk"

fun sk_zero :: "('p, 'f) stack option \<Rightarrow> ('p, 'f) stack option" where
  "sk_zero None = None"
| "sk_zero (Some sk) = (if num sk = 0 then Some sk
     else Some (sk\<lparr>sdata := write_at (sdata sk) 0 (replicate (num sk) None), num := 0, sorted_flag := False\<rparr>))"

fun sk_value :: "('p, 'f) stack option \<Rightarrow> nat \<Rightarrow> 'p option" where
  "sk_value None i = None"
| "sk_value (Some sk) i = (if i \<ge> num sk then None else sdata sk ! i)"

fun sk_set :: "('p, 'f) stack option \<Rightarrow> nat \<Rightarrow> 'p option \<Rightarrow> ('p, 'f) stack option \<times> 'p option" where
  "sk_set None i p = (None, None)"
| "sk_set (Some sk) i p = (if i \<ge> num sk then (Some sk, None)
     else (Some (sk\<lparr>sdata := (sdata sk)[i := p]\<rparr>), p))"

text \<open>The pointers handed to the free function, in order.\<close>

fun sk_pop_free_ex :: "('p, 'f) stack option \<Rightarrow> 'p list" where
  "sk_pop_free_ex None = []"
| "sk_pop_free_ex (Some sk) = List.map_filter (\<lambda>i. sdata sk ! i) [0..<num sk]"

definition sk_pop_free :: "('p, 'f) stack option \<Rightarrow> 'p list" where
  "sk_pop_free sk = sk_pop_free_ex sk"

section \<open>Insertion and deletion\<close>

text \<open>The array is made larger when only one free slot is left; None when that is not possible.\<close>

definition sk_make_room :: "'p palloc \<Rightarrow> ('p, 'f) stack \<Rightarrow> ('p, 'f) stack option" where
  "sk_make_room am sk =
    (if num_alloc sk \<le> size_add (num sk) 1 then
       let new_alloc = size_mul (num_alloc sk) 2;
           alloc_size = size_mul new_alloc 8;
           (new_alloc, alloc_size) =
             (if new_alloc < num_alloc sk \<or> alloc_size div 8 \<noteq> new_alloc
              then (size_add (num_alloc sk) 1, size_mul (size_add (num_alloc sk) 1) 8)
              else (new_alloc, alloc_size))
       in if new_alloc < num_alloc sk \<or> alloc_size div 8 \<noteq> new_alloc then None
          else map_option (\<lambda>d. sk\<lparr>sdata := d, num_alloc := new_alloc\<rparr>) (realloc_ptrs am (sdata sk) alloc_size)
     else Some sk)"

fun sk_insert :: "'p palloc \<Rightarrow> ('p, 'f) stack option \<Rightarrow> 'p option \<Rightarrow> nat \<Rightarrow> ('p, 'f) stack option \<times> nat" where
  "sk_insert am None p i = (None, 0)"
| "sk_insert am (Some sk) p i = (case sk_make_room am sk of
     None \<Rightarrow> (Some sk, 0)
   | Some sk \<Rightarrow>
       let d = (if i \<ge> num sk then write_at (sdata sk) (num sk) [p]
                else write_at (write_at (sdata sk) (i + 1) (take (num sk - i) (drop i (sdata sk)))) i [p])
       in (Some (sk\<lparr>sdata := d, num := num sk + 1, sorted_flag := False\<rparr>), num sk + 1))"

fun sk_delete :: "('p, 'f) stack option \<Rightarrow> nat \<Rightarrow> ('p, 'f) stack option \<times> 'p option" where
  "sk_delete None i = (None, None)"
| "sk_delete (Some sk) i = (if i \<ge> num sk then (Some sk, None)
     else let ret = sdata sk ! i;
              d = (if i \<noteq> num sk - 1
                   then write_at (sdata sk) i (take (num sk - i - 1) (drop (i + 1) (sdata sk)))
                   else sdata sk)
          in (Some (sk\<lparr>sdata := d, num := num sk - 1\<rparr>), ret))"

fun sk_delete_ptr :: "('p, 'f) stack option \<Rightarrow> 'p option \<Rightarrow> ('p, 'f) stack option \<times> 'p option" where
  "sk_delete_ptr None p = (None, None)"
| "sk_delete_ptr (Some sk) p = (case find (\<lambda>i. sdata sk ! i = p) [0..<num sk] of
     None \<Rightarrow> (Some sk, None)
   | Some i \<Rightarrow> sk_delete (Some sk) i)"

fun sk_shift :: "('p, 'f) stack option \<Rightarrow> ('p, 'f) stack option \<times> 'p option" where
  "sk_shift None = (None, None)"
| "sk_shift (Some sk) = (if num sk = 0 then (Some sk, None) else sk_delete (Some sk) 0)"

fun sk_push :: "'p palloc \<Rightarrow> ('p, 'f) stack option \<Rightarrow> 'p option \<Rightarrow> ('p, 'f) stack option \<times> nat" where
  "sk_push am sk p = sk_insert am sk p (sk_num sk)"

fun sk_pop :: "('p, 'f) stack option \<Rightarrow> ('p, 'f) stack option \<times> 'p option" where
  "sk_pop None = (None, None)"
| "sk_pop (Some sk) = (if num sk = 0 then (Some sk, None) else sk_delete (Some sk) (num sk - 1))"

section \<open>Searching and sorting\<close>

text \<open>The binary search of \<open>sk_find\<close>; \<open>r i\<close> is what the comparison of the key with element \<open>i\<close> gives.\<close>

function sk_bsearch :: "(nat \<Rightarrow> int) \<Rightarrow> nat \<Rightarrow> nat \<Rightarrow> nat option" where
  "sk_bsearch r lo hi =
    (if lo < hi then
       let mid = lo + (hi - lo - 1) div 2
       in if r mid > 0 then sk_bsearch r (mid + 1) hi
          else if r mid < 0 then sk_bsearch r lo mid
          else if hi - lo = 1 then Some mid
          else sk_bsearch r lo (mid + 1)
     else None)"
  by auto
termination by (relation "measure (\<lambda>(r, lo, hi). hi - lo)") auto

declare sk_bsearch.simps [simp del]

fun sk_is_sorted :: "('p, 'f) stack option \<Rightarrow> bool" where
  "sk_is_sorted None = True"
| "sk_is_sorted (Some sk) = sorted_flag sk"

text \<open>The index that is found, None where the function returns zero.\<close>

fun sk_find :: "('f \<Rightarrow> 'p option \<Rightarrow> 'p option \<Rightarrow> int) \<Rightarrow> ('p, 'f) stack option \<Rightarrow> 'p option \<Rightarrow> nat option" where
  "sk_find call_cmp_func None p = None"
| "sk_find call_cmp_func (Some sk) p = (case comp sk of
     None \<Rightarrow> find (\<lambda>i. sdata sk ! i = p) [0..<num sk]
   | Some f \<Rightarrow>
       if p = None then None
       else if \<not> sk_is_sorted (Some sk) then find (\<lambda>i. call_cmp_func f p (sdata sk ! i) = 0) [0..<num sk]
       else sk_bsearch (\<lambda>i. call_cmp_func f p (sdata sk ! i)) 0 (num sk))"

fun sk_sort :: "('f \<Rightarrow> 'p option \<Rightarrow> 'p option \<Rightarrow> int) \<Rightarrow>
    (('p option \<Rightarrow> 'p option \<Rightarrow> int) \<Rightarrow> 'p option list \<Rightarrow> 'p option list) \<Rightarrow>
    ('p, 'f) stack option \<Rightarrow> ('p, 'f) stack option" where
  "sk_sort call qsort None = None"
| "sk_sort call qsort (Some sk) = (case comp sk of
     None \<Rightarrow> Some sk
   | Some f \<Rightarrow>
       if sorted_flag sk then Some sk
       else let d = (if num sk \<ge> 2 then qsort (call f) (take (num sk) (sdata sk)) @ drop (num sk) (sdata sk)
                     else sdata sk)
            in Some (sk\<lparr>sdata := d, sorted_flag := True\<rparr>))"

definition sk_set_cmp_func :: "('p, 'f) stack \<Rightarrow> 'f option \<Rightarrow> ('p, 'f) stack \<times> 'f option" where
  "sk_set_cmp_func sk f =
    (let old = comp sk; sk = (if comp sk \<noteq> f then sk\<lparr>sorted_flag := False\<rparr> else sk)
     in (sk\<lparr>comp := f\<rparr>, old))"

section \<open>Copying\<close>

fun sk_dup :: "'p palloc \<Rightarrow> ('p, 'f) stack option \<Rightarrow> ('p, 'f) stack option" where
  "sk_dup am None = None"
| "sk_dup am (Some sk) = (case sk_new am (comp sk) of
     None \<Rightarrow> None
   | Some ret \<Rightarrow> (case realloc_ptrs am (sdata ret) (size_mul 8 (num_alloc sk)) of
       None \<Rightarrow> None
     | Some s \<Rightarrow> Some (ret\<lparr>num := num sk, sdata := write_at s 0 (take (num sk) (sdata sk)),
           sorted_flag := sorted_flag sk, num_alloc := num_alloc sk, comp := comp sk\<rparr>)))"

text \<open>The loop of \<open>sk_deep_copy\<close> from index \<open>i\<close> on: the array with the copies, or the copies that are
  freed again because a copy failed.\<close>

function deep_copy_loop :: "('p \<Rightarrow> 'p option) \<Rightarrow> nat \<Rightarrow> nat \<Rightarrow> 'p option list \<Rightarrow> 'p list + 'p option list" where
  "deep_copy_loop copy n i d =
    (if i < n then
       (case d ! i of
          None \<Rightarrow> deep_copy_loop copy n (i + 1) d
        | Some p \<Rightarrow> (case copy p of
            None \<Rightarrow> Inl (List.map_filter (\<lambda>j. d ! j) [0..<i])
          | Some q \<Rightarrow> deep_copy_loop copy n (i + 1) (d[i := Some q])))
     else Inr d)"
  by auto
termination by (relation "measure (\<lambda>(copy, n, i, d). n - i)") auto

declare deep_copy_loop.simps [simp del]

text \<open>The copy, None on failure, and the pointers handed to the free function.\<close>

definition sk_deep_copy :: "'p palloc \<Rightarrow> ('p \<Rightarrow> 'p option) \<Rightarrow> ('p, 'f) stack option \<Rightarrow>
    ('p, 'f) stack option \<times> 'p list" where
  "sk_deep_copy am copy sk = (case sk_dup am sk of
     None \<Rightarrow> (None, [])
   | Some ret \<Rightarrow> (case deep_copy_loop copy (num ret) 0 (sdata ret) of
       Inl freed \<Rightarrow> (None, freed)
     | Inr d \<Rightarrow> (Some (ret\<lparr>sdata := d\<rparr>), [])))"

section \<open>The contract of a comparison function\<close>

lemma sk_bsearch_step:
  assumes "lo < hi" "mid = lo + (hi - lo - 1) div 2"
  shows "sk_bsearch r lo hi = (if r mid > 0 then sk_bsearch r (mid + 1) hi
    else if r mid < 0 then sk_bsearch r lo mid else if hi - lo = 1 then Some mid else sk_bsearch r lo (mid + 1))"
  by (subst sk_bsearch.simps) (simp only: Let_def assms if_True)

definition ordered :: "('a \<Rightarrow> 'a \<Rightarrow> int) \<Rightarrow> 'a list \<Rightarrow> bool" where
  "ordered cmp xs \<longleftrightarrow> sorted_wrt (\<lambda>a b. cmp a b \<le> 0) xs"

locale comparator =
  fixes cmp :: "'a \<Rightarrow> 'a \<Rightarrow> int"
  assumes antisymmetric: "cmp a b < 0 \<longleftrightarrow> 0 < cmp b a"
    and transitive: "cmp a b \<le> 0 \<Longrightarrow> cmp b c \<le> 0 \<Longrightarrow> cmp a c \<le> 0"
begin

text \<open>Along an ordered list the comparison with a key goes from positive over zero to negative.\<close>

lemma reflexive: "cmp a a = 0"
  using antisymmetric [of a a] by linarith

lemma decreasing:
  assumes "cmp a b \<le> 0"
  shows "0 < cmp p b \<Longrightarrow> 0 < cmp p a" "cmp p a < 0 \<Longrightarrow> cmp p b < 0"
proof -
  show "0 < cmp p a" if "0 < cmp p b"
  proof (rule ccontr)
    assume "\<not> 0 < cmp p a"
    then have "cmp p b \<le> 0" using transitive [of p a b] assms by simp
    with that show False by simp
  qed
  show "cmp p b < 0" if "cmp p a < 0"
  proof (rule ccontr)
    assume "\<not> cmp p b < 0"
    then have "cmp b p \<le> 0" using antisymmetric [of p b] by linarith
    then have "cmp a p \<le> 0" using transitive [of a b p] assms by simp
    with that show False using antisymmetric [of p a] by linarith
  qed
qed

lemma ordered_nth: "ordered cmp xs \<Longrightarrow> i \<le> j \<Longrightarrow> j < length xs \<Longrightarrow> cmp (xs ! i) (xs ! j) \<le> 0"
  using reflexive by (cases "i = j") (auto simp: ordered_def sorted_wrt_iff_nth_less)

lemma find_skip: "\<forall>i\<in>set xs. \<not> P i \<Longrightarrow> find P (xs @ ys) = find P ys"
  by (induction xs) auto

lemma find_cut: "\<forall>i\<in>set ys. \<not> P i \<Longrightarrow> find P (xs @ ys) = find P xs"
  by (induction xs) (auto simp: find_None_iff)

lemma find_hit: "P x \<Longrightarrow> x \<in> set xs \<Longrightarrow> find P (xs @ ys) = find P xs"
  by (induction xs) auto

text \<open>The binary search finds what a scan finds.\<close>

lemma sk_bsearch_find:
  assumes "ordered cmp xs" "hi \<le> length xs"
  shows "sk_bsearch (\<lambda>i. cmp p (xs ! i)) lo hi = find (\<lambda>i. cmp p (xs ! i) = 0) [lo..<hi]"
  using assms(2)
proof (induction "\<lambda>i. cmp p (xs ! i)" lo hi rule: sk_bsearch.induct)
  case (1 lo hi)
  show ?case
  proof (cases "lo < hi")
    case True
    define mid where "mid = lo + (hi - lo - 1) div 2"
    have mid: "lo \<le> mid" "mid < hi" using True by (auto simp: mid_def)
    have split: "[lo..<hi] = [lo..<Suc mid] @ [Suc mid..<hi]" "[lo..<hi] = [lo..<mid] @ [mid..<hi]"
      using upt_add_eq_append [of lo "Suc mid" "hi - Suc mid"] upt_add_eq_append [of lo mid "hi - mid"] mid
      by (simp_all del: upt_Suc)
    have le: "cmp (xs ! i) (xs ! j) \<le> 0" if "i \<le> j" "j < hi" for i j
      using ordered_nth [OF assms(1) that(1)] that(2) 1(4) by simp
    consider "cmp p (xs ! mid) > 0" | "cmp p (xs ! mid) < 0" | "cmp p (xs ! mid) = 0" by linarith
    then show ?thesis
    proof cases
      case c: 1
      have "0 < cmp p (xs ! i)" if "i \<le> mid" for i by (rule decreasing(1) [OF le [OF that mid(2)] c])
      then have "\<forall>i\<in>set [lo..<Suc mid]. \<not> cmp p (xs ! i) = 0" by (auto simp: less_Suc_eq_le less_le)
      then have "find (\<lambda>i. cmp p (xs ! i) = 0) [lo..<hi] = find (\<lambda>i. cmp p (xs ! i) = 0) [Suc mid..<hi]"
        unfolding split(1) by (rule find_skip)
      with 1(1) [OF True mid_def c] 1(4) c show ?thesis
        by (simp add: sk_bsearch_step [OF True mid_def])
    next
      case c: 2
      have "cmp p (xs ! i) < 0" if "mid \<le> i" "i < hi" for i by (rule decreasing(2) [OF le [OF that] c])
      then have "\<forall>i\<in>set [mid..<hi]. \<not> cmp p (xs ! i) = 0" by (auto simp: less_le)
      then have "find (\<lambda>i. cmp p (xs ! i) = 0) [lo..<hi] = find (\<lambda>i. cmp p (xs ! i) = 0) [lo..<mid]"
        unfolding split(2) by (rule find_cut)
      with 1(2) [OF True mid_def _ c] 1(4) c True mid show ?thesis
        by (simp add: sk_bsearch_step [OF True mid_def])
    next
      case c: 3
      show ?thesis
      proof (cases "hi - lo = 1")
        case one: True
        then have "hi = Suc lo" "mid = lo" by (auto simp: mid_def)
        with c show ?thesis by (subst sk_bsearch.simps) (simp add: Let_def)
      next
        case False
        have "find (\<lambda>i. cmp p (xs ! i) = 0) [lo..<hi] = find (\<lambda>i. cmp p (xs ! i) = 0) [lo..<Suc mid]"
          unfolding split(1) by (rule find_hit [of _ mid]) (use c mid in auto)
        with 1(3) [OF True mid_def _ _ False] 1(4) c True mid False show ?thesis
          by (simp add: sk_bsearch_step [OF True mid_def])
      qed
    qed
  qed (simp add: sk_bsearch.simps)
qed

end

section \<open>The stack as a list\<close>

definition sk_ok :: "('p, 'f) stack \<Rightarrow> bool" where
  "sk_ok sk \<longleftrightarrow> length (sdata sk) = num_alloc sk \<and> num sk \<le> num_alloc sk \<and> 4 \<le> num_alloc sk"

definition items :: "('p, 'f) stack \<Rightarrow> 'p option list" where
  "items sk = take (num sk) (sdata sk)"

lemma sk_okD:
  "sk_ok sk \<Longrightarrow> length (sdata sk) = num_alloc sk" "sk_ok sk \<Longrightarrow> num sk \<le> num_alloc sk" "sk_ok sk \<Longrightarrow> 4 \<le> num_alloc sk"
  by (simp_all add: sk_ok_def)

lemma length_items: "sk_ok sk \<Longrightarrow> length (items sk) = num sk"
  by (simp add: sk_ok_def items_def)

lemma items_nth: "i < num sk \<Longrightarrow> items sk ! i = sdata sk ! i"
  by (simp add: items_def)

lemma realloc_ptrs_Some:
  assumes "realloc_ptrs am old (n * 8) = Some d" "length old \<le> n" "n < 2 ^ 60"
  shows "length d = n" "take (length old) d = old"
proof -
  obtain ret where r: "malloc_ptrs am (n * 8) = Some ret"
    "d = write_at ret 0 (take (if length old * 8 < n * 8 then length old else n * 8 div 8) old)"
    using assms(1) by (auto simp: realloc_ptrs_def split: option.splits)
  then have "length ret = n" using assms(3) by (auto simp: malloc_ptrs_def size_add_def)
  then show "length d = n" "take (length old) d = old" using r(2) assms(2)
    by (auto simp: write_at_def)
qed

lemma realloc_ptrs_None: "realloc_ptrs am old n = None \<Longrightarrow> \<exists>m. am m = None"
  by (auto simp: realloc_ptrs_def malloc_ptrs_def split: option.splits)

lemma sk_make_room_ok:
  assumes "sk_ok sk" "num_alloc sk < 2 ^ 58"
  shows "(case sk_make_room am sk of None \<Rightarrow> \<exists>m. am m = None
    | Some sk' \<Rightarrow> sk_ok sk' \<and> items sk' = items sk \<and> num sk' = num sk \<and> comp sk' = comp sk \<and>
        num sk' + 1 \<le> num_alloc sk')"
proof -
  note ok = sk_okD [OF assms(1)]
  have s: "size_add (num sk) 1 = num sk + 1" "size_mul (num_alloc sk) 2 = num_alloc sk * 2"
    "size_mul (num_alloc sk * 2) 8 = num_alloc sk * 2 * 8"
    using assms(2) ok(2) by (simp_all add: size_add_def size_mul_def)
  show ?thesis
  proof (cases "num_alloc sk \<le> num sk + 1")
    case False
    then show ?thesis using assms(1) unfolding sk_make_room_def s by simp
  next
    case True
    then have r: "sk_make_room am sk = map_option (\<lambda>d. sk\<lparr>sdata := d, num_alloc := num_alloc sk * 2\<rparr>)
        (realloc_ptrs am (sdata sk) (num_alloc sk * 2 * 8))"
      unfolding sk_make_room_def Let_def s by simp
    show ?thesis
    proof (cases "realloc_ptrs am (sdata sk) (num_alloc sk * 2 * 8)")
      case None
      then show ?thesis using realloc_ptrs_None [OF None] by (simp add: r)
    next
      case (Some d)
      have d: "length d = num_alloc sk * 2" "take (num_alloc sk) d = sdata sk"
        using realloc_ptrs_Some [OF Some] ok assms(2) by simp_all
      have "take (num sk) d = take (num sk) (sdata sk)"
        using d(2) ok(2) by (metis min_def take_take)
      then show ?thesis using ok d(1) unfolding r Some by (auto simp: sk_ok_def items_def)
    qed
  qed
qed

lemma write_at_sub: "i + length ys \<le> length xs \<Longrightarrow> n \<le> length xs \<Longrightarrow> i + length ys \<le> n \<Longrightarrow>
    take n (write_at xs i ys) = take i xs @ ys @ take (n - (i + length ys)) (drop (i + length ys) xs)"
  by (simp add: write_at_def)

lemma sk_insert_items:
  assumes "sk_ok sk" "num_alloc sk < 2 ^ 58"
  obtains "sk_insert am (Some sk) p i = (Some sk, 0)" "\<exists>m. am m = None"
    | sk' where "sk_insert am (Some sk) p i = (Some sk', length (items sk'))" "sk_ok sk'"
      "items sk' = take i (items sk) @ p # drop i (items sk)" "comp sk' = comp sk" "\<not> sorted_flag sk'"
proof (cases "sk_make_room am sk")
  case None
  then show ?thesis using sk_make_room_ok [OF assms, of am] that(1) by simp
next
  case (Some s)
  with sk_make_room_ok [OF assms, of am] have s: "sk_ok s" "items s = items sk" "num s = num sk"
    "comp s = comp sk" "num s + 1 \<le> num_alloc s" by simp_all
  note ok = sk_okD [OF s(1)]
  define d where "d = (if i \<ge> num s then write_at (sdata s) (num s) [p]
     else write_at (write_at (sdata s) (i + 1) (take (num s - i) (drop i (sdata s)))) i [p])"
  have r: "sk_insert am (Some sk) p i = (Some (s\<lparr>sdata := d, num := num s + 1, sorted_flag := False\<rparr>), num s + 1)"
    by (simp add: Some d_def)
  have len: "length d = length (sdata s)" using s(5) ok by (auto simp: d_def bytes_simps)
  have t: "take (num s + 1) d = take i (items s) @ p # drop i (items s)"
  proof (cases "i \<ge> num s")
    case True
    then show ?thesis using s(5) ok by (simp add: d_def items_def write_at_def)
  next
    case False
    then show ?thesis using s(5) ok
      by (simp add: d_def items_def write_at_def min_def Suc_diff_le drop_take)
  qed
  show ?thesis
  proof (rule that(2))
    show "sk_ok (s\<lparr>sdata := d, num := num s + 1, sorted_flag := False\<rparr>)"
      using ok s(5) len by (simp add: sk_ok_def)
    then show "sk_insert am (Some sk) p i = (Some (s\<lparr>sdata := d, num := num s + 1, sorted_flag := False\<rparr>),
        length (items (s\<lparr>sdata := d, num := num s + 1, sorted_flag := False\<rparr>)))"
      unfolding r by (simp add: length_items)
    show "items (s\<lparr>sdata := d, num := num s + 1, sorted_flag := False\<rparr>) = take i (items sk) @ p # drop i (items sk)"
      unfolding s(2) [symmetric] using t by (simp add: items_def)
  qed (use s in simp_all)
qed

lemma sk_delete_items:
  assumes "sk_ok sk"
  obtains sk' where "sk_delete (Some sk) i = (Some sk', if i < length (items sk) then items sk ! i else None)"
    "sk_ok sk'" "items sk' = take i (items sk) @ drop (Suc i) (items sk)" "comp sk' = comp sk"
    "sorted_flag sk' = sorted_flag sk"
proof (cases "i < num sk")
  case False
  then show ?thesis using assms by (intro that [of sk]) (simp_all add: length_items)
next
  case True
  note ok = sk_okD [OF assms]
  define d where "d = (if i \<noteq> num sk - 1 then write_at (sdata sk) i (take (num sk - i - 1) (drop (i + 1) (sdata sk)))
    else sdata sk)"
  have "take (num sk - 1) d = take i (items sk) @ drop (Suc i) (items sk)"
    using True ok by (auto simp: d_def items_def write_at_def drop_take min_def Suc_diff_Suc)
  moreover have "length d = length (sdata sk)" using True ok by (auto simp: d_def bytes_simps)
  moreover have "sk_delete (Some sk) i = (Some (sk\<lparr>sdata := d, num := num sk - 1\<rparr>), items sk ! i)"
    using True by (simp add: d_def Let_def items_nth)
  ultimately show ?thesis using True ok assms
    by (intro that [of "sk\<lparr>sdata := d, num := num sk - 1\<rparr>"]) (simp_all add: sk_ok_def items_def)
qed

lemma sk_bsearch_cong:
  assumes "\<And>i. i < n \<Longrightarrow> r i = r' i" "hi \<le> n"
  shows "sk_bsearch r lo hi = sk_bsearch r' lo hi"
  using assms
proof (induction r lo hi rule: sk_bsearch.induct)
  case (1 r lo hi)
  show ?case
  proof (cases "lo < hi")
    case True
    define mid where "mid = lo + (hi - lo - 1) div 2"
    have mid: "mid < hi" using True by (auto simp: mid_def)
    then have "r mid = r' mid" using 1(4,5) by simp
    then show ?thesis
      using mid 1(1-3) [OF True mid_def] 1(4,5) unfolding sk_bsearch_step [OF True mid_def] by simp
  qed (simp add: sk_bsearch.simps)
qed

lemma map_filter_map: "List.map_filter f (map g xs) = List.map_filter (\<lambda>x. f (g x)) xs"
  by (induction xs) (simp_all add: map_filter_simps split: option.split)

lemma find_index_None: "find (\<lambda>i. P (xs ! i)) [0..<length xs] = None \<longleftrightarrow> (\<forall>x\<in>set xs. \<not> P x)"
  unfolding find_None_iff all_set_conv_all_nth by auto

lemma find_index_items:
  "sk_ok sk \<Longrightarrow> find (\<lambda>i. sdata sk ! i = p) [0..<num sk] = find (\<lambda>i. items sk ! i = p) [0..<length (items sk)]"
  by (rule find_cong) (simp_all add: length_items items_nth)

lemma remove1_find:
  "find (\<lambda>i. xs ! i = p) [0..<length xs] = None \<Longrightarrow> p \<notin> set xs"
  "find (\<lambda>i. xs ! i = p) [0..<length xs] = Some i \<Longrightarrow> i < length xs \<and> xs ! i = p \<and> remove1 p xs = take i xs @ drop (Suc i) xs"
proof -
  show "find (\<lambda>i. xs ! i = p) [0..<length xs] = None \<Longrightarrow> p \<notin> set xs"
    by (auto simp: find_None_iff in_set_conv_nth)
  assume "find (\<lambda>i. xs ! i = p) [0..<length xs] = Some i"
  then have i: "i < length xs" "xs ! i = p" "\<forall>j < i. xs ! j \<noteq> p" by (auto simp: find_Some_iff)
  then have "p \<notin> set (take i xs)" by (auto simp: in_set_conv_nth)
  moreover have "xs = take i xs @ p # drop (Suc i) xs" using i by (metis id_take_nth_drop)
  ultimately have "remove1 p xs = take i xs @ drop (Suc i) xs" by (metis remove1.simps(2) remove1_append)
  with i show "i < length xs \<and> xs ! i = p \<and> remove1 p xs = take i xs @ drop (Suc i) xs" by simp
qed

section \<open>The order\<close>

text \<open>What the flag promises.\<close>

definition flag_true :: "('f \<Rightarrow> 'p option \<Rightarrow> 'p option \<Rightarrow> int) \<Rightarrow> ('p, 'f) stack \<Rightarrow> bool" where
  "flag_true call sk \<longleftrightarrow> (sorted_flag sk \<longrightarrow> (\<forall>f. comp sk = Some f \<longrightarrow> ordered (call f) (items sk)))"


text \<open>The contract of \<open>qsort\<close> for the comparison functions it is called with.\<close>

definition qsort_sorts :: "(('a \<Rightarrow> 'a \<Rightarrow> int) \<Rightarrow> 'a list \<Rightarrow> 'a list) \<Rightarrow> ('a \<Rightarrow> 'a \<Rightarrow> int) \<Rightarrow> bool" where
  "qsort_sorts qsort cmp \<longleftrightarrow> (\<forall>xs. mset (qsort cmp xs) = mset xs \<and> ordered cmp (qsort cmp xs))"

lemma ordered_delete:
  assumes "ordered cmp xs"
  shows "ordered cmp (take i xs @ drop (Suc i) xs)"
proof (cases "i < length xs")
  case True
  then have "ordered cmp (take i xs @ xs ! i # drop (Suc i) xs)" using assms by (simp flip: id_take_nth_drop)
  then show ?thesis by (auto simp: ordered_def sorted_wrt_append)
qed (use assms in simp)

lemma sk_sort_items:
  assumes "sk_ok sk" "comp sk = Some f" "\<not> sorted_flag sk" "qsort_sorts qsort (call f)"
  obtains sk' where "sk_sort call qsort (Some sk) = Some sk'" "sk_ok sk'" "mset (items sk') = mset (items sk)"
    "ordered (call f) (items sk')" "sorted_flag sk'" "comp sk' = comp sk"
proof -
  note ok = sk_okD [OF assms(1)]
  define d where "d = (if num sk \<ge> 2 then qsort (call f) (take (num sk) (sdata sk)) @ drop (num sk) (sdata sk) else sdata sk)"
  have q: "mset (qsort (call f) xs) = mset xs" "ordered (call f) (qsort (call f) xs)" for xs
    using assms(4) by (simp_all add: qsort_sorts_def)
  have l: "length (qsort (call f) xs) = length xs" for xs using q(1) mset_eq_length by blast
  have "sk_sort call qsort (Some sk) = Some (sk\<lparr>sdata := d, sorted_flag := True\<rparr>)"
    using assms(2,3) by (simp add: d_def)
  moreover have "mset (take (num sk) d) = mset (items sk)" using ok by (simp add: d_def items_def q l)
  moreover have "ordered (call f) (take (num sk) d)"
  proof (cases "num sk \<ge> 2")
    case False
    then have "length (take (num sk) d) < 2" by simp
    then show ?thesis by (auto simp: ordered_def sorted_wrt_iff_nth_less)
  qed (use ok in \<open>simp add: d_def q l\<close>)
  moreover have "length d = length (sdata sk)" using ok by (simp add: d_def l)
  ultimately show ?thesis using ok assms(1,2)
    by (intro that [of "sk\<lparr>sdata := d, sorted_flag := True\<rparr>"]) (simp_all add: sk_ok_def items_def)
qed

lemma items_of_prefix: "length xs = num sk \<Longrightarrow> items (sk\<lparr>sdata := xs @ ys\<rparr>) = xs"
  by (simp add: items_def)

lemma sk_new_ok: "sk_new am f = Some sk \<Longrightarrow> sk_ok sk \<and> items sk = [] \<and> comp sk = f \<and> num_alloc sk = 4"
  by (auto simp: sk_new_def kMinSize_def malloc_ptrs_def size_add_def size_mul_def sk_ok_def items_def write_at_def
      split: option.splits)

lemma sk_dup_ok:
  assumes "sk_ok sk" "num_alloc sk < 2 ^ 58" "sk_dup am (Some sk) = Some sk'"
  shows "sk_ok sk' \<and> items sk' = items sk \<and> comp sk' = comp sk \<and> sorted_flag sk' = sorted_flag sk"
proof -
  note ok = sk_okD [OF assms(1)]
  obtain ret s where r: "sk_new am (comp sk) = Some ret" "realloc_ptrs am (sdata ret) (size_mul 8 (num_alloc sk)) = Some s"
    "sk' = ret\<lparr>num := num sk, sdata := write_at s 0 (take (num sk) (sdata sk)),
         sorted_flag := sorted_flag sk, num_alloc := num_alloc sk, comp := comp sk\<rparr>"
    using assms(3) by (auto split: option.splits)
  have m: "size_mul 8 (num_alloc sk) = num_alloc sk * 8" using assms(2) by (simp add: size_mul_def)
  have "length (sdata ret) \<le> num_alloc sk" using sk_new_ok [OF r(1)] ok(3) by (auto simp: sk_ok_def)
  then have "length s = num_alloc sk" using realloc_ptrs_Some(1) [OF r(2) [unfolded m]] assms(2) by simp
  then show ?thesis using ok by (simp add: r(3) sk_ok_def items_def write_at_def)
qed

section \<open>The properties of the module\<close>

text \<open>C31: on a stack whose flag is true and whose comparison function is an order, the binary search
  of \<open>sk_find\<close> returns the index a scan from the front returns, the first match of several, and it
  finds nothing only when nothing matches; so sorting does not change which elements are found.\<close>

theorem sk_find_binary_is_scan:
  assumes "sk_ok sk" "comp sk = Some f" "comparator (call f)" "flag_true call sk"
  shows "sk_find call (Some sk) p =
      (if p = None then None else find (\<lambda>i. call f p (items sk ! i) = 0) [0..<length (items sk)]) \<and>
    (qsort_sorts qsort (call f) \<longrightarrow>
      (sk_find call (sk_sort call qsort (Some sk)) p = None \<longleftrightarrow> sk_find call (Some sk) p = None))"
proof -
  have f: "sk_find call (Some s) p =
      (if p = None then None else find (\<lambda>i. call f p (items s ! i) = 0) [0..<length (items s)])"
    if s: "sk_ok s" "comp s = Some f" "flag_true call s" for s
  proof (cases "sorted_flag s")
    case True
    then have o: "ordered (call f) (items s)" using s by (simp add: flag_true_def)
    have "sk_bsearch (\<lambda>i. call f p (items s ! i)) 0 (length (items s)) =
        find (\<lambda>i. call f p (items s ! i) = 0) [0..<length (items s)]"
      by (rule comparator.sk_bsearch_find [OF assms(3) o]) simp
    moreover have "sk_bsearch (\<lambda>i. call f p (sdata s ! i)) 0 (num s) = sk_bsearch (\<lambda>i. call f p (items s ! i)) 0 (num s)"
      using sk_bsearch_cong [of "num s" "\<lambda>i. call f p (sdata s ! i)" "\<lambda>i. call f p (items s ! i)"]
      by (simp add: items_nth)
    ultimately show ?thesis using s True by (simp add: length_items)
  next
    case False
    have "find (\<lambda>i. call f p (sdata s ! i) = 0) [0..<num s] = find (\<lambda>i. call f p (items s ! i) = 0) [0..<length (items s)]"
      using s by (intro find_cong) (simp_all add: length_items items_nth)
    with False s show ?thesis by simp
  qed
  have "sk_find call (sk_sort call qsort (Some sk)) p = None \<longleftrightarrow> sk_find call (Some sk) p = None"
    if q: "qsort_sorts qsort (call f)"
  proof (cases "sorted_flag sk")
    case True
    then show ?thesis using assms(2) by simp
  next
    case False
    obtain sk' where s: "sk_sort call qsort (Some sk) = Some sk'" "sk_ok sk'" "mset (items sk') = mset (items sk)"
      "ordered (call f) (items sk')" "sorted_flag sk'" "comp sk' = comp sk"
      by (rule sk_sort_items [of sk f qsort call, OF assms(1,2) False q])
    have "flag_true call sk'" using s assms(2) by (simp add: flag_true_def)
    moreover have "set (items sk') = set (items sk)" using s(3) mset_eq_setD by blast
    ultimately show ?thesis using f [of sk'] f [of sk] s(1,2,6) assms
        find_index_None [of "\<lambda>x. call f p x = 0" "items sk'"] find_index_None [of "\<lambda>x. call f p x = 0" "items sk"]
      by (simp del: sk_find.simps sk_sort.simps)
  qed
  with f [OF assms(1,2,4)] show ?thesis by blast
qed


text \<open>C32: the stack implements a list. Every operation keeps the stack well formed and has the
  effect on \<open>items\<close> its name says, at every index, in range or not; an insertion fails, and then
  changes nothing, only when the allocator has no memory.\<close>

theorem stack_is_a_list:
  assumes "sk_ok sk" "num_alloc sk < 2 ^ 58"
  shows "(\<exists>sk' n. sk_insert am (Some sk) p i = (Some sk', n) \<and> sk_ok sk' \<and>
      (if n = 0 then sk' = sk \<and> (\<exists>m. am m = None)
       else items sk' = take i (items sk) @ p # drop i (items sk) \<and> n = length (items sk'))) \<and>
    (\<exists>sk' n. sk_push am (Some sk) p = (Some sk', n) \<and> sk_ok sk' \<and>
      items sk' = (if n = 0 then items sk else items sk @ [p])) \<and>
    (\<exists>sk'. sk_delete (Some sk) i = (Some sk', if i < length (items sk) then items sk ! i else None) \<and> sk_ok sk' \<and>
      items sk' = take i (items sk) @ drop (Suc i) (items sk)) \<and>
    (\<exists>sk'. sk_delete_ptr (Some sk) p = (Some sk', if p \<in> set (items sk) then p else None) \<and> sk_ok sk' \<and>
      items sk' = remove1 p (items sk)) \<and>
    (\<exists>sk'. sk_pop (Some sk) = (Some sk', if items sk = [] then None else last (items sk)) \<and> sk_ok sk' \<and>
      items sk' = butlast (items sk)) \<and>
    (\<exists>sk'. sk_shift (Some sk) = (Some sk', if items sk = [] then None else hd (items sk)) \<and> sk_ok sk' \<and>
      items sk' = tl (items sk)) \<and>
    (\<exists>sk'. sk_set (Some sk) i p = (Some sk', if i < length (items sk) then p else None) \<and> sk_ok sk' \<and>
      items sk' = (items sk)[i := p]) \<and>
    sk_value (Some sk) i = (if i < length (items sk) then items sk ! i else None) \<and>
    (\<exists>sk'. sk_zero (Some sk) = Some sk' \<and> sk_ok sk' \<and> items sk' = []) \<and>
    sk_num (Some sk) = length (items sk) \<and>
    sk_pop_free (Some sk) = List.map_filter id (items sk)"
proof -
  note ok = sk_okD [OF assms(1)]
  note li = length_items [OF assms(1)]
  have insert: "\<exists>sk' n. sk_insert am (Some sk) p i = (Some sk', n) \<and> sk_ok sk' \<and>
      (if n = 0 then sk' = sk \<and> (\<exists>m. am m = None)
       else items sk' = take i (items sk) @ p # drop i (items sk) \<and> n = length (items sk'))" for i
    by (rule sk_insert_items [OF assms, of am p i]) (use assms in \<open>auto simp del: sk_insert.simps\<close>)
  have delete: "\<exists>sk'. sk_delete (Some sk) i = (Some sk', if i < length (items sk) then items sk ! i else None) \<and> sk_ok sk' \<and>
      items sk' = take i (items sk) @ drop (Suc i) (items sk)" for i
    by (rule sk_delete_items [OF assms(1), of i]) blast
  have push: "\<exists>sk' n. sk_push am (Some sk) p = (Some sk', n) \<and> sk_ok sk' \<and>
      items sk' = (if n = 0 then items sk else items sk @ [p])"
  proof -
    obtain sk' n where "sk_insert am (Some sk) p (num sk) = (Some sk', n)" "sk_ok sk'"
      "if n = 0 then sk' = sk else items sk' = take (num sk) (items sk) @ p # drop (num sk) (items sk)"
      using insert [of "num sk"] by (metis (full_types))
    then show ?thesis using li by (intro exI [of _ sk'] exI [of _ n]) (auto simp del: sk_insert.simps)
  qed
  have delete_ptr: "\<exists>sk'. sk_delete_ptr (Some sk) p = (Some sk', if p \<in> set (items sk) then p else None) \<and> sk_ok sk' \<and>
      items sk' = remove1 p (items sk)"
  proof (cases "find (\<lambda>i. items sk ! i = p) [0..<length (items sk)]")
    case None
    then show ?thesis using remove1_find(1) [OF None] assms(1)
      by (simp add: find_index_items remove1_idem)
  next
    case (Some j)
    then show ?thesis using remove1_find(2) [OF Some] delete [of j] assms(1)
      by (auto simp: find_index_items in_set_conv_nth simp del: sk_delete.simps)
  qed
  have pop: "\<exists>sk'. sk_pop (Some sk) = (Some sk', if items sk = [] then None else last (items sk)) \<and> sk_ok sk' \<and>
      items sk' = butlast (items sk)"
    using delete [of "num sk - 1"] li assms(1)
    by (cases "num sk = 0") (auto simp: last_conv_nth butlast_conv_take simp del: sk_delete.simps)
  have shift: "\<exists>sk'. sk_shift (Some sk) = (Some sk', if items sk = [] then None else hd (items sk)) \<and> sk_ok sk' \<and>
      items sk' = tl (items sk)"
    using delete [of 0] li assms(1)
    by (cases "num sk = 0") (auto simp: hd_conv_nth drop_Suc simp del: sk_delete.simps)
  have set: "\<exists>sk'. sk_set (Some sk) i p = (Some sk', if i < length (items sk) then p else None) \<and> sk_ok sk' \<and>
      items sk' = (items sk)[i := p]"
    using ok li assms(1) by (auto simp: sk_ok_def items_def take_update_swap list_update_beyond)
  have zero: "\<exists>sk'. sk_zero (Some sk) = Some sk' \<and> sk_ok sk' \<and> items sk' = []"
    using ok li assms(1) by (auto simp: sk_ok_def items_def bytes_simps)
  have free: "sk_pop_free (Some sk) = List.map_filter id (items sk)"
  proof -
    have "items sk = map (\<lambda>i. sdata sk ! i) [0..<num sk]"
      using ok by (intro nth_equalityI) (simp_all add: items_def)
    then show ?thesis by (simp add: sk_pop_free_def map_filter_map)
  qed
  show ?thesis using insert delete push delete_ptr pop shift set zero free li items_nth [of i sk] by simp
qed


text \<open>A small comparison function for the concrete stacks below.\<close>

abbreviation by_key :: "unit \<Rightarrow> nat option \<Rightarrow> nat option \<Rightarrow> int" where
  "by_key f a b \<equiv> int (case a of None \<Rightarrow> 0 | Some n \<Rightarrow> n) - int (case b of None \<Rightarrow> 0 | Some n \<Rightarrow> n)"

lemma comparator_by_key: "comparator (by_key f)"
  by unfold_locales auto

theorem sk_find_binary_is_scan_witness:
  "sk_find by_key (Some \<lparr>num = 3, sdata = [Some 1, Some 2, Some 2, None], sorted_flag = True, num_alloc = 4, comp = Some ()\<rparr>)
     (Some 2) = Some 1"
  using sk_find_binary_is_scan [of "\<lparr>num = 3, sdata = [Some 1, Some 2, Some 2, None], sorted_flag = True,
      num_alloc = 4, comp = Some ()\<rparr>" "()" by_key "Some 2", OF _ _ comparator_by_key]
  by (simp add: sk_ok_def flag_true_def items_def ordered_def upt_rec del: sk_find.simps)

theorem stack_is_a_list_witness:
  "let sk = \<lparr>num = 2, sdata = [Some 1, Some (2 :: nat), None, None], sorted_flag = False, num_alloc = 4, comp = (None :: unit option)\<rparr>
   in \<exists>sk' n. sk_insert (\<lambda>n. None) (Some sk) (Some 7) 1 = (Some sk', n) \<and> items sk' = [Some 1, Some 7, Some 2] \<and>
     items sk = [Some 1, Some 2]"
proof -
  let ?sk = "\<lparr>num = 2, sdata = [Some 1, Some (2 :: nat), None, None], sorted_flag = False, num_alloc = 4, comp = (None :: unit option)\<rparr>"
  have "\<exists>sk' n. sk_insert (\<lambda>n. None) (Some ?sk) (Some 7) 1 = (Some sk', n) \<and> sk_ok sk' \<and>
      (if n = 0 then sk' = ?sk \<and> (\<exists>m. (\<lambda>n :: nat. None :: (nat \<Rightarrow> nat option) option) m = None)
       else items sk' = take 1 (items ?sk) @ Some 7 # drop 1 (items ?sk) \<and> n = length (items sk'))"
    using stack_is_a_list [of ?sk "\<lambda>n. None" "Some 7" 1] by (simp add: sk_ok_def del: sk_insert.simps)
  then show ?thesis
    by (simp add: sk_make_room_def size_add_def items_def Let_def write_at_def)
qed

text \<open>The element 5 is in the array, and the search does not find it.\<close>

lemma sk_set_leaves_stale_flag:
  "let sk = \<lparr>num = 3, sdata = [Some 1, Some 2, Some 3, None], sorted_flag = True, num_alloc = 4, comp = Some ()\<rparr>;
       (sk', _) = sk_set (Some sk) 0 (Some 5)
   in flag_true by_key sk \<and> sk_value sk' 0 = Some 5 \<and> sk_is_sorted sk' \<and> sk_find by_key sk' (Some 5) = None"
  by (simp add: sk_bsearch.simps flag_true_def items_def ordered_def)

text \<open>C33: the flag stays true. Insertion, deletion, clearing, a change of the comparison function,
  copying and sorting never leave a set flag on an array that is out of order, and sorting sets it on
  a permutation of the elements. \<open>sk_set\<close> is the exception: it overwrites an element under a set flag,
  after which a search can miss an element that is there.\<close>

theorem sorted_flag_is_true:
  assumes "sk_ok sk" "num_alloc sk < 2 ^ 58" "flag_true call sk"
  shows "(\<forall>sk' n. sk_insert am (Some sk) p i = (Some sk', n) \<longrightarrow> flag_true call sk') \<and>
    (\<forall>sk' q. sk_delete (Some sk) i = (Some sk', q) \<longrightarrow> flag_true call sk') \<and>
    (\<forall>sk'. sk_zero (Some sk) = Some sk' \<longrightarrow> flag_true call sk') \<and>
    (\<forall>f. flag_true call (fst (sk_set_cmp_func sk f))) \<and>
    (\<forall>sk'. sk_dup am (Some sk) = Some sk' \<longrightarrow> flag_true call sk' \<and> items sk' = items sk) \<and>
    ((\<forall>f. comp sk = Some f \<longrightarrow> qsort_sorts qsort (call f)) \<longrightarrow>
       (\<exists>sk'. sk_sort call qsort (Some sk) = Some sk' \<and> flag_true call sk' \<and>
          mset (items sk') = mset (items sk) \<and> (comp sk \<noteq> None \<longrightarrow> sorted_flag sk'))) \<and>
    (let sk = \<lparr>num = 3, sdata = [Some 1, Some 2, Some 3, None], sorted_flag = True, num_alloc = 4, comp = Some ()\<rparr>;
         (sk', _) = sk_set (Some sk) 0 (Some 5)
     in flag_true by_key sk \<and> sk_value sk' 0 = Some 5 \<and> sk_is_sorted sk' \<and> sk_find by_key sk' (Some 5) = None)"
proof -
  have dup: "flag_true call sk' \<and> items sk' = items sk" if "sk_dup am (Some sk) = Some sk'" for sk'
    using sk_dup_ok [OF assms(1,2) that] assms(3) by (simp add: flag_true_def)
  show ?thesis
proof (intro conjI allI impI, goal_cases)
  case (1 sk' n)
  then show ?case
    by (rule_tac sk_insert_items [OF assms(1,2), of am p i]) (use assms(3) in \<open>auto simp: flag_true_def simp del: sk_insert.simps\<close>)
next
  case (2 sk' q)
  then show ?case
    by (rule_tac sk_delete_items [OF assms(1), of i])
       (use assms(3) in \<open>auto simp: flag_true_def ordered_delete simp del: sk_delete.simps\<close>)
next
  case (3 sk')
  then show ?case using assms by (auto simp: flag_true_def split: if_splits)
next
  case (4 f)
  then show ?case using assms(3) by (auto simp: sk_set_cmp_func_def flag_true_def items_def Let_def)
next
  case (5 sk')
  then show ?case using dup by blast
next
  case (6 sk')
  then show ?case using dup by blast
next
  case 7
  show ?case
  proof (cases "comp sk")
    case None
    then show ?thesis using assms(3) by simp
  next
    case (Some f)
    show ?thesis
    proof (cases "sorted_flag sk")
      case True
      then show ?thesis using Some assms(3) by simp
    next
      case False
      have "qsort_sorts qsort (call f)" using 7 Some by simp
      from sk_sort_items [of sk f qsort call, OF assms(1) Some False this] show ?thesis
        using Some by (metis flag_true_def option.inject)
    qed
  qed
next
  case 8
  show ?case by (rule sk_set_leaves_stale_flag)
qed
qed

theorem sorted_flag_is_true_witness:
  "let sk = \<lparr>num = 2, sdata = [Some 2, Some (1 :: nat), None, None], sorted_flag = False, num_alloc = 4, comp = Some ()\<rparr>
   in \<exists>sk'. sk_sort by_key (\<lambda>cmp. sort_key (\<lambda>p. case p of None \<Rightarrow> 0 | Some n \<Rightarrow> n)) (Some sk) = Some sk' \<and>
     flag_true by_key sk' \<and> sorted_flag sk'"
proof -
  let ?sk = "\<lparr>num = 2, sdata = [Some 2, Some (1 :: nat), None, None], sorted_flag = False, num_alloc = 4, comp = Some ()\<rparr>"
  let ?key = "\<lambda>p :: nat option. case p of None \<Rightarrow> 0 | Some n \<Rightarrow> n"
  have "qsort_sorts (\<lambda>cmp. sort_key ?key) (by_key f)" for f :: unit
    unfolding qsort_sorts_def ordered_def
  proof (intro allI conjI)
    fix xs
    have "sorted (map ?key (sort_key ?key xs))" by simp
    then show "sorted_wrt (\<lambda>a b. by_key f a b \<le> 0) (sort_key ?key xs)"
      by (simp add: sorted_wrt_map)
  qed simp
  then have q: "\<forall>f. comp ?sk = Some f \<longrightarrow> qsort_sorts (\<lambda>cmp. sort_key ?key) (by_key f)" by blast
  have h: "sk_ok ?sk" "num_alloc ?sk < 2 ^ 58" "flag_true by_key ?sk" by (simp_all add: sk_ok_def flag_true_def)
  have "comp ?sk \<noteq> None" by simp
  then show ?thesis
    using sorted_flag_is_true [OF h, of "\<lambda>_. None" None 0 "\<lambda>cmp. sort_key ?key", THEN conjunct2, THEN conjunct2,
      THEN conjunct2, THEN conjunct2, THEN conjunct2, THEN conjunct1, THEN mp, OF q] unfolding Let_def by blast
qed

lemma deep_copy_loop_result:
  assumes "i \<le> length src" "d = map (\<lambda>p. Option.bind p copy) (take i src) @ drop i src @ junk"
  shows "deep_copy_loop copy (length src) i d =
    (case find (\<lambda>j. \<exists>p. src ! j = Some p \<and> copy p = None) [i..<length src] of
       None \<Rightarrow> Inr (map (\<lambda>p. Option.bind p copy) src @ junk)
     | Some j \<Rightarrow> Inl (List.map_filter (\<lambda>p. Option.bind p copy) (take j src)))"
  using assms
proof (induction copy "length src" i d rule: deep_copy_loop.induct)
  case (1 copy i d)
  let ?C = "\<lambda>p. Option.bind p copy"
  show ?case
  proof (cases "i < length src")
    case False
    then show ?thesis using 1(3,4) by (subst deep_copy_loop.simps) simp
  next
    case True
    have t: "take (i + 1) src = take i src @ [src ! i]" "drop i src = src ! i # drop (i + 1) src"
      using True by (simp_all add: take_Suc_conv_app_nth Cons_nth_drop_Suc)
    have di: "d ! i = src ! i" using True t(2) by (simp add: 1(4) nth_append)
    have u: "[i..<length src] = i # [i + 1..<length src]" using True by (simp add: upt_conv_Cons)
    show ?thesis
    proof (cases "src ! i")
      case None
      then have "d = map ?C (take (i + 1) src) @ drop (i + 1) src @ junk"
        unfolding 1(4) t by simp
      then show ?thesis using 1(1) [of ] True None di u by (subst deep_copy_loop.simps) simp
    next
      case (Some p)
      show ?thesis
      proof (cases "copy p")
        case None
        have "map ((!) d) [0..<i] = map ?C (take i src)"
          using True by (intro nth_equalityI) (simp_all add: 1(4) nth_append)
        then have "List.map_filter ((!) d) [0..<i] = List.map_filter ?C (take i src)"
          using map_filter_map [of id "(!) d" "[0..<i]"] map_filter_map [of id ?C "take i src"] by simp
        then show ?thesis using True Some None di u by (subst deep_copy_loop.simps) simp
      next
        case q: (Some q)
        have "d[i := Some q] = map ?C (take (i + 1) src) @ drop (i + 1) src @ junk"
          using True unfolding 1(4) t by (simp add: Some q list_update_append)
        then show ?thesis using 1(2) True Some q di u by (subst deep_copy_loop.simps) simp
      qed
    qed
  qed
qed

text \<open>C34: \<open>sk_deep_copy\<close> returns a stack with a copy of every element, NULL kept as NULL, or, when a
  copy fails, no stack, and then it has handed exactly the copies made so far to the free function,
  each once: nothing is leaked and no element of the original is freed.\<close>

theorem sk_deep_copy_frees_on_failure:
  assumes "sk_ok sk" "num_alloc sk < 2 ^ 58"
  shows "(case sk_dup am (Some sk) of
      None \<Rightarrow> sk_deep_copy am copy (Some sk) = (None, [])
    | Some ret \<Rightarrow> (case find (\<lambda>j. \<exists>p. items sk ! j = Some p \<and> copy p = None) [0..<length (items sk)] of
        None \<Rightarrow> \<exists>sk'. sk_deep_copy am copy (Some sk) = (Some sk', []) \<and> sk_ok sk' \<and>
          items sk' = map (\<lambda>p. Option.bind p copy) (items sk)
      | Some j \<Rightarrow> sk_deep_copy am copy (Some sk) =
          (None, List.map_filter (\<lambda>p. Option.bind p copy) (take j (items sk)))))"
proof (cases "sk_dup am (Some sk)")
  case None
  then show ?thesis by (simp add: sk_deep_copy_def)
next
  case (Some ret)
  have ret: "sk_ok ret" "items ret = items sk" using sk_dup_ok [OF assms Some] by simp_all
  note ok = sk_okD [OF ret(1)]
  let ?junk = "drop (num ret) (sdata ret)"
  have d: "sdata ret = map (\<lambda>p. Option.bind p copy) (take 0 (items ret)) @ drop 0 (items ret) @ ?junk"
    by (simp add: items_def)
  have n: "num ret = length (items ret)" using length_items [OF ret(1)] by simp
  have loop: "deep_copy_loop copy (num ret) 0 (sdata ret) =
    (case find (\<lambda>j. \<exists>p. items sk ! j = Some p \<and> copy p = None) [0..<length (items sk)] of
       None \<Rightarrow> Inr (map (\<lambda>p. Option.bind p copy) (items sk) @ ?junk)
     | Some j \<Rightarrow> Inl (List.map_filter (\<lambda>p. Option.bind p copy) (take j (items sk))))"
    using deep_copy_loop_result [OF le0 d] by (simp only: n ret(2))
  show ?thesis
  proof (cases "find (\<lambda>j. \<exists>p. items sk ! j = Some p \<and> copy p = None) [0..<length (items sk)]")
    case None
    let ?sk = "ret\<lparr>sdata := map (\<lambda>p. Option.bind p copy) (items sk) @ ?junk\<rparr>"
    have "sk_ok ?sk" "items ?sk = map (\<lambda>p. Option.bind p copy) (items sk)"
      using ok length_items [OF ret(1)] ret(2) by (simp_all add: sk_ok_def items_of_prefix)
    moreover have "sk_deep_copy am copy (Some sk) = (Some ?sk, [])"
      by (simp add: sk_deep_copy_def Some loop None del: sk_dup.simps)
    ultimately show ?thesis using Some None by (auto simp del: sk_dup.simps)
  next
    case s: (Some j)
    then show ?thesis using Some by (simp add: sk_deep_copy_def loop del: sk_dup.simps)
  qed
qed

theorem sk_deep_copy_frees_on_failure_witness:
  "let sk = \<lparr>num = 3, sdata = [Some 1, None, Some (9 :: nat), None], sorted_flag = False, num_alloc = 4, comp = None :: unit option\<rparr>
   in sk_deep_copy (\<lambda>n. Some (\<lambda>_. None)) (\<lambda>p. if p < 5 then Some (p + 10) else None) (Some sk) = (None, [11])"
proof -
  let ?sk = "\<lparr>num = 3, sdata = [Some 1, None, Some (9 :: nat), None], sorted_flag = False, num_alloc = 4, comp = None :: unit option\<rparr>"
  have "sk_dup (\<lambda>n. Some (\<lambda>_. None)) (Some ?sk) \<noteq> None"
    by (simp add: sk_new_def malloc_ptrs_def realloc_ptrs_def)
  then show ?thesis
    using sk_deep_copy_frees_on_failure [of ?sk "\<lambda>n. Some (\<lambda>_. None)" "\<lambda>p. if p < 5 then Some (p + 10) else None"]
    by (auto simp: sk_ok_def items_def upt_rec map_filter_simps simp del: sk_dup.simps)
qed

end
