(* ===== verification/Oid.thy ===== *)
theory Oid
  imports Cbb_Props
begin

unbundle bit_operations_syntax

text \<open>
  Object identifiers as text: \<open>CBB_add_asn1_oid_from_text\<close> (crypto/bytestring/cbb.c) parses the dotted
  decimal form and writes the contents octets, \<open>CBS_asn1_oid_to_text\<close> (crypto/bytestring/cbs.c) prints
  contents octets as text. The specification is the list of the components.
\<close>

section \<open>The functions\<close>

text \<open>The loop of \<open>parse_dotted_decimal\<close>: \<open>v\<close> is \<open>*out\<close>.\<close>

fun dotted_loop :: "u64 \<Rightarrow> bool \<Rightarrow> u64 reader" where
  "dotted_loop v seen_digit [] = (if seen_digit then Some v else None, [])"
| "dotted_loop v seen_digit (u # cbs) =
     (if u = 46 \<and> length cbs > 0 then (if seen_digit then Some v else None, cbs)
      else if u < 48 \<or> u > 57 \<or> (seen_digit \<and> v = 0) \<or> v > 0xFFFFFFFFFFFFFFFF div 10 \<or>
              v * 10 > 0xFFFFFFFFFFFFFFFF - ucast (u - 48)
      then (None, cbs)
      else dotted_loop (v * 10 + ucast (u - 48)) True cbs)"

definition parse_dotted_decimal :: "u64 reader" where
  "parse_dotted_decimal cbs = dotted_loop 0 False cbs"

function oid_rest :: "alloc \<Rightarrow> cbs \<Rightarrow> cbb \<Rightarrow> cbb \<times> bool" where
  "oid_rest am cbs cbb =
    (if cbs = [] then (cbb, True)
     else case parse_dotted_decimal cbs of
       (None, _) \<Rightarrow> (cbb, False)
     | (Some a, cbs') \<Rightarrow> then_do (add_base128_integer am a) (oid_rest am cbs') cbb)"
  by auto

definition CBB_add_asn1_oid_from_text :: "alloc \<Rightarrow> bytes \<Rightarrow> cbb \<Rightarrow> cbb \<times> bool" where
  "CBB_add_asn1_oid_from_text am text cbb = (case CBB_flush am cbb of
     (cbb, False) \<Rightarrow> (cbb, False)
   | (cbb, True) \<Rightarrow> (case parse_dotted_decimal text of
       (None, _) \<Rightarrow> (cbb, False)
     | (Some a, cbs) \<Rightarrow> (case parse_dotted_decimal cbs of
         (None, _) \<Rightarrow> (cbb, False)
       | (Some b, cbs) \<Rightarrow>
           if a > 2 \<or> (a < 2 \<and> b > 39) \<or> b > 0xFFFFFFFFFFFFFFFF - 80 then (cbb, False)
           else then_do (add_base128_integer am (40 * a + b)) (oid_rest am cbs) cbb)))"

text \<open>What \<open>BIO_snprintf\<close> prints for a 64 bit decimal.\<close>

fun decimal :: "nat \<Rightarrow> bytes" where
  "decimal n = (if n < 10 then [of_nat (48 + n)] else decimal (n div 10) @ [of_nat (48 + n mod 10)])"

declare decimal.simps [simp del]

definition add_decimal :: "alloc \<Rightarrow> u64 \<Rightarrow> cbb \<Rightarrow> cbb \<times> bool" where
  "add_decimal am v = CBB_add_bytes am (decimal (unat v))"

function oid_text_rest :: "alloc \<Rightarrow> cbs \<Rightarrow> cbb \<Rightarrow> cbb \<times> bool" where
  "oid_text_rest am copy cbb =
    (if copy = [] then (cbb, True)
     else case parse_base128_integer copy of
       (None, _) \<Rightarrow> (cbb, False)
     | (Some v, copy') \<Rightarrow> then_do (CBB_add_u8 am 46) (then_do (add_decimal am v) (oid_text_rest am copy')) cbb)"
  by auto

definition CBS_asn1_oid_to_text :: "alloc \<Rightarrow> cbs \<Rightarrow> bytes option" where
  "CBS_asn1_oid_to_text am cbs = (case CBB_init am 32 of
     (cbb, False) \<Rightarrow> None
   | (cbb, True) \<Rightarrow> (case parse_base128_integer cbs of
       (None, _) \<Rightarrow> None
     | (Some v, copy) \<Rightarrow>
         (case then_do
            (if v \<ge> 80 then then_do (CBB_add_bytes am [50, 46]) (add_decimal am (v - 80))
             else then_do (add_decimal am (v div 40)) (then_do (CBB_add_u8 am 46) (add_decimal am (v mod 40))))
            (then_do (oid_text_rest am copy) (CBB_add_u8 am 0)) cbb of
            (cbb, False) \<Rightarrow> None
          | (cbb, True) \<Rightarrow> snd (CBB_finish am cbb))))"

section \<open>Decimal numbers\<close>

lemma decimal_small: "n < 10 \<Longrightarrow> decimal n = [of_nat (48 + n)]"
  by (simp add: decimal.simps)

lemma decimal_step: "0 < n \<Longrightarrow> d < 10 \<Longrightarrow> decimal (n * 10 + d) = decimal n @ [of_nat (48 + d)]"
  by (subst decimal.simps) simp

lemma decimal_nonempty [simp]: "decimal n \<noteq> []"
  by (subst decimal.simps) simp

text \<open>What may follow a component: the end, or a dot that is not the last character.\<close>

definition ends :: "bytes \<Rightarrow> bytes \<Rightarrow> bool" where
  "ends t rest \<longleftrightarrow> (t = [] \<and> rest = []) \<or> (t = 46 # rest \<and> rest \<noteq> [])"

lemma digit_value:
  assumes "\<not> u < 48" "\<not> 57 < (u :: u8)"
  obtains d where "d < 10" "u = of_nat (48 + d)" "ucast (u - 48) = (of_nat d :: u64)"
proof -
  define d where "d = unat u - 48"
  have u: "48 \<le> unat u" "unat u \<le> 57" using assms by (simp_all add: word_less_nat_alt not_less)
  have "u = of_nat (unat u)" by simp
  also have "unat u = 48 + d" using u by (simp add: d_def)
  finally have "u = of_nat (48 + d)" .
  moreover have "unat (u - 48) = d" using u by (simp add: d_def unat_sub word_le_nat_alt)
  then have "ucast (u - 48) = (of_nat d :: u64)" by (metis of_nat_unat)
  ultimately show ?thesis using u by (intro that [of d]) (simp_all add: d_def)
qed

lemma times_10:
  assumes "d < 10"
  shows "v > 0xFFFFFFFFFFFFFFFF div 10 \<or> v * 10 > 0xFFFFFFFFFFFFFFFF - (of_nat d :: u64) \<longleftrightarrow> 2 ^ 64 \<le> unat v * 10 + d"
    "unat v * 10 + d < 2 ^ 64 \<Longrightarrow> unat (v * 10 + of_nat d :: u64) = unat v * 10 + d"
proof -
  have d: "unat (of_nat d :: u64) = d" using assms by (simp add: unat_of_nat)
  have m: "unat (0xFFFFFFFFFFFFFFFF div 10 :: u64) = 1844674407370955161"
    by (simp add: unat_div)
  have s: "unat (0xFFFFFFFFFFFFFFFF - of_nat d :: u64) = 18446744073709551615 - d"
    using assms d by (subst unat_sub) (simp_all add: word_le_nat_alt)
  show "v > 0xFFFFFFFFFFFFFFFF div 10 \<or> v * 10 > 0xFFFFFFFFFFFFFFFF - (of_nat d :: u64) \<longleftrightarrow> 2 ^ 64 \<le> unat v * 10 + d"
  proof (cases "unat v \<le> 1844674407370955161")
    case True
    then have "unat (v * 10) = unat v * 10" by (simp add: unat_word_ariths)
    then show ?thesis using True assms unfolding word_less_nat_alt m s by auto
  qed (auto simp: word_less_nat_alt m)
  show "unat (v * 10 + of_nat d :: u64) = unat v * 10 + d" if "unat v * 10 + d < 2 ^ 64"
    using that d by (simp add: unat_word_ariths)
qed

lemma dotted_loop_sound:
  assumes "dotted_loop v seen cbs = (Some w, cbs')" "\<not> seen \<longrightarrow> v = 0"
  shows "\<exists>t. (if seen then decimal (unat v) else []) @ cbs = decimal (unat w) @ t \<and> ends t cbs'"
  using assms
proof (induction v seen cbs rule: dotted_loop.induct)
  case (2 v seen u cbs)
  show ?case
  proof (cases "u = 46 \<and> length cbs > 0")
    case False
    then have c: "\<not> u < 48" "\<not> 57 < u" "\<not> (seen \<and> v = 0)"
      "\<not> (v > 0xFFFFFFFFFFFFFFFF div 10 \<or> v * 10 > 0xFFFFFFFFFFFFFFFF - ucast (u - 48))"
      and r: "dotted_loop (v * 10 + ucast (u - 48)) True cbs = (Some w, cbs')"
      using 2(2) by (auto split: if_splits)
    obtain d where d: "d < 10" "u = of_nat (48 + d)" "ucast (u - 48) = (of_nat d :: u64)"
      by (rule digit_value [OF c(1,2)])
    have n: "unat (v * 10 + ucast (u - 48)) = unat v * 10 + d"
      using times_10 [OF d(1), of v] c(4) unfolding d(3) by simp
    obtain t where t: "decimal (unat v * 10 + d) @ cbs = decimal (unat w) @ t" "ends t cbs'"
      using 2(1) [OF False _ r] c n by auto
    have "decimal (unat v * 10 + d) = (if seen then decimal (unat v) else []) @ [u]"
    proof (cases seen)
      case True
      then have "0 < unat v" using c(3) by (simp add: unat_gt_0)
      then show ?thesis using True d by (simp add: decimal_step)
    qed (use 2(3) d in \<open>simp add: decimal_small\<close>)
    then show ?thesis using t by auto
  qed (use 2 in \<open>auto simp: ends_def split: if_splits\<close>)
qed (auto simp: ends_def split: if_splits)

lemma dotted_loop_decimal:
  "n < 2 ^ 64 \<Longrightarrow> dotted_loop 0 False (decimal n @ t) = dotted_loop (of_nat n) True t"
proof (induction n arbitrary: t rule: decimal.induct)
  case (1 n)
  have digit: "dotted_loop v seen (of_nat (48 + d) # t) = dotted_loop (v * 10 + of_nat d) True t"
    if "d < 10" "unat v * 10 + d < 2 ^ 64" "seen \<longrightarrow> v \<noteq> 0" for v seen d t
  proof -
    let ?u = "of_nat (48 + d) :: u8"
    have u: "unat ?u = 48 + d" using that(1) by (intro unat_of_nat_u8) simp
    have k: "\<not> ?u < 48" "\<not> 57 < ?u" "?u \<noteq> 46" using that(1) u by (auto simp: word_less_nat_alt word_unat_eq_iff)
    obtain e where e: "e < 10" "?u = of_nat (48 + e)" "ucast (?u - 48) = (of_nat e :: u64)"
      by (rule digit_value [OF k(1,2)])
    have "unat (of_nat (48 + e) :: u8) = 48 + e" using e(1) by (intro unat_of_nat_u8) simp
    with u e(2) have "e = d" by simp
    moreover have "\<not> (seen \<and> v = 0)" using that(3) by blast
    ultimately show ?thesis using k times_10(1) [OF that(1), of v] that(2) e(3)
      by (cases seen; cases "v = 0") simp_all
  qed
  show ?case
  proof (cases "n < 10")
    case True
    then show ?thesis using digit [of n 0 False t] by (simp add: decimal_small)
  next
    case False
    define m d where "m = n div 10" and "d = n mod 10"
    have n: "n = m * 10 + d" "d < 10" "0 < m" using False by (simp_all add: m_def d_def)
    have "unat (of_nat m :: u64) = m" using n 1(2) by (simp add: unat_of_nat)
    moreover have "m < 2 ^ 64" using n 1(2) by simp
    ultimately show ?thesis
      using 1(1) [OF False, folded m_def, of "of_nat (48 + d) # t"] digit [of d "of_nat m" True t] n 1(2)
      by (simp add: decimal_step mult.commute unat_gt_0 [symmetric] del: unat_gt_0)
  qed
qed

lemma parse_dotted_decimal_iff:
  "parse_dotted_decimal cbs = (Some v, cbs') \<longleftrightarrow> (\<exists>t. cbs = decimal (unat v) @ t \<and> ends t cbs')"
proof
  assume "parse_dotted_decimal cbs = (Some v, cbs')"
  then show "\<exists>t. cbs = decimal (unat v) @ t \<and> ends t cbs'"
    using dotted_loop_sound [of 0 False cbs v cbs'] by (simp add: parse_dotted_decimal_def)
next
  assume "\<exists>t. cbs = decimal (unat v) @ t \<and> ends t cbs'"
  then obtain t where t: "cbs = decimal (unat v) @ t" "ends t cbs'" by blast
  have "dotted_loop 0 False cbs = dotted_loop v True t"
    using dotted_loop_decimal [of "unat v" t] unat_u64_less [of v] t(1) by simp
  also have "\<dots> = (Some v, cbs')" using t(2) by (auto simp: ends_def)
  finally show "parse_dotted_decimal cbs = (Some v, cbs')" by (simp add: parse_dotted_decimal_def)
qed

termination oid_rest
  by (relation "measure (\<lambda>(am, cbs, cbb). length cbs)")
     (auto dest!: parse_dotted_decimal_iff [THEN iffD1, OF sym] simp: ends_def)

termination oid_text_rest
  by (relation "measure (\<lambda>(am, cbs, cbb). length cbs)") (auto dest!: b128.consumes [OF sym])

declare oid_rest.simps [simp del] oid_text_rest.simps [simp del]


section \<open>Object identifiers\<close>

text \<open>The dotted form and the contents octets of a list of components, and the lists that the library
  can represent.\<close>

fun oid_text :: "u64 list \<Rightarrow> bytes" where
  "oid_text [] = []"
| "oid_text [a] = decimal (unat a)"
| "oid_text (a # as) = decimal (unat a) @ 46 # oid_text as"

fun oid_der :: "u64 list \<Rightarrow> bytes" where
  "oid_der (a # b # as) = base128 (unat (40 * a + b)) @ concat (map (\<lambda>a. base128 (unat a)) as)"
| "oid_der _ = []"

fun oid_ok :: "u64 list \<Rightarrow> bool" where
  "oid_ok (a # b # as) \<longleftrightarrow> a \<le> 2 \<and> (a < 2 \<longrightarrow> b \<le> 39) \<and> b \<le> 0xFFFFFFFFFFFFFFFF - 80"
| "oid_ok _ \<longleftrightarrow> False"

lemma oid_text_nonempty: "as \<noteq> [] \<Longrightarrow> oid_text as \<noteq> []"
  by (cases as rule: oid_text.cases) simp_all

lemma parse_first: "parse_dotted_decimal (oid_text (a # as)) = (Some a, oid_text as)"
  using oid_text_nonempty [of as]
  by (cases as) (auto simp: parse_dotted_decimal_iff ends_def)

lemma parse_first_only:
  assumes "parse_dotted_decimal cbs = (Some a, cbs')" "cbs' = oid_text as"
  shows "cbs = oid_text (a # as)"
  using assms oid_text_nonempty [of as] by (cases as) (auto simp: parse_dotted_decimal_iff ends_def)

lemma oid_rest_Cons:
  "oid_rest am (oid_text (a # as)) = then_do (add_base128_integer am a) (oid_rest am (oid_text as))"
  using oid_text_nonempty [of "a # as"]
  by (rule_tac ext, subst oid_rest.simps) (simp del: oid_text.simps add: parse_first)

lemma oid_rest_Nil: "oid_rest am [] = (\<lambda>cbb. (cbb, True))"
  by (rule ext) (simp add: oid_rest.simps)

lemma emits_oid_rest: "emits am (oid_rest am (oid_text as)) (concat (map (\<lambda>a. base128 (unat a)) as))"
proof (induction as)
  case (Cons a as)
  show ?case unfolding oid_rest_Cons using emits_then_do [OF emits_add_base128 Cons] by simp
qed (simp add: oid_rest_Nil emits_nop)

lemma then_do_assoc: "then_do (then_do f g) h = then_do f (then_do g h)"
  by (rule ext) (simp add: then_do_def split: prod.split bool.split)

lemma oid_from_text_run:
  assumes "oid_ok (a # b # as)"
  shows "CBB_add_asn1_oid_from_text am (oid_text (a # b # as)) =
    then_do (CBB_flush am) (then_do (add_base128_integer am (40 * a + b)) (oid_rest am (oid_text as)))"
  using assms by (intro ext)
    (auto simp: CBB_add_asn1_oid_from_text_def parse_first then_do_def not_less simp del: oid_text.simps
      split: prod.split bool.split)

lemma emits_oid_from_text:
  assumes "oid_ok comps"
  shows "emits am (CBB_add_asn1_oid_from_text am (oid_text comps)) (oid_der comps)"
proof -
  obtain a b as where c: "comps = a # b # as" using assms by (cases comps rule: oid_ok.cases) auto
  show ?thesis
    using emits_then_do [OF emits_flush emits_then_do [OF emits_add_base128 emits_oid_rest]] assms
    unfolding c oid_from_text_run [OF assms [unfolded c]] by simp
qed

text \<open>Nothing but such a text is accepted.\<close>

lemma oid_rest_accepts: "oid_rest am cbs cbb = (s, True) \<Longrightarrow> \<exists>as. cbs = oid_text as"
proof (induction am cbs cbb arbitrary: s rule: oid_rest.induct)
  case (1 am cbs cbb)
  show ?case
  proof (cases "cbs = []")
    case True
    then have "cbs = oid_text []" by simp
    then show ?thesis by blast
  next
    case False
    then obtain a cbs' where p: "parse_dotted_decimal cbs = (Some a, cbs')"
      using 1(2) by (subst (asm) oid_rest.simps) (auto split: prod.splits option.splits)
    obtain s' where r: "oid_rest am cbs' s' = (s, True)"
      using 1(2) False p by (subst (asm) oid_rest.simps) (auto simp: then_do_def split: prod.splits bool.splits)
    obtain as where "cbs' = oid_text as" using 1(1) [OF False _ _ r] p by fastforce
    then show ?thesis using parse_first_only [OF p] by blast
  qed
qed

lemma oid_from_text_accepts:
  assumes "snd (CBB_add_asn1_oid_from_text am text s)"
  shows "\<exists>comps. oid_ok comps \<and> text = oid_text comps"
proof -
  obtain s1 a cbs1 b cbs2 where p: "parse_dotted_decimal text = (Some a, cbs1)" "parse_dotted_decimal cbs1 = (Some b, cbs2)"
    and ok: "\<not> (a > 2 \<or> (a < 2 \<and> b > 39) \<or> b > 0xFFFFFFFFFFFFFFFF - 80)"
    and r: "snd (then_do (add_base128_integer am (40 * a + b)) (oid_rest am cbs2) s1)"
    using assms by (auto simp: CBB_add_asn1_oid_from_text_def split: prod.splits bool.splits option.splits if_splits)
  obtain s2 where "snd (oid_rest am cbs2 s2)"
    using r by (auto simp: then_do_def split: prod.splits bool.splits)
  then obtain s3 where "oid_rest am cbs2 s2 = (s3, True)" by (metis prod.collapse)
  then obtain as where "cbs2 = oid_text as" using oid_rest_accepts by blast
  then have "text = oid_text (a # b # as)"
    using parse_first_only [OF p(1) parse_first_only [OF p(2)]] by blast
  moreover have "oid_ok (a # b # as)" using ok by (auto simp: not_less)
  ultimately show ?thesis by blast
qed

section \<open>Printing\<close>

text \<open>The text of the arcs after the first, each with its dot.\<close>

lemma oid_text_dots: "oid_text (a # as) = decimal (unat a) @ concat (map (\<lambda>a. 46 # decimal (unat a)) as)"
  by (induction as arbitrary: a) simp_all

lemma emits_oid_text_rest:
  "emits am (oid_text_rest am (concat (map (\<lambda>a :: u64. base128 (unat a)) as))) (concat (map (\<lambda>a. 46 # decimal (unat a)) as))"
proof (induction as)
  case Nil
  have "oid_text_rest am [] = (\<lambda>s. (s, True))" by (rule ext) (simp add: oid_text_rest.simps)
  then show ?case using emits_nop by simp
next
  case (Cons a as)
  have "oid_text_rest am (base128 (unat a) @ concat (map (\<lambda>a. base128 (unat a)) as)) =
      then_do (CBB_add_u8 am 46) (then_do (add_decimal am a) (oid_text_rest am (concat (map (\<lambda>a. base128 (unat a)) as))))"
    using b128.reads_enc [of a] b128.enc_nonempty [of a]
    by (intro ext) (subst oid_text_rest.simps, simp)
  moreover have "emits am (add_decimal am a) (decimal (unat a))"
    unfolding add_decimal_def [abs_def] by (rule emits_add_bytes)
  ultimately show ?case
    using emits_then_do [OF emits_add_u8 [of am 46] emits_then_do [OF _ Cons]] by fastforce
qed


definition oid_text_head :: "alloc \<Rightarrow> u64 \<Rightarrow> cbb \<Rightarrow> cbb \<times> bool" where
  "oid_text_head am v =
    (if v \<ge> 80 then then_do (CBB_add_bytes am [50, 46]) (add_decimal am (v - 80))
     else then_do (add_decimal am (v div 40)) (then_do (CBB_add_u8 am 46) (add_decimal am (v mod 40))))"

lemma first_two:
  assumes "oid_ok (a # b # as)"
  shows "unat (40 * a + b) = 40 * unat a + unat b"
    "a = 2 \<Longrightarrow> 40 * a + b \<ge> 80 \<and> 40 * a + b - 80 = b"
    "a \<noteq> 2 \<Longrightarrow> \<not> 40 * a + b \<ge> 80 \<and> (40 * a + b) div 40 = a \<and> (40 * a + b) mod 40 = b"
proof -
  have a: "unat a \<le> 2" "a \<noteq> 2 \<Longrightarrow> unat a \<le> 1" "unat a < 2 \<longrightarrow> unat b \<le> 39" "unat b \<le> 18446744073709551535"
    using assms by (auto simp: word_le_nat_alt word_less_nat_alt word_unat_eq_iff)
  then show u: "unat (40 * a + b) = 40 * unat a + unat b" by (simp add: unat_word_ariths)
  show "40 * a + b \<ge> 80 \<and> 40 * a + b - 80 = b" if "a = 2"
    using u that by (simp add: word_le_nat_alt)
  show "\<not> 40 * a + b \<ge> 80 \<and> (40 * a + b) div 40 = a \<and> (40 * a + b) mod 40 = b" if "a \<noteq> 2"
  proof -
    have "unat a \<le> 1" "unat b \<le> 39" using a that by auto
    then show ?thesis using u by (simp add: word_le_nat_alt word_unat_eq_iff unat_div unat_mod)
  qed
qed

lemma emits_oid_text_head:
  assumes "oid_ok (a # b # as)"
  shows "emits am (oid_text_head am (40 * a + b)) (decimal (unat a) @ 46 # decimal (unat b))"
proof -
  have d: "emits am (add_decimal am v) (decimal (unat v))" for v
    unfolding add_decimal_def [abs_def] by (rule emits_add_bytes)
  note n = first_two [OF assms]
  show ?thesis
  proof (cases "a = 2")
    case True
    have "decimal 2 = [50]" by (simp add: decimal_small)
    then show ?thesis
      using emits_then_do [OF emits_add_bytes [of am "[50, 46]"] d [of b]] n(2) [OF True] True
      by (simp add: oid_text_head_def)
  next
    case False
    then show ?thesis
      using emits_then_do [OF d [of a] emits_then_do [OF emits_add_u8 [of am 46] d [of b]]] n(3) [OF False]
      by (simp add: oid_text_head_def)
  qed
qed

lemma CBS_asn1_oid_to_text_run:
  assumes "oid_ok comps"
  obtains op where "emits am op (oid_text comps @ [0])"
    "CBS_asn1_oid_to_text am (oid_der comps) = (case CBB_init am 32 of
       (cbb, False) \<Rightarrow> None
     | (cbb, True) \<Rightarrow> (case op cbb of (cbb, False) \<Rightarrow> None | (cbb, True) \<Rightarrow> snd (CBB_finish am cbb)))"
proof -
  obtain a b as where c: "comps = a # b # as" using assms by (cases comps rule: oid_ok.cases) auto
  let ?rest = "concat (map (\<lambda>a. base128 (unat a)) as)"
  let ?op = "then_do (oid_text_head am (40 * a + b)) (then_do (oid_text_rest am ?rest) (CBB_add_u8 am 0))"
  have "emits am ?op ((decimal (unat a) @ 46 # decimal (unat b)) @ concat (map (\<lambda>a. 46 # decimal (unat a)) as) @ [0])"
    using assms unfolding c
    by (intro emits_then_do emits_oid_text_head emits_oid_text_rest emits_add_u8) simp_all
  moreover have "(decimal (unat a) @ 46 # decimal (unat b)) @ concat (map (\<lambda>a. 46 # decimal (unat a)) as) @ [0] =
      oid_text comps @ [0]"
    by (simp only: c oid_text_dots) simp
  moreover have "CBS_asn1_oid_to_text am (oid_der comps) = (case CBB_init am 32 of
       (cbb, False) \<Rightarrow> None
     | (cbb, True) \<Rightarrow> (case ?op cbb of (cbb, False) \<Rightarrow> None | (cbb, True) \<Rightarrow> snd (CBB_finish am cbb)))"
    unfolding c CBS_asn1_oid_to_text_def oid_text_head_def oid_der.simps
      b128.reads_enc [of "40 * a + b" ?rest, OF TrueI] prod.case option.case by (rule refl)
  ultimately show ?thesis by (intro that [of ?op]) (simp_all only:)
qed

lemma length_oid_der: "length (oid_der comps) \<le> 10 * length (oid_text comps)"
proof -
  have b: "length (base128 (unat v)) \<le> 10" for v :: u64
    using length_base128_high [of "unat v div 128" 9] unat_u64_less [of v]
    by (simp add: base128_def div_less_iff_less_mult)
  have r: "length (concat (map (\<lambda>a :: u64. base128 (unat a)) as)) \<le> 10 * length (concat (map (\<lambda>a. 46 # decimal (unat a)) as))" for as
  proof (induction as)
    case (Cons a as)
    then show ?case using b [of a] by simp
  qed simp
  show ?thesis
  proof (cases comps rule: oid_der.cases)
    case (1 a b' as)
    then show ?thesis using b [of "40 * a + b'"] r [of as] by (simp add: oid_text_dots del: oid_text.simps)
  qed simp_all
qed

section \<open>The property of the module\<close>

text \<open>C20: object identifiers survive the way from text to DER and back. For every list of components
  the library can represent, the text form makes \<open>CBB_add_asn1_oid_from_text\<close> write the DER contents,
  from which \<open>CBS_asn1_oid_to_text\<close> prints the text again, zero terminated; both succeed when there is
  memory. And no other text is accepted, so an identifier has one textual spelling: no empty
  component, no leading zero, no trailing dot, no value beyond 64 bits.\<close>

theorem oid_text_roundtrip:
  assumes "CBB_init am n = (s0, True)" "n \<le> 2 ^ 62" "oid_ok comps" "length (oid_text comps) \<le> 2 ^ 57"
  shows "(\<forall>s1 s2 der. CBB_add_asn1_oid_from_text am (oid_text comps) s0 = (s1, True) \<and>
        CBB_finish am s1 = (s2, Some der) \<longrightarrow> der = oid_der comps) \<and>
    (\<forall>t. CBS_asn1_oid_to_text am (oid_der comps) = Some t \<longrightarrow> t = oid_text comps @ [0]) \<and>
    ((\<forall>m. am m \<noteq> None) \<longrightarrow>
       (\<exists>s1 s2. CBB_add_asn1_oid_from_text am (oid_text comps) s0 = (s1, True) \<and>
          CBB_finish am s1 = (s2, Some (oid_der comps))) \<and>
       CBS_asn1_oid_to_text am (oid_der comps) = Some (oid_text comps @ [0])) \<and>
    (snd (CBB_add_asn1_oid_from_text am text s) \<longrightarrow> (\<exists>comps. oid_ok comps \<and> text = oid_text comps))"
proof -
  obtain b where b: "s0 = (Some b, [])" "wf b []" "len b = 0" "can_resize b"
    by (rule CBB_init_fresh [OF assms(1,2)])
  have l: "length (oid_der comps) \<le> 2 ^ 61" "length (oid_text comps @ [0]) \<le> 2 ^ 61"
    using length_oid_der [of comps] assms(4) by simp_all
  note W = written_fresh [OF emits_oid_from_text [OF assms(3)] b(2,3) l(1)]
  obtain op where op: "emits am op (oid_text comps @ [0])"
    "CBS_asn1_oid_to_text am (oid_der comps) = (case CBB_init am 32 of
       (cbb, False) \<Rightarrow> None
     | (cbb, True) \<Rightarrow> (case op cbb of (cbb, False) \<Rightarrow> None | (cbb, True) \<Rightarrow> snd (CBB_finish am cbb)))"
    by (rule CBS_asn1_oid_to_text_run [OF assms(3)])
  have t: "t = oid_text comps @ [0]" if some: "CBS_asn1_oid_to_text am (oid_der comps) = Some t" for t
  proof -
    obtain s where s: "CBB_init am 32 = (s, True)" using some op(2) by (auto split: prod.splits bool.splits)
    obtain b' where b': "s = (Some b', [])" "wf b' []" "len b' = 0" by (rule CBB_init_fresh [OF s]) simp
    obtain s1 s2 where "op (Some b', []) = (s1, True)" "CBB_finish am s1 = (s2, Some t)"
      using some op(2) s b'(1) by (auto split: prod.splits bool.splits) (metis prod.collapse)
    then show ?thesis using written_fresh(1) [OF op(1) b'(2,3) l(2)] by blast
  qed
  have "CBS_asn1_oid_to_text am (oid_der comps) = Some (oid_text comps @ [0])" if m: "\<forall>m. am m \<noteq> None"
  proof -
    have "snd (CBB_init am 32)" using m by (simp add: CBB_init_def cbb_init_def OPENSSL_malloc_def split: option.split)
    then obtain s where s: "CBB_init am 32 = (s, True)" by (metis prod.collapse)
    obtain b' where b': "s = (Some b', [])" "wf b' []" "len b' = 0" "can_resize b'"
      by (rule CBB_init_fresh [OF s]) simp
    then show ?thesis using written_fresh(2) [OF op(1) b'(2,3) l(2) b'(4)] m op(2) s by auto
  qed
  then show ?thesis using t W b(1,4) oid_from_text_accepts [of am "text" s] by blast
qed

theorem oid_text_roundtrip_witness:
  "CBS_asn1_oid_to_text ample [0x2a, 0x86, 0x48] = Some [49, 46, 50, 46, 56, 52, 48, 0]"
proof -
  have i: "CBB_init ample 4 = (fst (CBB_init ample 4), True)"
    using CBB_init_ample [of 4] by auto
  have t: "oid_text [1, 2, 840] = [49, 46, 50, 46, 56, 52, 48]" by code_simp
  have d: "oid_der [1, 2, 840] = [0x2a, 0x86, 0x48]" by code_simp
  have "oid_ok [1, 2, 840]" by code_simp
  moreover have "length (oid_text [1, 2, 840]) \<le> 2 ^ 57" unfolding t by simp
  ultimately have "CBS_asn1_oid_to_text ample (oid_der [1, 2, 840]) = Some (oid_text [1, 2, 840] @ [0])"
    using oid_text_roundtrip [OF i, of "[1, 2, 840]", THEN conjunct2, THEN conjunct2, THEN conjunct1, THEN mp] by simp
  then show ?thesis unfolding t d by simp
qed

end
