(* ===== verification/Set_Of.thy ===== *)
theory Set_Of
  imports Cbb_Props Stack
begin

text \<open>
  DER's SET OF (crypto/bytestring/cbb.c): \<open>CBB_flush_asn1_set_of\<close> splits the contents of a CBB into
  elements, sorts them with \<open>qsort\<close> by \<open>compare_set_of_element\<close> and writes them back. The order is
  an instance of the contract \<open>comparator\<close> that the stacks rely on. \<open>qsort\<close> is a parameter; a CBB's
  own offset is one too: \<open>start\<close> is \<open>cbb->offset + cbb->pending_len_len\<close>.
\<close>

section \<open>The order\<close>

definition compare_set_of_element :: "cbs \<Rightarrow> cbs \<Rightarrow> int" where
  "compare_set_of_element a b =
    (let a_len = length a; b_len = length b; min_len = (if a_len < b_len then a_len else b_len);
         ret = OPENSSL_memcmp a b min_len
     in if ret \<noteq> 0 then ret
        else if a_len = b_len then 0
        else if a_len < b_len then - 1 else 1)"

lemma compare_simps:
  "compare_set_of_element [] [] = 0"
  "compare_set_of_element [] (b # bs) = - 1"
  "compare_set_of_element (a # as) [] = 1"
  "compare_set_of_element (a # as) (b # bs) =
    (if a = b then compare_set_of_element as bs else int (unat a) - int (unat b))"
  by (auto simp: compare_set_of_element_def OPENSSL_memcmp_def Let_def simp flip: word_uint_eq_iff)

lemma compare_antisym: "compare_set_of_element a b < 0 \<longleftrightarrow> 0 < compare_set_of_element b a"
  by (induction a b rule: list_induct2') (auto simp: compare_simps)

lemma compare_trans:
  "compare_set_of_element a b \<le> 0 \<Longrightarrow> compare_set_of_element b c \<le> 0 \<Longrightarrow> compare_set_of_element a c \<le> 0"
proof (induction a arbitrary: b c)
  case Nil
  then show ?case by (cases c) (simp_all add: compare_simps)
next
  case (Cons x a)
  then obtain y b' z c' where bc: "b = y # b'" "c = z # c'"
    by (cases b; cases c) (auto simp: compare_simps)
  have "uint x \<le> uint y" "uint y \<le> uint z"
    using Cons.prems unfolding bc by (auto simp: compare_simps split: if_splits)
  then show ?case using Cons.prems Cons.IH [of b' c'] unfolding bc
    by (auto simp: compare_simps word_uint_eq_iff split: if_splits)
qed

interpretation set_of: comparator compare_set_of_element
  by unfold_locales (fact compare_antisym, fact compare_trans)

text \<open>The order does not depend on the code: it is the lexicographic order of byte strings, with a prefix first.\<close>

lemma compare_iff: "compare_set_of_element a b \<le> 0 \<longleftrightarrow> lexordp_eq a b"
  by (induction a b rule: list_induct2') (auto simp: compare_simps word_less_def word_uint_eq_iff)

lemma ordered_iff: "ordered compare_set_of_element es \<longleftrightarrow> sorted_wrt lexordp_eq es"
  by (simp add: ordered_def compare_iff)

section \<open>The function\<close>

definition CBB_data :: "nat \<Rightarrow> cbb_buffer \<Rightarrow> bytes" where
  "CBB_data start b = drop start (take (len b) (buf b))"

function count_elements :: "cbs \<Rightarrow> nat option" where
  "count_elements cbs =
    (if length cbs = 0 then Some 0
     else case CBS_get_any_asn1_element cbs of
       (None, _) \<Rightarrow> None
     | (Some _, cbs') \<Rightarrow> map_option Suc (count_elements cbs'))"
  by auto

lemma element_shorter: "CBS_get_any_asn1_element cbs = (Some r, cbs') \<Longrightarrow> length cbs' < length cbs"
  by (cases r) (auto simp: CBS_get_any_asn1_element_iff der_elem_def der_header_def)

termination count_elements
  by (relation "measure length") (auto dest!: element_shorter [OF sym])

declare count_elements.simps [simp del]

fun get_elements :: "nat \<Rightarrow> cbs \<Rightarrow> cbs list option" where
  "get_elements 0 cbs = Some []"
| "get_elements (Suc n) cbs = (case CBS_get_any_asn1_element cbs of
     (None, _) \<Rightarrow> None
   | (Some (child, _), cbs') \<Rightarrow> map_option ((#) child) (get_elements n cbs'))"

fun add_all :: "alloc \<Rightarrow> cbs list \<Rightarrow> cbb \<Rightarrow> cbb \<times> bool" where
  "add_all am [] cbb = (cbb, True)"
| "add_all am (child # children) cbb = then_do (CBB_add_bytes am child) (add_all am children) cbb"

definition CBB_flush_asn1_set_of ::
  "alloc \<Rightarrow> ((cbs \<Rightarrow> cbs \<Rightarrow> int) \<Rightarrow> cbs list \<Rightarrow> cbs list) \<Rightarrow> nat \<Rightarrow> cbb \<Rightarrow> cbb \<times> bool" where
  "CBB_flush_asn1_set_of am qsort start cbb = (case CBB_flush am cbb of
     ((Some b, fs), True) \<Rightarrow>
       (case count_elements (CBB_data start b) of
          None \<Rightarrow> ((Some b, fs), False)
        | Some num_children \<Rightarrow>
            if num_children < 2 then ((Some b, fs), True)
            else if num_children > SIZE_MAX div 16 then ((Some b, fs), False)
            else (case (OPENSSL_memdup am (CBB_data start b), OPENSSL_malloc am (size_mul num_children 16)) of
                (Some copy, Some _) \<Rightarrow>
                  (case get_elements num_children copy of
                     None \<Rightarrow> ((Some b, fs), False)
                   | Some children \<Rightarrow>
                       add_all am (qsort compare_set_of_element children) (Some (b\<lparr>len := start\<rparr>), fs))
              | _ \<Rightarrow> ((Some b, fs), False)))
   | (cbb, _) \<Rightarrow> (cbb, False))"

section \<open>Splitting into elements\<close>

definition is_elem :: "bytes \<Rightarrow> bool" where
  "is_elem e \<longleftrightarrow> (\<exists>t c. e = der_elem t c \<and> length c < 2 ^ 32)"

lemma get_any_elem: "is_elem e \<Longrightarrow> \<exists>x. CBS_get_any_asn1_element (e @ rest) = (Some (e, x), rest)"
  by (auto simp: is_elem_def CBS_get_any_asn1_element_iff)

lemma elem_of_get: "CBS_get_any_asn1_element cbs = (Some (e, x), rest) \<Longrightarrow> is_elem e \<and> cbs = e @ rest"
  by (cases x) (auto simp: is_elem_def CBS_get_any_asn1_element_iff)

lemma is_elem_nonempty: "is_elem e \<Longrightarrow> e \<noteq> []"
  by (auto simp: is_elem_def)

lemma count_elements_concat:
  "\<forall>e\<in>set es. is_elem e \<Longrightarrow> count_elements (concat es) = Some (length es) \<and> get_elements (length es) (concat es) = Some es"
proof (induction es)
  case (Cons e es)
  then obtain x where x: "CBS_get_any_asn1_element (e @ concat es) = (Some (e, x), concat es)"
    using get_any_elem by (metis list.set_intros(1))
  then show ?case using Cons is_elem_nonempty [of e]
    by (subst count_elements.simps) (auto split: prod.split)
qed (simp add: count_elements.simps)

lemma length_concat_elems: "\<forall>e\<in>set es. is_elem e \<Longrightarrow> length es \<le> length (concat es)"
proof (induction es)
  case (Cons e es)
  then have "e \<noteq> []" using is_elem_nonempty by simp
  then show ?case using Cons by (cases e) simp_all
qed simp

lemma length_concat_mset: "mset xs = mset ys \<Longrightarrow> length (concat xs) = length (concat ys)"
  unfolding length_concat sum_mset_sum_list [symmetric] mset_map by simp

lemma count_elements_Some: "count_elements cbs = Some n \<Longrightarrow> \<exists>es. (\<forall>e\<in>set es. is_elem e) \<and> cbs = concat es"
proof (induction cbs arbitrary: n rule: count_elements.induct)
  case (1 cbs)
  show ?case
  proof (cases "cbs = []")
    case True
    then show ?thesis by (intro exI [of _ "[]"]) simp
  next
    case False
    then obtain e x rest m where r: "CBS_get_any_asn1_element cbs = (Some (e, x), rest)" "count_elements rest = Some m"
      using 1(2) by (subst (asm) count_elements.simps) (auto split: prod.splits option.splits)
    obtain es where "\<forall>e\<in>set es. is_elem e" "rest = concat es"
      using 1(1) [OF _ r(1) [symmetric] _ r(2)] False by auto
    then show ?thesis using elem_of_get [OF r(1)] by (intro exI [of _ "e # es"]) simp
  qed
qed

lemma emits_add_all: "emits am (add_all am cs) (concat cs)"
proof (induction cs)
  case Nil
  have "add_all am [] = (\<lambda>cbb. (cbb, True))" by (rule ext) simp
  then show ?case using emits_nop by simp
next
  case (Cons c cs)
  have "add_all am (c # cs) = then_do (CBB_add_bytes am c) (add_all am cs)" by (rule ext) simp
  then show ?case using emits_then_do [OF emits_add_bytes Cons] by simp
qed


section \<open>The property of the module\<close>

text \<open>C21: \<open>CBB_flush_asn1_set_of\<close> sorts. When what was written under the CBB is a sequence of DER
  elements, a successful call leaves the same elements, each as often as before, in ascending lexicographic order of their bytes
  (X.690, 11.6), in the place of the old ones, and it succeeds when there is memory; when it is not such a sequence the
  call fails.\<close>

theorem CBB_flush_asn1_set_of_sorts:
  assumes "wf b fs" "length fs \<le> 1000" "closed fs (out b) = Some w" "length w \<le> 2 ^ 59" "start \<le> length w"
    and "qsort_sorts qsort compare_set_of_element"
  shows "(\<forall>es. drop start w = concat es \<and> (\<forall>e\<in>set es. is_elem e) \<longrightarrow>
      (\<forall>s. CBB_flush_asn1_set_of am qsort start (Some b, fs) = (s, True) \<longrightarrow>
         (\<exists>b' fs' es'. s = (Some b', fs') \<and> closed fs' (out b') = Some (take start w @ concat es') \<and>
            mset es' = mset es \<and> sorted_wrt lexordp_eq es')) \<and>
      ((\<forall>m. am m \<noteq> None) \<and> room am b (length w) \<longrightarrow>
         snd (CBB_flush_asn1_set_of am qsort start (Some b, fs)))) \<and>
    ((\<nexists>es. drop start w = concat es \<and> (\<forall>e\<in>set es. is_elem e)) \<longrightarrow>
      \<not> snd (CBB_flush_asn1_set_of am qsort start (Some b, fs)))"
proof -
  have k: "length fs \<le> 1001" "length w \<le> 2 ^ 61" using assms(2,4) by simp_all
  note F = CBB_flush_ok [OF assms(1) k(1) assms(3) k(2), of am]
  let ?op = "CBB_flush_asn1_set_of am qsort start"
  obtain s0 ok where s0: "CBB_flush am (Some b, fs) = (s0, ok)" by fastforce
  show ?thesis
  proof (cases ok)
    case False
    then have "\<not> room am b (length w)" "\<not> snd (?op (Some b, fs))"
      using F(2) s0 by (auto simp: CBB_flush_asn1_set_of_def split: prod.split option.split)
    then show ?thesis by auto
  next
    case True
    then obtain b1 where b1: "s0 = (Some b1, [])" "later b b1" "out b1 = w" using F(1) s0 by auto
    have data: "CBB_data start b1 = drop start w" using b1(3) by (simp add: CBB_data_def)
    have len: "len b1 = length w" using b1(2,3) length_out [of b1] by (simp add: later_def)
    show ?thesis
    proof (intro conjI allI impI)
      assume "\<nexists>es. drop start w = concat es \<and> (\<forall>e\<in>set es. is_elem e)"
      then have "count_elements (drop start w) = None" using count_elements_Some by (cases "count_elements (drop start w)") blast+
      then show "\<not> snd (?op (Some b, fs))"
        using s0 True b1(1) data by (simp add: CBB_flush_asn1_set_of_def)
    next
      fix es assume es: "drop start w = concat es \<and> (\<forall>e\<in>set es. is_elem e)"
      note c = count_elements_concat [of es]
      have "length es \<le> length (concat es)"
        using es length_concat_elems by blast
      moreover have "length (concat es) \<le> 2 ^ 59" using es assms(4) by (simp flip: conjunct1 [OF es])
      ultimately have n: "length es \<le> SIZE_MAX div 16" by simp
      have dup: "OPENSSL_memdup am (concat es) = Some p \<Longrightarrow> p = concat es" for p
        using OPENSSL_memdup_Some [of am "concat es" p] \<open>length (concat es) \<le> 2 ^ 59\<close> by simp
      let ?es' = "qsort compare_set_of_element es"
      have q: "mset ?es' = mset es" "sorted_wrt lexordp_eq ?es'"
        using assms(6) by (simp_all add: qsort_sorts_def flip: ordered_iff)
      have lc: "length (concat ?es') = length (concat es)"
        by (rule length_concat_mset [OF q(1)])
      let ?b2 = "b1\<lparr>len := start\<rparr>"
      have "take start w = take start (buf b1)"
        unfolding b1(3) [symmetric] using len assms(5) by (simp add: min_def)
      then have b2: "wf ?b2 []" "closed [] (out ?b2) = Some (take start w)"
        using b1(2,3) len assms(5) by (auto simp: wf_def later_def buffer_ok_def)
      have l2: "length (take start w) + length (concat ?es') \<le> 2 ^ 61"
        using lc es assms(4,5) by (metis append_take_drop_id k(2) length_append)
      note E = emitsD [OF emits_add_all [of am ?es'] b2(1) _ b2(2) l2]
      show "\<exists>b' fs' es'. s = (Some b', fs') \<and> closed fs' (out b') = Some (take start w @ concat es') \<and>
            mset es' = mset es \<and> sorted_wrt lexordp_eq es'" if run: "?op (Some b, fs) = (s, True)" for s
      proof (cases "length es < 2")
        case True
        then have "sorted_wrt lexordp_eq es" by (auto simp: sorted_wrt_iff_nth_less)
        moreover have "s = (Some b1, [])"
          using run True c es s0 \<open>ok\<close> b1(1) data by (simp add: CBB_flush_asn1_set_of_def)
        ultimately show ?thesis using b1(3) es by (metis append_take_drop_id closed.simps(1))
      next
        case False
        then have "add_all am ?es' (Some ?b2, []) = (s, True)"
          using run c es s0 \<open>ok\<close> b1(1) data
          by (auto simp: CBB_flush_asn1_set_of_def dest!: dup split: if_splits option.splits)
        then show ?thesis using E(1) q by simp blast
      qed
      show "snd (?op (Some b, fs))" if m: "(\<forall>m. am m \<noteq> None) \<and> room am b (length w)"
      proof -
        have "room am ?b2 (length w)" using later_room [OF b1(2)] m by (auto simp: room_def)
        moreover have "start + length (concat es) = length w"
          using assms(5) by (simp flip: conjunct1 [OF es])
        ultimately have "snd (add_all am ?es' (Some ?b2, []))" using E(2) lc assms(5) by simp
        moreover obtain m where m': "OPENSSL_malloc am (size_mul (length es) 16) = Some m"
          using OPENSSL_malloc_succeeds [of am] m by blast
        moreover have "OPENSSL_memdup am (concat es) = Some (concat es)" if "\<not> length es < 2"
        proof -
          have "concat es \<noteq> []" using that es is_elem_nonempty by (cases es) auto
          then have "\<exists>p. OPENSSL_memdup am (concat es) = Some p"
            using OPENSSL_malloc_succeeds [of am "length (concat es)"] m by (auto simp: OPENSSL_memdup_def)
          then show ?thesis using dup by blast
        qed
        ultimately show ?thesis
          using c es s0 \<open>ok\<close> b1(1) data n
          by (cases "length es < 2") (auto simp: CBB_flush_asn1_set_of_def)
      qed
    qed
  qed
qed


text \<open>An insertion sort in the place of \<open>qsort\<close>.\<close>

fun insert_by :: "('a \<Rightarrow> 'a \<Rightarrow> int) \<Rightarrow> 'a \<Rightarrow> 'a list \<Rightarrow> 'a list" where
  "insert_by cmp x [] = [x]"
| "insert_by cmp x (y # ys) = (if cmp x y \<le> 0 then x # y # ys else y # insert_by cmp x ys)"

lemma insert_by_sorts: "qsort_sorts (\<lambda>cmp xs. foldr (insert_by cmp) xs []) compare_set_of_element"
proof -
  have m: "mset (insert_by cmp x xs) = add_mset x (mset xs)" for cmp and x :: bytes and xs
    by (induction xs) auto
  have o: "ordered compare_set_of_element (insert_by compare_set_of_element x xs)"
    if "ordered compare_set_of_element xs" for x xs
    using that
  proof (induction xs)
    case (Cons y ys)
    have s: "set (insert_by compare_set_of_element x ys) = insert x (set ys)"
      using m [of compare_set_of_element x ys] by (metis set_mset_add_mset_insert set_mset_mset)
    have "compare_set_of_element y x \<le> 0" if "\<not> compare_set_of_element x y \<le> 0"
      using that compare_antisym [of y x] by linarith
    then show ?case using Cons s compare_trans by (auto simp: ordered_def)
  qed (simp add: ordered_def)
  have "mset (foldr (insert_by compare_set_of_element) xs []) = mset xs \<and>
      ordered compare_set_of_element (foldr (insert_by compare_set_of_element) xs [])" for xs
  proof (induction xs)
    case Nil
    show ?case by (simp add: ordered_def)
  next
    case (Cons x xs)
    then show ?case using m o by simp
  qed
  then show ?thesis by (simp add: qsort_sorts_def)
qed

theorem CBB_flush_asn1_set_of_sorts_witness:
  "\<exists>b fs. CBB_flush_asn1_set_of ample (\<lambda>cmp xs. foldr (insert_by cmp) xs []) 0
     (Some \<lparr>buf = [2, 1, 9, 2, 1, 5], len = 6, can_resize = True, cbb_error = False\<rparr>, []) = ((Some b, fs), True) \<and>
     closed fs (out b) = Some [2, 1, 5, 2, 1, 9]"
proof -
  let ?b = "\<lparr>buf = [2, 1, 9, 2, 1, 5], len = 6, can_resize = True, cbb_error = False\<rparr>"
  let ?op = "CBB_flush_asn1_set_of ample (\<lambda>cmp xs. foldr (insert_by cmp) xs []) 0 (Some ?b, [])"
  have w: "wf ?b []" "closed [] (out ?b) = Some [2, 1, 9, 2, 1, 5]" by (simp_all add: wf_def buffer_ok_def)
  have "der_elem 2 [n] = [2, 1, n]" for n
    by (simp add: der_elem_def der_header_def der_tag_def der_len_def tag_class_def tag_number_def)
  then have e: "is_elem [2, 1, n]" for n unfolding is_elem_def by (intro exI [of _ 2] exI [of _ "[n]"]) simp
  have r: "room ample ?b n" "ample n \<noteq> None" for n by (simp_all add: room_def)
  have c: "drop 0 [2, 1, 9, 2, 1, 5] = concat [[2, 1, 9], [2, 1, 5 :: u8]] \<and> (\<forall>x\<in>set [[2, 1, 9], [2, 1, 5]]. is_elem x)" using e by simp
  note sorts = CBB_flush_asn1_set_of_sorts [OF w(1) _ w(2) _ _ insert_by_sorts, of 0 ample, THEN conjunct1, THEN spec, THEN mp, OF _ _ _ c]
  have "snd ?op" by (rule sorts [THEN conjunct2, THEN mp]) (use r in simp_all)
  then have run: "?op = (fst ?op, True)" by (intro prod_eqI) (simp_all only: fst_conv snd_conv)
  have "\<exists>b' fs' es'. fst ?op = (Some b', fs') \<and> closed fs' (out b') = Some (take 0 [2, 1, 9, 2, 1, 5] @ concat es') \<and>
      mset es' = mset [[2, 1, 9], [2, 1, 5]] \<and> sorted_wrt lexordp_eq es'"
    by (rule sorts [THEN conjunct1, THEN spec [of _ "fst ?op"], THEN mp, OF _ _ _ run]) simp_all
  then obtain b fs es where b: "fst ?op = (Some b, fs)" "closed fs (out b) = Some (concat es)" "mset es = mset [[2, 1, 9], [2, 1, 5]]"
    "sorted_wrt lexordp_eq es" unfolding take_0 append_Nil by blast
  have "es = [[2, 1, 5], [2, 1, 9]]"
  proof -
    have "size (mset es) = 2" using b(3) by simp
    then have l: "length es = 2" by simp
    then obtain x y where xy: "es = [x, y]" by (cases es; cases "tl es") auto
    then have "{x, y} = {[2, 1, 9], [2, 1, 5]}" using arg_cong [OF b(3), of set_mset] by simp
    then have "x = [2, 1, 9] \<and> y = [2, 1, 5] \<or> x = [2, 1, 5] \<and> y = [2, 1, 9]" by (simp only: doubleton_eq_iff)
    then show ?thesis using b(4) xy by auto
  qed
  then have "closed fs (out b) = Some [2, 1, 5, 2, 1, 9]" using b(2) by simp
  then show ?thesis using run unfolding b(1) by blast
qed

end
