(* ===== verification/Lhash.thy ===== *)
theory Lhash
  imports Mem "HOL-Library.Multiset"
begin

text \<open>
  BoringSSL's chained hash table (crypto/lhash/lhash.c). \<open>buckets\<close> has one list of items for each
  chain, in the order of the \<open>next\<close> pointers. Hash and comparison are functions of the caller; the
  locale \<open>hashing\<close> states what the table needs of them.
\<close>

section \<open>The table\<close>

record 'a lhash_item =
  item_data :: 'a
  item_hash :: u32

record 'a lhash =
  num_items :: nat
  buckets :: "'a lhash_item list list"
  num_buckets :: nat
  callback_depth :: nat

definition kMinNumBuckets :: nat where "kMinNumBuckets = 16"
definition kMaxAverageChainLength :: nat where "kMaxAverageChainLength = 2"
definition kMinAverageChainLength :: nat where "kMinAverageChainLength = 1"

definition lh_new :: "alloc \<Rightarrow> 'a lhash option" where
  "lh_new am = (case OPENSSL_malloc am 48 of None \<Rightarrow> None
     | Some _ \<Rightarrow> (case OPENSSL_malloc am (size_mul 8 kMinNumBuckets) of None \<Rightarrow> None
        | Some _ \<Rightarrow> Some \<lparr>num_items = 0, buckets = replicate kMinNumBuckets [],
             num_buckets = kMinNumBuckets, callback_depth = 0\<rparr>))"

definition lh_num_items :: "'a lhash \<Rightarrow> nat" where
  "lh_num_items lh = num_items lh"

text \<open>A pointer to a \<open>next\<close> field is the number of the chain and of the item it points to; the
  number after the last item is the pointer to NULL.\<close>

fun walk :: "('b \<Rightarrow> bool) \<Rightarrow> 'b list \<Rightarrow> nat" where
  "walk stop [] = 0"
| "walk stop (cur # rest) = (if stop cur then 0 else Suc (walk stop rest))"

definition get_next_ptr_and_hash ::
    "('a \<Rightarrow> u32) \<Rightarrow> ('a \<Rightarrow> 'a \<Rightarrow> int) \<Rightarrow> 'a lhash \<Rightarrow> 'a \<Rightarrow> u32 \<times> nat \<times> nat" where
  "get_next_ptr_and_hash call_hash_func call_cmp_func lh data =
    (let hash = call_hash_func data; i = unat hash mod num_buckets lh
     in (hash, i, walk (\<lambda>cur. call_cmp_func (item_data cur) data = 0) (buckets lh ! i)))"

definition get_next_ptr_by_key ::
    "'a lhash \<Rightarrow> 'k \<Rightarrow> u32 \<Rightarrow> ('k \<Rightarrow> 'a \<Rightarrow> int) \<Rightarrow> nat \<times> nat" where
  "get_next_ptr_by_key lh key key_hash cmp_key =
    (let i = unat key_hash mod num_buckets lh
     in (i, walk (\<lambda>cur. cmp_key key (item_data cur) = 0) (buckets lh ! i)))"

definition item_at :: "'a lhash \<Rightarrow> nat \<Rightarrow> nat \<Rightarrow> 'a lhash_item option" where
  "item_at lh i j = (if j < length (buckets lh ! i) then Some (buckets lh ! i ! j) else None)"

definition lh_retrieve :: "('a \<Rightarrow> u32) \<Rightarrow> ('a \<Rightarrow> 'a \<Rightarrow> int) \<Rightarrow> 'a lhash \<Rightarrow> 'a \<Rightarrow> 'a option" where
  "lh_retrieve call_hash_func call_cmp_func lh data =
    (case get_next_ptr_and_hash call_hash_func call_cmp_func lh data of
       (_, i, j) \<Rightarrow> map_option item_data (item_at lh i j))"

definition lh_retrieve_key :: "'a lhash \<Rightarrow> 'k \<Rightarrow> u32 \<Rightarrow> ('k \<Rightarrow> 'a \<Rightarrow> int) \<Rightarrow> 'a option" where
  "lh_retrieve_key lh key key_hash cmp_key =
    (case get_next_ptr_by_key lh key key_hash cmp_key of
       (i, j) \<Rightarrow> map_option item_data (item_at lh i j))"

section \<open>Resizing\<close>

definition rebucket_item :: "nat \<Rightarrow> 'a lhash_item list list \<Rightarrow> 'a lhash_item \<Rightarrow> 'a lhash_item list list" where
  "rebucket_item n new_buckets cur =
    (let new_bucket = unat (item_hash cur) mod n
     in new_buckets[new_bucket := cur # new_buckets ! new_bucket])"

definition lh_rebucket :: "alloc \<Rightarrow> 'a lhash \<Rightarrow> nat \<Rightarrow> 'a lhash" where
  "lh_rebucket am lh new_num_buckets =
    (let alloc_size = size_mul 8 new_num_buckets
     in if alloc_size div 8 \<noteq> new_num_buckets then lh
        else case OPENSSL_malloc am alloc_size of None \<Rightarrow> lh
          | Some _ \<Rightarrow> lh\<lparr>num_buckets := new_num_buckets,
              buckets := foldl (foldl (rebucket_item new_num_buckets)) (replicate new_num_buckets []) (buckets lh)\<rparr>)"

definition lh_maybe_resize :: "alloc \<Rightarrow> 'a lhash \<Rightarrow> 'a lhash" where
  "lh_maybe_resize am lh =
    (if callback_depth lh > 0 then lh
     else let avg_chain_length = num_items lh div num_buckets lh
       in if avg_chain_length > kMaxAverageChainLength then
            let new_num_buckets = size_mul (num_buckets lh) 2
            in if new_num_buckets > num_buckets lh then lh_rebucket am lh new_num_buckets else lh
          else if avg_chain_length < kMinAverageChainLength \<and> num_buckets lh > kMinNumBuckets then
            let new_num_buckets = num_buckets lh div 2;
                new_num_buckets = (if new_num_buckets < kMinNumBuckets then kMinNumBuckets else new_num_buckets)
            in lh_rebucket am lh new_num_buckets
          else lh)"

section \<open>Insertion, deletion, iteration\<close>

text \<open>The table, \<open>*old_data\<close> and the result.\<close>

definition lh_insert :: "alloc \<Rightarrow> ('a \<Rightarrow> u32) \<Rightarrow> ('a \<Rightarrow> 'a \<Rightarrow> int) \<Rightarrow> 'a lhash \<Rightarrow> 'a \<Rightarrow> 'a lhash \<times> 'a option \<times> bool" where
  "lh_insert am call_hash_func call_cmp_func lh data =
    (case get_next_ptr_and_hash call_hash_func call_cmp_func lh data of (hash, i, j) \<Rightarrow>
       (case item_at lh i j of
          Some item \<Rightarrow>
            (lh\<lparr>buckets := (buckets lh)[i := (buckets lh ! i)[j := item\<lparr>item_data := data\<rparr>]]\<rparr>,
             Some (item_data item), True)
        | None \<Rightarrow>
            (case OPENSSL_malloc am 24 of None \<Rightarrow> (lh, None, False)
             | Some _ \<Rightarrow>
                 (lh_maybe_resize am
                    (lh\<lparr>buckets := (buckets lh)[i := buckets lh ! i @ [\<lparr>item_data = data, item_hash = hash\<rparr>]],
                        num_items := num_items lh + 1\<rparr>),
                  None, True))))"

definition lh_delete :: "alloc \<Rightarrow> ('a \<Rightarrow> u32) \<Rightarrow> ('a \<Rightarrow> 'a \<Rightarrow> int) \<Rightarrow> 'a lhash \<Rightarrow> 'a \<Rightarrow> 'a lhash \<times> 'a option" where
  "lh_delete am call_hash_func call_cmp_func lh data =
    (case get_next_ptr_and_hash call_hash_func call_cmp_func lh data of (_, i, j) \<Rightarrow>
       (case item_at lh i j of
          None \<Rightarrow> (lh, None)
        | Some item \<Rightarrow>
            (lh_maybe_resize am
               (lh\<lparr>buckets := (buckets lh)[i := take j (buckets lh ! i) @ drop (Suc j) (buckets lh ! i)],
                   num_items := num_items lh - 1\<rparr>),
             Some (item_data item))))"

definition UINT_MAX :: nat where "UINT_MAX = 4294967295"

text \<open>The callback works on a state of its own and leaves the table alone.\<close>

definition lh_doall_arg :: "alloc \<Rightarrow> 'a lhash \<Rightarrow> ('a \<Rightarrow> 's \<Rightarrow> 's) \<Rightarrow> 's \<Rightarrow> 'a lhash \<times> 's" where
  "lh_doall_arg am lh func arg =
    (let lh = (if callback_depth lh < UINT_MAX then lh\<lparr>callback_depth := callback_depth lh + 1\<rparr> else lh);
         arg = foldl (foldl (\<lambda>arg cur. func (item_data cur) arg)) arg (buckets lh);
         lh = (if callback_depth lh < UINT_MAX then lh\<lparr>callback_depth := callback_depth lh - 1\<rparr> else lh)
     in (lh_maybe_resize am lh, arg))"

text \<open>The items given back to the allocator, in the order of the calls.\<close>

definition lh_free :: "'a lhash option \<Rightarrow> 'a lhash_item list" where
  "lh_free lh = (case lh of None \<Rightarrow> []
     | Some lh \<Rightarrow> foldl (foldl (\<lambda>freed n. freed @ [n])) [] (buckets lh))"

definition lh_strhash :: "bytes option \<Rightarrow> u32" where
  "lh_strhash c = (case c of None \<Rightarrow> 0 | Some c \<Rightarrow> OPENSSL_hash32 (take (cstrlen c) c))"

section \<open>The contract and the contents\<close>

locale hashing =
  fixes hash :: "'a \<Rightarrow> u32" and cmp :: "'a \<Rightarrow> 'a \<Rightarrow> int"
  assumes cmp_refl: "cmp x x = 0"
    and cmp_sym: "cmp x y = 0 \<Longrightarrow> cmp y x = 0"
    and cmp_trans: "cmp x y = 0 \<Longrightarrow> cmp y z = 0 \<Longrightarrow> cmp x z = 0"
    and cmp_hash: "cmp x y = 0 \<Longrightarrow> hash x = hash y"

text \<open>The elements of a table, and the invariant: every item is in the chain of its cached hash, the
  counters are right, and no two elements are equal.\<close>

definition elems :: "'a lhash \<Rightarrow> 'a multiset" where
  "elems lh = mset (map item_data (concat (buckets lh)))"

definition chained :: "('a \<Rightarrow> u32) \<Rightarrow> 'a lhash_item list list \<Rightarrow> bool" where
  "chained hash bs \<longleftrightarrow> (\<forall>i < length bs. \<forall>it \<in> set (bs ! i).
     item_hash it = hash (item_data it) \<and> unat (item_hash it) mod length bs = i)"

definition unique :: "('a \<Rightarrow> 'a \<Rightarrow> int) \<Rightarrow> 'a multiset \<Rightarrow> bool" where
  "unique cmp M \<longleftrightarrow> (\<forall>x. size (filter_mset (\<lambda>y. cmp y x = 0) M) \<le> 1)"

definition lh_ok :: "('a \<Rightarrow> u32) \<Rightarrow> ('a \<Rightarrow> 'a \<Rightarrow> int) \<Rightarrow> 'a lhash \<Rightarrow> bool" where
  "lh_ok hash cmp lh \<longleftrightarrow> length (buckets lh) = num_buckets lh \<and> 16 \<le> num_buckets lh \<and>
     num_items lh = size (elems lh) \<and> chained hash (buckets lh) \<and> unique cmp (elems lh)"

lemma lh_okD:
  assumes "lh_ok hash cmp lh"
  shows "length (buckets lh) = num_buckets lh" "16 \<le> num_buckets lh" "num_items lh = size (elems lh)"
    "chained hash (buckets lh)" "unique cmp (elems lh)"
  using assms by (simp_all add: lh_ok_def)

lemma unique_mono: "unique cmp M \<Longrightarrow> N \<subseteq># M \<Longrightarrow> unique cmp N"
  unfolding unique_def by (meson le_trans multiset_filter_mono size_mset_mono)

lemma unique_eq: "unique cmp M \<Longrightarrow> x \<in># M \<Longrightarrow> y \<in># M \<Longrightarrow> cmp x d = 0 \<Longrightarrow> cmp y d = 0 \<Longrightarrow> x = y"
proof (rule ccontr)
  assume a: "unique cmp M" "x \<in># M" "y \<in># M" "cmp x d = 0" "cmp y d = 0" "x \<noteq> y"
  then have "{#x, y#} \<subseteq># filter_mset (\<lambda>y. cmp y d = 0) M"
    by (subst subseteq_mset_def) (auto simp: count_eq_zero_iff Suc_le_eq)
  then have "2 \<le> size (filter_mset (\<lambda>y. cmp y d = 0) M)" using size_mset_mono by fastforce
  with a(1) show False unfolding unique_def by (metis not_less_eq_eq numeral_2_eq_2 One_nat_def)
qed

lemma walk_le: "walk P xs \<le> length xs"
  by (induction xs) auto

lemma walk_hit: "walk P xs < length xs \<Longrightarrow> P (xs ! walk P xs)"
  by (induction xs) auto

lemma walk_miss: "\<not> walk P xs < length xs \<longleftrightarrow> (\<forall>x\<in>set xs. \<not> P x)"
  by (induction xs) auto

lemma mset_concat_update:
  "i < length bs \<Longrightarrow> mset (concat (bs[i := c])) + mset (bs ! i) = mset (concat bs) + mset c"
proof (induction bs arbitrary: i)
  case (Cons b bs)
  then show ?case by (cases i) (simp_all add: ac_simps)
qed simp

lemma elems_update:
  "i < length (buckets lh) \<Longrightarrow>
    elems (lh\<lparr>buckets := (buckets lh)[i := c]\<rparr>) + image_mset item_data (mset (buckets lh ! i)) =
    elems lh + image_mset item_data (mset c)"
  unfolding elems_def mset_map using arg_cong [OF mset_concat_update [of i "buckets lh" c], of "image_mset item_data"] by simp

lemma chained_update:
  "chained hash bs \<Longrightarrow> (\<And>it. it \<in> set c \<Longrightarrow> item_hash it = hash (item_data it) \<and> unat (item_hash it) mod length bs = i) \<Longrightarrow>
    chained hash (bs[i := c])"
  unfolding chained_def length_list_update by (metis nth_list_update_eq nth_list_update_neq)

lemma in_concat: "it \<in> set (concat bs) \<longleftrightarrow> (\<exists>i < length bs. it \<in> set (bs ! i))"
proof
  assume "it \<in> set (concat bs)"
  then obtain c where "c \<in> set bs" "it \<in> set c" by auto
  then show "\<exists>i < length bs. it \<in> set (bs ! i)" by (metis in_set_conv_nth)
next
  assume "\<exists>i < length bs. it \<in> set (bs ! i)"
  then show "it \<in> set (concat bs)" using nth_mem by fastforce
qed

lemma elem_in_chain:
  assumes "chained hash bs" "x \<in># mset (map item_data (concat bs))"
  shows "\<exists>it \<in> set (bs ! (unat (hash x) mod length bs)). item_data it = x"
proof -
  obtain it where "it \<in> set (concat bs)" "item_data it = x" using assms(2) by auto
  then obtain i where "i < length bs" "it \<in> set (bs ! i)" "item_data it = x" unfolding in_concat by blast
  moreover from this have "unat (hash x) mod length bs = i" using assms(1) unfolding chained_def by metis
  ultimately show ?thesis by blast
qed

lemma chain_in_elems: "i < length (buckets lh) \<Longrightarrow> it \<in> set (buckets lh ! i) \<Longrightarrow> item_data it \<in># elems lh"
proof -
  assume "i < length (buckets lh)" "it \<in> set (buckets lh ! i)"
  then have "it \<in> set (concat (buckets lh))" unfolding in_concat by blast
  then show ?thesis by (simp add: elems_def)
qed

section \<open>Resizing keeps the contents\<close>

lemma foldl_concat_lists: "foldl (foldl f) a xss = foldl f a (concat xss)"
  by (induction xss arbitrary: a) auto

lemma rebucket_fold:
  assumes "0 < n" "length nb = n" "chained hash nb" "\<forall>it\<in>set its. item_hash it = hash (item_data it)"
  shows "length (foldl (rebucket_item n) nb its) = n" "chained hash (foldl (rebucket_item n) nb its)"
    "mset (concat (foldl (rebucket_item n) nb its)) = mset (concat nb) + mset its"
proof -
  have "length (foldl (rebucket_item n) nb its) = n \<and> chained hash (foldl (rebucket_item n) nb its) \<and>
    mset (concat (foldl (rebucket_item n) nb its)) = mset (concat nb) + mset its"
    using assms(2-4)
  proof (induction its arbitrary: nb)
    case (Cons it its)
    let ?k = "unat (item_hash it) mod n"
    have k: "?k < length nb" using assms(1) Cons.prems(1) by simp
    have "chained hash (rebucket_item n nb it)" unfolding rebucket_item_def Let_def
    proof (rule chained_update [OF Cons.prems(2)])
      show "item_hash x = hash (item_data x) \<and> unat (item_hash x) mod length nb = ?k" if "x \<in> set (it # nb ! ?k)" for x
        using that k Cons.prems unfolding chained_def by auto
    qed
    moreover have "length (rebucket_item n nb it) = n" using Cons.prems(1) by (simp add: rebucket_item_def Let_def)
    moreover have "mset (concat (rebucket_item n nb it)) = add_mset it (mset (concat nb))"
      using mset_concat_update [OF k, of "it # nb ! ?k"] by (simp add: rebucket_item_def Let_def)
    ultimately show ?case using Cons.IH [of "rebucket_item n nb it"] Cons.prems(3) by simp
  qed simp
  then show "length (foldl (rebucket_item n) nb its) = n" "chained hash (foldl (rebucket_item n) nb its)"
    "mset (concat (foldl (rebucket_item n) nb its)) = mset (concat nb) + mset its" by blast+
qed

lemma lh_rebucket_ok:
  assumes "lh_ok hash cmp lh" "16 \<le> n"
  shows "lh_ok hash cmp (lh_rebucket am lh n)" "elems (lh_rebucket am lh n) = elems lh"
    "callback_depth (lh_rebucket am lh n) = callback_depth lh"
proof -
  note ok = lh_okD [OF assms(1)]
  let ?nb = "foldl (foldl (rebucket_item n)) (replicate n []) (buckets lh)"
  have h: "\<forall>it\<in>set (concat (buckets lh)). item_hash it = hash (item_data it)"
    using ok(4) by (auto simp: chained_def in_concat simp del: set_concat)
  have c: "chained hash (replicate n [])" by (simp add: chained_def)
  have nb: "length ?nb = n" "chained hash ?nb" "mset (concat ?nb) = mset (concat (buckets lh))"
    using rebucket_fold [OF _ _ c h] assms(2) by (simp_all add: foldl_concat_lists)
  have e: "elems (lh\<lparr>num_buckets := n, buckets := ?nb\<rparr>) = elems lh" using nb(3) by (simp add: elems_def)
  then have "lh_ok hash cmp (lh\<lparr>num_buckets := n, buckets := ?nb\<rparr>)" using ok assms(2) nb(1,2) by (simp add: lh_ok_def)
  with e assms(1) show "lh_ok hash cmp (lh_rebucket am lh n)" "elems (lh_rebucket am lh n) = elems lh"
    "callback_depth (lh_rebucket am lh n) = callback_depth lh"
    by (auto simp: lh_rebucket_def Let_def split: option.split)
qed

lemma lh_maybe_resize_ok:
  assumes "lh_ok hash cmp lh"
  shows "lh_ok hash cmp (lh_maybe_resize am lh)" "elems (lh_maybe_resize am lh) = elems lh"
    "callback_depth (lh_maybe_resize am lh) = callback_depth lh"
  using lh_rebucket_ok [OF assms, of _ am] assms lh_okD(2) [OF assms]
  by (auto simp: lh_maybe_resize_def Let_def kMinNumBuckets_def)

section \<open>Lookup\<close>

context hashing
begin

text \<open>Where the search stops.\<close>

lemma get_next_ptr:
  assumes "lh_ok hash cmp lh" "get_next_ptr_and_hash hash cmp lh d = (h, i, j)"
  shows "h = hash d" "i = unat (hash d) mod num_buckets lh" "i < length (buckets lh)"
    "item_at lh i j = Some it \<Longrightarrow> cmp (item_data it) d = 0 \<and> it \<in> set (buckets lh ! i) \<and> j < length (buckets lh ! i) \<and>
      it = buckets lh ! i ! j"
    "item_at lh i j = None \<Longrightarrow> j = length (buckets lh ! i) \<and> (\<forall>x \<in># elems lh. cmp x d \<noteq> 0)"
proof -
  note ok = lh_okD [OF assms(1)]
  let ?P = "\<lambda>cur. cmp (item_data cur) d = 0"
  show e: "h = hash d" "i = unat (hash d) mod num_buckets lh"
    using assms(2) by (auto simp: get_next_ptr_and_hash_def Let_def)
  have j: "j = walk ?P (buckets lh ! i)"
    using assms(2) by (auto simp: get_next_ptr_and_hash_def Let_def)
  show "i < length (buckets lh)" using ok(1,2) e(2) by simp
  show "cmp (item_data it) d = 0 \<and> it \<in> set (buckets lh ! i) \<and> j < length (buckets lh ! i) \<and>
      it = buckets lh ! i ! j" if "item_at lh i j = Some it"
    using that walk_hit [of ?P "buckets lh ! i"] by (auto simp: item_at_def j split: if_splits)
  show "j = length (buckets lh ! i) \<and> (\<forall>x \<in># elems lh. cmp x d \<noteq> 0)" if "item_at lh i j = None"
  proof -
    have n: "\<not> walk ?P (buckets lh ! i) < length (buckets lh ! i)" using that by (simp add: item_at_def j split: if_splits)
    have "cmp x d \<noteq> 0" if "x \<in># elems lh" for x
    proof
      assume "cmp x d = 0"
      then have "hash x = hash d" by (rule cmp_hash)
      then obtain it where "it \<in> set (buckets lh ! i)" "item_data it = x"
        using elem_in_chain [OF ok(4), of x] \<open>x \<in># elems lh\<close> by (auto simp: elems_def e(2) ok(1))
      with n \<open>cmp x d = 0\<close> show False by (auto simp: walk_miss)
    qed
    with n walk_le [of ?P "buckets lh ! i"] show ?thesis by (simp add: j)
  qed
qed

lemma lh_retrieve_iff:
  assumes "lh_ok hash cmp lh"
  shows "lh_retrieve hash cmp lh d = Some x \<longleftrightarrow> x \<in># elems lh \<and> cmp x d = 0"
proof -
  obtain h i j where g: "get_next_ptr_and_hash hash cmp lh d = (h, i, j)" by (metis prod_cases3)
  note p = get_next_ptr [OF assms g]
  show ?thesis
  proof (cases "item_at lh i j")
    case None
    then show ?thesis using p(5) by (auto simp: lh_retrieve_def g)
  next
    case (Some it)
    have "cmp (item_data it) d = 0" "item_data it \<in># elems lh"
      using p(3) p(4) [OF Some] chain_in_elems [of i lh it] by blast+
    then show ?thesis
      using unique_eq [OF lh_okD(5) [OF assms], of "item_data it" x d]
      unfolding lh_retrieve_def g prod.case Some option.map by auto
  qed
qed

lemma lh_retrieve_None:
  assumes "lh_ok hash cmp lh"
  shows "lh_retrieve hash cmp lh d = None \<longleftrightarrow> (\<forall>x \<in># elems lh. cmp x d \<noteq> 0)"
  using lh_retrieve_iff [OF assms, of d] by (cases "lh_retrieve hash cmp lh d") auto

end

section \<open>Insertion and deletion\<close>

context hashing
begin

lemma cmp_cong: "cmp x d = 0 \<Longrightarrow> cmp d z = 0 \<longleftrightarrow> cmp x z = 0"
  using cmp_sym cmp_trans by blast

lemma unique_replace:
  assumes "unique cmp M" "x \<in># M" "cmp x d = 0"
  shows "unique cmp (add_mset d (M - {#x#}))"
proof -
  obtain N where M: "M = add_mset x N" using assms(2) by (metis insert_DiffM)
  have "size (filter_mset (\<lambda>y. cmp y z = 0) (add_mset d N)) = size (filter_mset (\<lambda>y. cmp y z = 0) (add_mset x N))" for z
    using cmp_cong [OF assms(3), of z] by (cases "cmp x z = 0") simp_all
  then show ?thesis using assms(1) unfolding unique_def M by simp
qed

lemma unique_add:
  assumes "unique cmp M" "\<forall>x \<in># M. cmp x d \<noteq> 0"
  shows "unique cmp (add_mset d M)"
  unfolding unique_def
proof
  fix z
  show "size (filter_mset (\<lambda>y. cmp y z = 0) (add_mset d M)) \<le> 1"
  proof (cases "cmp d z = 0")
    case True
    have "cmp y z \<noteq> 0" if "y \<in># M" for y using assms(2) that True cmp_sym cmp_trans by blast
    then have "filter_mset (\<lambda>y. cmp y z = 0) M = {#}" by auto
    then show ?thesis using True by simp
  next
    case False
    then show ?thesis using assms(1) by (simp add: unique_def)
  qed
qed

lemma lh_insert_ok:
  assumes "lh_ok hash cmp lh" "lh_insert am hash cmp lh d = (lh', old, r)"
  shows "lh_ok hash cmp lh'" "old = lh_retrieve hash cmp lh d"
    "elems lh' = (if r then add_mset d (elems lh - (case old of None \<Rightarrow> {#} | Some x \<Rightarrow> {#x#})) else elems lh)"
    "\<not> r \<Longrightarrow> lh' = lh \<and> old = None \<and> OPENSSL_malloc am 24 = None"
proof -
  note ok = lh_okD [OF assms(1)]
  obtain h i j where g: "get_next_ptr_and_hash hash cmp lh d = (h, i, j)" by (metis prod_cases3)
  note p = get_next_ptr [OF assms(1) g]
  let ?chain = "buckets lh ! i"
  have "lh_ok hash cmp lh' \<and> old = lh_retrieve hash cmp lh d \<and>
    elems lh' = (if r then add_mset d (elems lh - (case old of None \<Rightarrow> {#} | Some x \<Rightarrow> {#x#})) else elems lh) \<and>
    (\<not> r \<longrightarrow> lh' = lh \<and> old = None \<and> OPENSSL_malloc am 24 = None)"
  proof (cases "item_at lh i j")
    case (Some it)
    note it = p(4) [OF Some]
    define lh1 where "lh1 = lh\<lparr>buckets := (buckets lh)[i := ?chain[j := it\<lparr>item_data := d\<rparr>]]\<rparr>"
    have l: "lh' = lh1" "old = Some (item_data it)" r
      using assms(2) Some by (simp_all add: lh_insert_def g lh1_def)
    have bs: "buckets lh1 = (buckets lh)[i := ?chain[j := it\<lparr>item_data := d\<rparr>]]" by (simp add: lh1_def)
    have re: "lh_retrieve hash cmp lh d = Some (item_data it)" using Some by (simp add: lh_retrieve_def g)
    have mem: "item_data it \<in># elems lh" using chain_in_elems p(3) it by blast
    have "elems lh1 + image_mset item_data (mset ?chain) = elems lh + image_mset item_data (mset (?chain[j := it\<lparr>item_data := d\<rparr>]))"
      unfolding lh1_def by (rule elems_update [OF p(3)])
    also have "image_mset item_data (mset (?chain[j := it\<lparr>item_data := d\<rparr>])) =
        add_mset d (image_mset item_data (mset ?chain) - {#item_data it#})"
      using it by (simp add: mset_update image_mset_Diff)
    finally have "elems lh1 = add_mset d (elems lh - {#item_data it#})"
      using mem it by (auto dest!: multi_member_split)
    moreover from this have "unique cmp (elems lh1)" using unique_replace [OF ok(5) mem] it by metis
    moreover have "chained hash (buckets lh1)" unfolding bs
    proof (rule chained_update [OF ok(4)])
      have ch: "item_hash x = hash (item_data x) \<and> unat (item_hash x) mod length (buckets lh) = i" if "x \<in> set ?chain" for x
        using ok(4) p(3) that unfolding chained_def by blast
      show "item_hash x = hash (item_data x) \<and> unat (item_hash x) mod length (buckets lh) = i"
        if "x \<in> set (?chain[j := it\<lparr>item_data := d\<rparr>])" for x
      proof -
        have "x = it\<lparr>item_data := d\<rparr> \<or> x \<in> set ?chain" using that set_update_subset_insert by fastforce
        then show ?thesis using ch [of x] ch [of it] it cmp_hash [of "item_data it" d] by auto
      qed
    qed
    moreover have "size (elems lh1) = size (elems lh)"
      using mem by (auto simp: calculation(1) dest!: multi_member_split)
    ultimately show ?thesis using l re ok by (simp add: lh_ok_def lh1_def)
  next
    case None
    note it = p(5) [OF None]
    have re: "lh_retrieve hash cmp lh d = None" using None by (simp add: lh_retrieve_def g)
    show ?thesis
    proof (cases "OPENSSL_malloc am 24")
      case m: None
      then show ?thesis using assms None re by (auto simp: lh_insert_def g)
    next
      case m: (Some b)
      define lh1 where "lh1 = lh\<lparr>buckets := (buckets lh)[i := ?chain @ [\<lparr>item_data = d, item_hash = h\<rparr>]],
          num_items := num_items lh + 1\<rparr>"
      have l: "lh' = lh_maybe_resize am lh1" "old = None" r
        using assms(2) None m by (simp_all add: lh_insert_def g lh1_def)
      have "elems (lh\<lparr>buckets := (buckets lh)[i := ?chain @ [\<lparr>item_data = d, item_hash = h\<rparr>]]\<rparr>) +
          image_mset item_data (mset ?chain) =
          elems lh + image_mset item_data (mset (?chain @ [\<lparr>item_data = d, item_hash = h\<rparr>]))"
        by (rule elems_update [OF p(3)])
      then have e: "elems lh1 = add_mset d (elems lh)" by (simp add: lh1_def elems_def)
      have bs: "buckets lh1 = (buckets lh)[i := ?chain @ [\<lparr>item_data = d, item_hash = h\<rparr>]]" by (simp add: lh1_def)
      have "unique cmp (elems lh1)" unfolding e using unique_add [OF ok(5)] it by blast
      moreover have "chained hash (buckets lh1)" unfolding bs
        by (rule chained_update [OF ok(4)]) (use ok(1,4) p(1-3) in \<open>auto simp: chained_def\<close>)
      ultimately have "lh_ok hash cmp lh1" using ok e by (simp add: lh_ok_def lh1_def)
      then show ?thesis using l e re lh_maybe_resize_ok [of hash cmp lh1 am] by simp
    qed
  qed
  then show "lh_ok hash cmp lh'" "old = lh_retrieve hash cmp lh d"
    "elems lh' = (if r then add_mset d (elems lh - (case old of None \<Rightarrow> {#} | Some x \<Rightarrow> {#x#})) else elems lh)"
    "\<not> r \<Longrightarrow> lh' = lh \<and> old = None \<and> OPENSSL_malloc am 24 = None" by blast+
qed

lemma lh_delete_ok:
  assumes "lh_ok hash cmp lh" "lh_delete am hash cmp lh d = (lh', old)"
  shows "lh_ok hash cmp lh'" "old = lh_retrieve hash cmp lh d"
    "elems lh' = elems lh - (case old of None \<Rightarrow> {#} | Some x \<Rightarrow> {#x#})"
proof -
  note ok = lh_okD [OF assms(1)]
  obtain h i j where g: "get_next_ptr_and_hash hash cmp lh d = (h, i, j)" by (metis prod_cases3)
  note p = get_next_ptr [OF assms(1) g]
  let ?chain = "buckets lh ! i"
  have "lh_ok hash cmp lh' \<and> old = lh_retrieve hash cmp lh d \<and>
    elems lh' = elems lh - (case old of None \<Rightarrow> {#} | Some x \<Rightarrow> {#x#})"
  proof (cases "item_at lh i j")
    case None
    have re: "lh_retrieve hash cmp lh d = None" using None by (simp add: lh_retrieve_def g)
    have "lh' = lh \<and> old = None" using assms(2) None by (simp add: lh_delete_def g)
    then show ?thesis using assms(1) unfolding re by (elim conjE) (simp only: option.case diff_empty simp_thms)
  next
    case (Some it)
    note it = p(4) [OF Some]
    let ?rest = "take j ?chain @ drop (Suc j) ?chain"
    define lh1 where "lh1 = lh\<lparr>buckets := (buckets lh)[i := ?rest], num_items := num_items lh - 1\<rparr>"
    have l: "lh' = lh_maybe_resize am lh1" "old = Some (item_data it)"
      using assms(2) Some by (simp_all add: lh_delete_def g lh1_def)
    have re: "lh_retrieve hash cmp lh d = Some (item_data it)" using Some by (simp add: lh_retrieve_def g)
    have mem: "item_data it \<in># elems lh" using chain_in_elems p(3) it by blast
    have s: "?chain = take j ?chain @ it # drop (Suc j) ?chain" using it id_take_nth_drop by blast
    have m: "mset ?chain = add_mset it (mset ?rest)" by (subst s) simp
    have "elems (lh\<lparr>buckets := (buckets lh)[i := ?rest]\<rparr>) + image_mset item_data (mset ?chain) =
        elems lh + image_mset item_data (mset ?rest)" by (rule elems_update [OF p(3)])
    then have rest: "add_mset (item_data it) (elems (lh\<lparr>buckets := (buckets lh)[i := ?rest]\<rparr>)) = elems lh"
      unfolding m image_mset_add_mset by simp
    have bs: "buckets lh1 = (buckets lh)[i := ?rest]" by (simp add: lh1_def)
    have "elems lh1 = elems (lh\<lparr>buckets := (buckets lh)[i := ?rest]\<rparr>)" by (simp add: lh1_def elems_def)
    with rest have e: "elems lh1 = elems lh - {#item_data it#}" by (metis add_mset_remove_trivial)
    have "unique cmp (elems lh1)" unfolding e using unique_mono [OF ok(5)] by simp
    moreover have "chained hash (buckets lh1)" unfolding bs
    proof (rule chained_update [OF ok(4)])
      show "item_hash x = hash (item_data x) \<and> unat (item_hash x) mod length (buckets lh) = i" if "x \<in> set ?rest" for x
      proof -
        have "x \<in> set ?chain" using that by (auto dest: in_set_takeD in_set_dropD)
        then show ?thesis using ok(4) p(3) unfolding chained_def by blast
      qed
    qed
    moreover have "size (elems lh1) = size (elems lh) - 1" using mem by (simp add: e size_Diff_singleton)
    ultimately have "lh_ok hash cmp lh1" using ok e by (simp add: lh_ok_def lh1_def)
    then show ?thesis using l e re lh_maybe_resize_ok [of hash cmp lh1 am] by simp
  qed
  then show "lh_ok hash cmp lh'" "old = lh_retrieve hash cmp lh d"
    "elems lh' = elems lh - (case old of None \<Rightarrow> {#} | Some x \<Rightarrow> {#x#})" by blast+
qed

text \<open>The laws of a map from classes of equal elements.\<close>

lemma lh_retrieve_elems:
  assumes "lh_ok hash cmp lh" "lh_ok hash cmp lh'" "\<And>x. cmp x d = 0 \<Longrightarrow> x \<in># elems lh' \<longleftrightarrow> x \<in># elems lh"
  shows "lh_retrieve hash cmp lh' d = lh_retrieve hash cmp lh d"
proof -
  have "lh_retrieve hash cmp lh' d = Some x \<longleftrightarrow> lh_retrieve hash cmp lh d = Some x" for x
    using assms(3) by (auto simp: lh_retrieve_iff [OF assms(1)] lh_retrieve_iff [OF assms(2)])
  then show ?thesis by (metis option.exhaust)
qed

lemma removed_class:
  assumes "lh_ok hash cmp lh" "lh_retrieve hash cmp lh d = old" "x \<in># elems lh - (case old of None \<Rightarrow> {#} | Some x \<Rightarrow> {#x#})"
  shows "x \<in># elems lh" "cmp x d \<noteq> 0"
proof -
  show m: "x \<in># elems lh" using assms(3) in_diffD by fastforce
  show "cmp x d \<noteq> 0"
  proof (cases old)
    case None
    then show ?thesis using lh_retrieve_None [OF assms(1)] assms(2) m by blast
  next
    case (Some y)
    then have y: "y \<in># elems lh" "cmp y d = 0" using assms(1,2) lh_retrieve_iff by blast+
    show ?thesis
    proof
      assume "cmp x d = 0"
      then have "x = y" using unique_eq [OF lh_okD(5) [OF assms(1)] m y(1)] y(2) by simp
      then have "2 \<le> count (elems lh) y" using assms(3) Some by (simp add: in_diff_count)
      then have "{#y, y#} \<subseteq># filter_mset (\<lambda>y. cmp y d = 0) (elems lh)" using y(2) by (simp add: subseteq_mset_def)
      then have "2 \<le> size (filter_mset (\<lambda>y. cmp y d = 0) (elems lh))" using size_mset_mono by fastforce
      moreover have "size (filter_mset (\<lambda>y. cmp y d = 0) (elems lh)) \<le> 1"
        using lh_okD(5) [OF assms(1)] unfolding unique_def by blast
      ultimately show False by simp
    qed
  qed
qed

lemma kept_class:
  assumes "lh_ok hash cmp lh" "lh_retrieve hash cmp lh d = old" "cmp x d' = 0" "cmp d d' \<noteq> 0"
  shows "x \<in># elems lh - (case old of None \<Rightarrow> {#} | Some x \<Rightarrow> {#x#}) \<longleftrightarrow> x \<in># elems lh"
proof (cases old)
  case (Some y)
  then have "cmp y d = 0" using assms(1,2) lh_retrieve_iff by blast
  then have "x \<noteq> y" using assms(3,4) cmp_cong by blast
  then show ?thesis using Some by (simp add: in_diff_count)
qed simp

lemma lh_insert_map:
  assumes "lh_ok hash cmp lh" "lh_insert am hash cmp lh d = (lh', old, True)"
  shows "lh_retrieve hash cmp lh' d' = (if cmp d d' = 0 then Some d else lh_retrieve hash cmp lh d')"
proof -
  note i = lh_insert_ok [OF assms]
  show ?thesis
  proof (cases "cmp d d' = 0")
    case True
    then show ?thesis using i(3) by (simp add: lh_retrieve_iff [OF i(1)])
  next
    case False
    have "x \<in># elems lh' \<longleftrightarrow> x \<in># elems lh" if "cmp x d' = 0" for x
      using kept_class [OF assms(1) i(2) [symmetric] that False] that False i(3) by auto
    then show ?thesis using False lh_retrieve_elems [OF assms(1) i(1)] by simp
  qed
qed

lemma lh_delete_map:
  assumes "lh_ok hash cmp lh" "lh_delete am hash cmp lh d = (lh', old)"
  shows "lh_retrieve hash cmp lh' d' = (if cmp d d' = 0 then None else lh_retrieve hash cmp lh d')"
proof -
  note i = lh_delete_ok [OF assms]
  show ?thesis
  proof (cases "cmp d d' = 0")
    case True
    have "cmp x d' \<noteq> 0" if "x \<in># elems lh'" for x
      using removed_class(2) [OF assms(1) i(2) [symmetric], of x] that i(3) True cmp_sym cmp_trans by metis
    then show ?thesis using True by (simp add: lh_retrieve_None [OF i(1)])
  next
    case False
    have "x \<in># elems lh' \<longleftrightarrow> x \<in># elems lh" if "cmp x d' = 0" for x
      using kept_class [OF assms(1) i(2) [symmetric] that False] i(3) by simp
    then show ?thesis using False lh_retrieve_elems [OF assms(1) i(1)] by simp
  qed
qed

end

section \<open>Iteration\<close>

lemma lh_doall_arg_eq:
  "callback_depth lh = 0 \<Longrightarrow> lh_doall_arg am lh func arg =
    (lh_maybe_resize am lh, fold func (map item_data (concat (buckets lh))) arg)"
proof (cases lh)
  case (fields a b c d)
  moreover assume "callback_depth lh = 0"
  ultimately show ?thesis
    unfolding lh_doall_arg_def foldl_concat_lists by (simp add: Let_def UINT_MAX_def foldl_conv_fold fold_map comp_def)
qed

lemma lh_free_Some: "lh_free (Some lh) = concat (buckets lh)"
proof -
  have "foldl (\<lambda>freed n. freed @ [n]) a xs = a @ xs" for a xs :: "'a lhash_item list"
    by (induction xs arbitrary: a) auto
  then show ?thesis by (simp add: lh_free_def foldl_concat_lists)
qed

lemma unique_distinct:
  assumes "unique cmp (mset xs)" "\<And>x. cmp x x = 0"
  shows "distinct xs"
proof (rule ccontr)
  assume "\<not> distinct xs"
  then obtain as bs cs y where xs: "xs = as @ [y] @ bs @ [y] @ cs" using not_distinct_decomp by blast
  have "size (filter_mset (\<lambda>x. cmp x y = 0) (mset xs)) \<le> 1" using assms(1) by (simp add: unique_def)
  then show False by (simp add: xs assms(2))
qed

section \<open>Sequences of operations\<close>

text \<open>A client's run: each operation meets the allocator as it is then. The outputs are the old value
  and whether the call succeeded.\<close>

datatype 'a lh_op = Insert 'a | Delete 'a | Doall

definition lh_step :: "('a \<Rightarrow> u32) \<Rightarrow> ('a \<Rightarrow> 'a \<Rightarrow> int) \<Rightarrow> alloc \<times> 'a lh_op \<Rightarrow> 'a lhash \<Rightarrow> 'a lhash \<times> 'a option \<times> bool" where
  "lh_step hash cmp call lh = (case call of (am, op) \<Rightarrow> (case op of
       Insert d \<Rightarrow> lh_insert am hash cmp lh d
     | Delete d \<Rightarrow> (case lh_delete am hash cmp lh d of (lh, old) \<Rightarrow> (lh, old, True))
     | Doall \<Rightarrow> (fst (lh_doall_arg am lh (\<lambda>_ s. s) ()), None, True)))"

fun lh_run :: "('a \<Rightarrow> u32) \<Rightarrow> ('a \<Rightarrow> 'a \<Rightarrow> int) \<Rightarrow> (alloc \<times> 'a lh_op) list \<Rightarrow> 'a lhash \<Rightarrow> 'a lhash \<times> ('a option \<times> bool) list" where
  "lh_run hash cmp [] lh = (lh, [])"
| "lh_run hash cmp (c # cs) lh = (case lh_step hash cmp c lh of (lh, out) \<Rightarrow>
     (case lh_run hash cmp cs lh of (lh, outs) \<Rightarrow> (lh, out # outs)))"

text \<open>The specification: a partial function that equal keys cannot tell apart.\<close>

definition map_step :: "('a \<Rightarrow> 'a \<Rightarrow> int) \<Rightarrow> 'a lh_op \<Rightarrow> bool \<Rightarrow> ('a \<Rightarrow> 'a option) \<Rightarrow> ('a \<Rightarrow> 'a option) \<times> 'a option" where
  "map_step cmp op ok m = (case op of
       Insert d \<Rightarrow> if ok then (\<lambda>x. if cmp d x = 0 then Some d else m x, m d) else (m, None)
     | Delete d \<Rightarrow> (\<lambda>x. if cmp d x = 0 then None else m x, m d)
     | Doall \<Rightarrow> (m, None))"

fun map_run :: "('a \<Rightarrow> 'a \<Rightarrow> int) \<Rightarrow> ('a lh_op \<times> bool) list \<Rightarrow> ('a \<Rightarrow> 'a option) \<Rightarrow> ('a \<Rightarrow> 'a option) \<times> 'a option list" where
  "map_run cmp [] m = (m, [])"
| "map_run cmp ((op, ok) # ops) m = (case map_step cmp op ok m of (m, out) \<Rightarrow>
     (case map_run cmp ops m of (m, outs) \<Rightarrow> (m, out # outs)))"

lemma lh_new_ok:
  assumes "lh_new am = Some lh"
  shows "lh_ok hash cmp lh" "elems lh = {#}" "callback_depth lh = 0" "num_buckets lh = 16" "num_items lh = 0"
  using assms
  by (auto simp: lh_new_def lh_ok_def elems_def chained_def unique_def kMinNumBuckets_def split: option.splits)

lemma lh_insert_depth:
  "callback_depth (fst (lh_insert am hash cmp lh d)) = callback_depth lh"
  unfolding lh_insert_def
  by (auto simp: lh_maybe_resize_def lh_rebucket_def Let_def split: prod.split option.split)

lemma lh_delete_depth:
  "callback_depth (fst (lh_delete am hash cmp lh d)) = callback_depth lh"
  unfolding lh_delete_def
  by (auto simp: lh_maybe_resize_def lh_rebucket_def Let_def split: prod.split option.split)

context hashing
begin

lemma lh_step_map:
  assumes "lh_ok hash cmp lh" "callback_depth lh = 0" "lh_step hash cmp (am, op) lh = (lh', old, r)"
  shows "lh_ok hash cmp lh' \<and> callback_depth lh' = 0 \<and>
    map_step cmp op r (lh_retrieve hash cmp lh) = (lh_retrieve hash cmp lh', old)"
proof (cases op)
  case (Insert d)
  then have i: "lh_insert am hash cmp lh d = (lh', old, r)" using assms(3) by (simp add: lh_step_def)
  note ok = lh_insert_ok [OF assms(1) i]
  have "callback_depth lh' = 0" using lh_insert_depth [of am hash cmp lh d] i assms(2) by simp
  moreover have "map_step cmp op r (lh_retrieve hash cmp lh) = (lh_retrieve hash cmp lh', old)"
  proof (cases r)
    case True
    then show ?thesis using lh_insert_map [OF assms(1)] i ok(2) Insert by (auto simp: map_step_def fun_eq_iff)
  next
    case False
    then show ?thesis using ok(4) Insert by (simp add: map_step_def)
  qed
  ultimately show ?thesis using ok(1) by blast
next
  case (Delete d)
  then have i: "lh_delete am hash cmp lh d = (lh', old)" using assms(3) by (simp add: lh_step_def split: prod.splits)
  have "callback_depth lh' = 0" using lh_delete_depth [of am hash cmp lh d] i assms(2) by simp
  then show ?thesis using lh_delete_ok [OF assms(1) i] lh_delete_map [OF assms(1) i] Delete
    by (auto simp: map_step_def fun_eq_iff)
next
  case Doall
  then have d: "lh' = lh_maybe_resize am lh" "old = None"
    using assms(2,3) by (simp_all add: lh_step_def lh_doall_arg_eq)
  note ok = lh_maybe_resize_ok [OF assms(1), of am]
  have "lh_retrieve hash cmp (lh_maybe_resize am lh) x = lh_retrieve hash cmp lh x" for x
    using ok(2) by (intro lh_retrieve_elems [OF assms(1) ok(1)]) simp
  then show ?thesis using ok assms(2) Doall by (simp add: d map_step_def fun_eq_iff)
qed

lemma lh_run_map:
  "lh_ok hash cmp lh \<Longrightarrow> callback_depth lh = 0 \<Longrightarrow> lh_run hash cmp calls lh = (lh', outs) \<Longrightarrow>
    lh_ok hash cmp lh' \<and> callback_depth lh' = 0 \<and>
    map_run cmp (zip (map snd calls) (map snd outs)) (lh_retrieve hash cmp lh) = (lh_retrieve hash cmp lh', map fst outs)"
proof (induction calls arbitrary: lh outs)
  case (Cons c calls)
  obtain am op where c: "c = (am, op)" by (cases c)
  obtain lh1 old r where s: "lh_step hash cmp (am, op) lh = (lh1, old, r)" by (metis prod_cases3)
  obtain lh2 outs2 where r: "lh_run hash cmp calls lh1 = (lh2, outs2)" by fastforce
  have "lh2 = lh'" "outs = (old, r) # outs2" using Cons.prems(3) by (simp_all add: c s r)
  then show ?case using lh_step_map [OF Cons.prems(1,2) s] Cons.IH [of lh1 outs2] r by (simp add: c)
qed simp

lemma lh_contents:
  assumes "lh_ok hash cmp lh" "callback_depth lh = 0" "lh_doall_arg am lh (#) [] = (lh', xs)"
  shows "distinct xs \<and> set xs = ran (lh_retrieve hash cmp lh) \<and> length xs = num_items lh \<and>
    lh_retrieve hash cmp lh' = lh_retrieve hash cmp lh"
proof -
  note ok = lh_okD [OF assms(1)] and mr = lh_maybe_resize_ok [OF assms(1), of am]
  have xs: "xs = rev (map item_data (concat (buckets lh)))" and l: "lh' = lh_maybe_resize am lh"
    using assms(3) by (auto simp: lh_doall_arg_eq [OF assms(2)] fold_Cons_rev)
  have m: "mset xs = elems lh" unfolding xs elems_def by (rule mset_rev)
  have "distinct xs" using unique_distinct [of cmp xs] ok(5) cmp_refl by (simp add: m)
  moreover have "length xs = num_items lh" using ok(3) m by (metis size_mset)
  moreover have "set xs = ran (lh_retrieve hash cmp lh)"
    using lh_retrieve_iff [OF assms(1)] cmp_refl m by (auto simp: ran_def simp flip: set_mset_mset)
  moreover have "lh_retrieve hash cmp lh' x = lh_retrieve hash cmp lh x" for x
    unfolding l by (rule lh_retrieve_elems [OF assms(1) mr(1)]) (simp add: mr(2))
  ultimately show ?thesis by (simp add: fun_eq_iff)
qed

end

section \<open>The load\<close>

definition balanced :: "'a lhash \<Rightarrow> bool" where
  "balanced lh \<longleftrightarrow> num_items lh < 3 * num_buckets lh \<and> (16 < num_buckets lh \<longrightarrow> num_buckets lh \<le> num_items lh)"

lemma lh_rebucket_total:
  assumes "\<And>n. am n \<noteq> None" "n \<le> 2305843009213693951"
  shows "num_buckets (lh_rebucket am lh n) = n" "num_items (lh_rebucket am lh n) = num_items lh"
proof -
  have "size_mul 8 n = 8 * n" using assms(2) by (intro size_mul_small) (simp)
  moreover obtain p where "OPENSSL_malloc am (8 * n) = Some p" using OPENSSL_malloc_succeeds [of am] assms(1) by blast
  ultimately show "num_buckets (lh_rebucket am lh n) = n" "num_items (lh_rebucket am lh n) = num_items lh"
    by (simp_all add: lh_rebucket_def)
qed

lemma lh_maybe_resize_balanced:
  assumes "\<And>n. am n \<noteq> None" "callback_depth lh = 0" "16 \<le> num_buckets lh" "num_buckets lh \<le> 16 + num_items lh"
    "num_items lh \<le> 288230376151711744" "num_items lh \<le> 3 * num_buckets lh"
    "16 < num_buckets lh \<longrightarrow> num_buckets lh \<le> num_items lh + 1"
  shows "balanced (lh_maybe_resize am lh)" "num_items (lh_maybe_resize am lh) = num_items lh"
proof -
  let ?b = "num_buckets lh" and ?n = "num_items lh"
  note r = lh_rebucket_total [of am _ lh, OF assms(1)]
  have "balanced (lh_maybe_resize am lh) \<and> num_items (lh_maybe_resize am lh) = ?n"
  proof -
    consider "3 * ?b \<le> ?n" | "?n < ?b" "16 < ?b" | "?n < 3 * ?b" "16 < ?b \<longrightarrow> ?b \<le> ?n" by linarith
    then show ?thesis
    proof cases
      case 1
      have "?n div ?b > 2" using 1 assms(3) by (metis div_le_mono div_mult_self_is_m le_trans less_le_trans
          nonzero_mult_div_cancel_right not_less numeral_2_eq_2 numeral_3_eq_3 lessI zero_less_numeral not_gr_zero gr_zeroI leD)
      moreover have "size_mul ?b 2 = ?b * 2" using assms(4,5) by (intro size_mul_small) (simp)
      ultimately have "lh_maybe_resize am lh = lh_rebucket am lh (?b * 2)"
        using assms(2,3) by (simp add: lh_maybe_resize_def kMaxAverageChainLength_def Let_def)
      then show ?thesis using r [of "?b * 2"] 1 assms by (simp add: balanced_def)
    next
      case 2
      define m where "m = (if ?b div 2 < 16 then 16 else ?b div 2)"
      have e: "lh_maybe_resize am lh = lh_rebucket am lh m"
        using assms(2) 2 by (simp add: lh_maybe_resize_def kMaxAverageChainLength_def kMinAverageChainLength_def kMinNumBuckets_def Let_def m_def)
      have "?b = ?n + 1" using 2 assms(7) by simp
      then have "m = 16 \<and> ?n < 32 \<or> 16 \<le> m \<and> 2 * m \<le> ?n + 1 \<and> ?n \<le> 2 * m"
        by (cases "?b div 2 < 16") (simp_all add: m_def, linarith+)
      then show ?thesis using r [of m] assms(5) e by (auto simp: balanced_def)
    next
      case 3
      have "?n div ?b < 3" using 3(1) by (simp add: less_mult_imp_div_less)
      moreover have "?n div ?b = 0 \<longrightarrow> ?n < ?b" using assms(3) by (simp add: div_eq_0_iff)
      ultimately have "\<not> 2 < ?n div ?b" "\<not> (?n div ?b = 0 \<and> 16 < ?b)" using 3(2) by auto
      then have "lh_maybe_resize am lh = lh"
        by (auto simp: lh_maybe_resize_def kMaxAverageChainLength_def kMinAverageChainLength_def kMinNumBuckets_def Let_def)
      then show ?thesis using 3 by (simp add: balanced_def)
    qed
  qed
  then show "balanced (lh_maybe_resize am lh)" "num_items (lh_maybe_resize am lh) = ?n" by blast+
qed

context hashing
begin

lemma lh_step_balanced:
  assumes "lh_ok hash cmp lh" "callback_depth lh = 0" "balanced lh" "num_items lh < 288230376151711744"
    "\<And>n. am n \<noteq> None" "lh_step hash cmp (am, op) lh = (lh', old, r)"
  shows "balanced lh' \<and> num_items lh' \<le> num_items lh + 1"
proof -
  let ?mr = "lh_maybe_resize am"
  have b: "16 \<le> num_buckets lh" "num_items lh < 3 * num_buckets lh" "16 < num_buckets lh \<longrightarrow> num_buckets lh \<le> num_items lh"
    using lh_okD(2) [OF assms(1)] assms(3) by (simp_all add: balanced_def)
  note br = lh_maybe_resize_balanced [of am, OF assms(5)]
  consider "lh' = lh" | bs where "lh' = lh\<lparr>buckets := bs\<rparr>" | bs where "lh' = ?mr (lh\<lparr>buckets := bs, num_items := num_items lh + 1\<rparr>)"
    | bs where "lh' = ?mr (lh\<lparr>buckets := bs, num_items := num_items lh - 1\<rparr>)" "0 < num_items lh" | "lh' = ?mr lh"
  proof (cases op)
    case (Insert d)
    then show ?thesis using assms(6) that unfolding lh_step_def lh_insert_def
      by (auto simp: split: prod.splits option.splits)
  next
    case (Delete d)
    have d: "lh_delete am hash cmp lh d = (lh', old)" using assms(6) Delete by (simp add: lh_step_def split: prod.splits)
    show ?thesis
    proof (cases "lh' = lh")
      case False
      obtain h i j where g: "get_next_ptr_and_hash hash cmp lh d = (h, i, j)" by (metis prod_cases3)
      with d False obtain it where it: "item_at lh i j = Some it" by (auto simp: lh_delete_def split: option.splits)
      then have "item_data it \<in># elems lh"
        using get_next_ptr(3,4) [OF assms(1) g] chain_in_elems by blast
      then have "0 < num_items lh" using lh_okD(3) [OF assms(1)] by (metis nonempty_has_size empty_iff set_mset_empty)
      then show ?thesis using d it that(4) by (simp add: lh_delete_def g) metis
    qed (rule that(1))
  next
    case Doall
    then show ?thesis using assms(2,6) that(5) by (simp add: lh_step_def lh_doall_arg_eq)
  qed
  then show ?thesis
  proof cases
    case 1
    then show ?thesis using assms(3) by simp
  next
    case 2
    then show ?thesis using assms(3) by (simp add: balanced_def)
  next
    case 3
    then show ?thesis using br [of "lh\<lparr>buckets := bs, num_items := num_items lh + 1\<rparr>"] assms(2,4) b by (cases "16 < num_buckets lh") auto
  next
    case 4
    then show ?thesis using br [of "lh\<lparr>buckets := bs, num_items := num_items lh - 1\<rparr>"] assms(2,4) b by (cases "16 < num_buckets lh") auto
  next
    case 5
    then show ?thesis using br [of lh] assms(2,4) b by (cases "16 < num_buckets lh") auto
  qed
qed

lemma lh_run_balanced:
  "lh_ok hash cmp lh \<Longrightarrow> callback_depth lh = 0 \<Longrightarrow> balanced lh \<Longrightarrow> num_items lh + length calls < 288230376151711744 \<Longrightarrow>
    \<forall>(am, op) \<in> set calls. \<forall>n. am n \<noteq> None \<Longrightarrow> lh_run hash cmp calls lh = (lh', outs) \<Longrightarrow> balanced lh'"
proof (induction calls arbitrary: lh outs)
  case (Cons c calls)
  obtain am op where c: "c = (am, op)" by (cases c)
  obtain lh1 old r where s: "lh_step hash cmp (am, op) lh = (lh1, old, r)" by (metis prod_cases3)
  obtain lh2 outs2 where r: "lh_run hash cmp calls lh1 = (lh2, outs2)" by fastforce
  have am: "am n \<noteq> None" for n using Cons.prems(5) by (simp add: c)
  have "lh2 = lh'" using Cons.prems(6) by (simp add: c s r)
  moreover have "balanced lh1 \<and> num_items lh1 \<le> num_items lh + 1"
    using lh_step_balanced [OF Cons.prems(1-3) _ am s] Cons.prems(4) by simp
  ultimately show ?case using lh_step_map [OF Cons.prems(1,2) s] Cons.IH [of lh1 outs2] r Cons.prems(4,5) by simp
qed simp

lemma lh_run_results:
  "lh_ok hash cmp lh \<Longrightarrow> callback_depth lh = 0 \<Longrightarrow> lh_run hash cmp calls lh = (lh', outs) \<Longrightarrow>
    list_all2 (\<lambda>(am, op) (old, r). r \<or> (\<exists>d. op = Insert d) \<and> OPENSSL_malloc am 24 = None) calls outs"
proof (induction calls arbitrary: lh outs)
  case (Cons c calls)
  obtain am op where c: "c = (am, op)" by (cases c)
  obtain lh1 old r where s: "lh_step hash cmp (am, op) lh = (lh1, old, r)" by (metis prod_cases3)
  obtain lh2 outs2 where run: "lh_run hash cmp calls lh1 = (lh2, outs2)" by fastforce
  have o: "lh2 = lh'" "outs = (old, r) # outs2" using Cons.prems(3) by (simp_all add: c s run)
  have "r \<or> (\<exists>d. op = Insert d) \<and> OPENSSL_malloc am 24 = None"
  proof (cases op)
    case (Insert d)
    then have "lh_insert am hash cmp lh d = (lh1, old, r)" using s by (simp add: lh_step_def)
    then show ?thesis using lh_insert_ok(4) [OF Cons.prems(1)] Insert by blast
  qed (use s in \<open>auto simp: lh_step_def split: prod.splits\<close>)
  then show ?case using lh_step_map [OF Cons.prems(1,2) s] Cons.IH [of lh1 outs2] run o by (simp add: c)
qed simp

end

text \<open>C35: A hash table behaves as a partial function on classes of equal keys, whatever the hash function,
  the chains and the resizings: after any sequence of insertions, deletions and iterations from
  \<open>lh_new\<close>, on any allocator, the old values returned and every later \<open>lh_retrieve\<close> are those of the
  function; an operation can only fail when it is an insertion whose item could not be allocated; and
  \<open>lh_doall_arg\<close> visits every element exactly once, as many as \<open>lh_num_items\<close> says, and changes no lookup.\<close>
theorem lhash_is_a_map:
  assumes "hashing hash cmp" "lh_new am = Some lh" "lh_run hash cmp calls lh = (lh', outs)"
  shows "map_run cmp (zip (map snd calls) (map snd outs)) Map.empty = (lh_retrieve hash cmp lh', map fst outs) \<and>
    list_all2 (\<lambda>(am, op) (old, r). r \<or> (\<exists>d. op = Insert d) \<and> OPENSSL_malloc am 24 = None) calls outs \<and>
    (case lh_doall_arg am' lh' (#) [] of (lh'', xs) \<Rightarrow>
       distinct xs \<and> set xs = ran (lh_retrieve hash cmp lh') \<and> length xs = lh_num_items lh' \<and>
       lh_retrieve hash cmp lh'' = lh_retrieve hash cmp lh')"
proof -
  note new = lh_new_ok [OF assms(2)]
  have e: "lh_retrieve hash cmp lh = Map.empty"
    using hashing.lh_retrieve_None [OF assms(1) new(1)] new(2) by (auto simp: fun_eq_iff)
  note run = hashing.lh_run_map [OF assms(1) new(1,3) assms(3), unfolded e]
  obtain lh'' xs where d: "lh_doall_arg am' lh' (#) [] = (lh'', xs)" by fastforce
  show ?thesis
    using run hashing.lh_run_results [OF assms(1) new(1,3) assms(3)] hashing.lh_contents [OF assms(1) _ _ d]
    by (simp add: d lh_num_items_def)
qed

text \<open>C36: While allocations succeed the table stays balanced: after any sequence of fewer than 2^58 operations
  from \<open>lh_new\<close> there are fewer than three elements for each bucket on average, and at least one when there are more
  than the minimum of 16 buckets. The sizes the code computes never wrap around.\<close>
theorem lhash_load:
  assumes "hashing hash cmp" "lh_new am = Some lh" "lh_run hash cmp calls lh = (lh', outs)"
    "length calls < 288230376151711744" "\<forall>(am, op) \<in> set calls. \<forall>n. am n \<noteq> None"
  shows "16 \<le> num_buckets lh' \<and> num_items lh' < 3 * num_buckets lh' \<and>
    (16 < num_buckets lh' \<longrightarrow> num_buckets lh' \<le> num_items lh')"
proof -
  note new = lh_new_ok [OF assms(2)]
  have "balanced lh" using new(4,5) by (simp add: balanced_def)
  then have "balanced lh'" using hashing.lh_run_balanced [OF assms(1) new(1,3) _ _ assms(5,3)] assms(4) new(5) by simp
  moreover have "lh_ok hash cmp lh'" using hashing.lh_run_map [OF assms(1) new(1,3) assms(3)] by blast
  ultimately show ?thesis using lh_okD(2) by (auto simp: balanced_def)
qed

lemma lhash_is_a_map_witness:
  "\<exists>lh'. lh_run (\<lambda>x::nat \<times> nat. of_nat (fst x)) (\<lambda>x y. if fst x = fst y then 0 else 1)
      [(\<lambda>_. Some (\<lambda>_. 0), Insert (1, 10)), (\<lambda>_. Some (\<lambda>_. 0), Insert (17, 5)), (\<lambda>_. Some (\<lambda>_. 0), Insert (1, 11)),
       (\<lambda>_. None, Insert (2, 0)), (\<lambda>_. None, Delete (17, 0))] (the (lh_new (\<lambda>_. Some (\<lambda>_. 0)))) =
      (lh', [(None, True), (None, True), (Some (1, 10), True), (None, False), (Some (17, 5), True)]) \<and>
    lh_retrieve (\<lambda>x. of_nat (fst x)) (\<lambda>x y. if fst x = fst y then 0 else 1) lh' (1, 0) = Some (1, 11) \<and>
    lh_retrieve (\<lambda>x. of_nat (fst x)) (\<lambda>x y. if fst x = fst y then 0 else 1) lh' (17, 0) = None \<and>
    lh_num_items lh' = 1"
proof -
  let ?hash = "\<lambda>x::nat \<times> nat. of_nat (fst x) :: u32" and ?cmp = "\<lambda>x y::nat \<times> nat. if fst x = fst y then 0 else 1 :: int"
  let ?am = "\<lambda>_::nat. Some (\<lambda>_::nat. 0 :: u8)"
  let ?calls = "[(?am, Insert (1, 10)), (?am, Insert (17, 5)), (?am, Insert (1, 11)), (\<lambda>_. None, Insert (2, 0)),
    (\<lambda>_. None, Delete (17, 0))]"
  have h: "hashing ?hash ?cmp" by unfold_locales (auto split: if_splits)
  have n: "lh_new ?am = Some \<lparr>num_items = 0, buckets = [[], [], [], [], [], [], [], [], [], [], [], [], [], [], [], []],
      num_buckets = 16, callback_depth = 0\<rparr>"
    by (simp add: lh_new_def OPENSSL_malloc_def kMinNumBuckets_def numeral_eq_Suc)
  have r: "lh_run ?hash ?cmp ?calls \<lparr>num_items = 0,
      buckets = [[], [], [], [], [], [], [], [], [], [], [], [], [], [], [], []], num_buckets = 16, callback_depth = 0\<rparr> =
    (\<lparr>num_items = 1, buckets = [[], [\<lparr>item_data = (1, 11), item_hash = 1\<rparr>], [], [], [], [], [], [], [], [], [], [], [], [], [], []],
      num_buckets = 16, callback_depth = 0\<rparr>,
     [(None, True), (None, True), (Some (1, 10), True), (None, False), (Some (17, 5), True)])"
    by (simp add: lh_step_def lh_insert_def lh_delete_def get_next_ptr_and_hash_def item_at_def Let_def
        lh_maybe_resize_def kMaxAverageChainLength_def kMinAverageChainLength_def kMinNumBuckets_def OPENSSL_malloc_def
        size_add_def)
  have m: "lh_retrieve ?hash ?cmp (fst (lh_run ?hash ?cmp ?calls (the (lh_new ?am)))) =
      fst (map_run ?cmp (zip (map snd ?calls) [True, True, True, False, True]) Map.empty)"
    using conjunct1 [OF lhash_is_a_map [OF h n r]] unfolding n option.sel r by (simp only: fst_conv list.map snd_conv)
  show ?thesis
    using r fun_cong [OF m, of "(1, 0)"] fun_cong [OF m, of "(17, 0)"]
    unfolding n option.sel r fst_conv by (simp add: map_step_def lh_num_items_def)
qed

lemma lhash_load_witness:
  "num_items (fst (lh_run (\<lambda>x::nat. of_nat x) (\<lambda>x y. if x = y then 0 else 1)
      (map (\<lambda>i. (\<lambda>_. Some (\<lambda>_. 0), Insert i)) [0..<48]) (the (lh_new (\<lambda>_. Some (\<lambda>_. 0)))))) <
   3 * num_buckets (fst (lh_run (\<lambda>x::nat. of_nat x) (\<lambda>x y. if x = y then 0 else 1)
      (map (\<lambda>i. (\<lambda>_. Some (\<lambda>_. 0), Insert i)) [0..<48]) (the (lh_new (\<lambda>_. Some (\<lambda>_. 0))))))"
proof -
  let ?hash = "\<lambda>x::nat. of_nat x :: u32" and ?cmp = "\<lambda>x y::nat. if x = y then 0 else 1 :: int"
  let ?am = "\<lambda>_::nat. Some (\<lambda>_::nat. 0 :: u8)"
  have h: "hashing ?hash ?cmp" by unfold_locales (auto split: if_splits)
  have n: "lh_new ?am = Some (the (lh_new ?am))" by (simp add: lh_new_def OPENSSL_malloc_def)
  obtain lh' outs where r: "lh_run ?hash ?cmp (map (\<lambda>i. (?am, Insert i)) [0..<48]) (the (lh_new ?am)) = (lh', outs)"
    by fastforce
  from lhash_load [OF h n r] show ?thesis by (simp add: r)
qed

end
