(* ===== verification/Pool.thy ===== *)
theory Pool
  imports Lhash
begin

text \<open>
  BoringSSL's shared immutable buffers and the pool that deduplicates them (crypto/pool/pool.c), with the atomic
  reference counts of crypto/refcount_c11.c and the lock of crypto/thread_pthread.c, as a system of concurrent
  calls. A call in progress is a \<open>pc\<close>: where it is and its local variables. A step runs one call up to its next access of
  memory that other calls use: an atomic load or compare-exchange, taking or releasing the lock, or what the lock protects.
  A step that reads a buffer which is not allocated, unlocks a lock that is not held, aborts or fails an assertion
  has no result.
\<close>

section \<open>Reference counts\<close>

definition CRYPTO_REFCOUNT_MAX :: u32 where "CRYPTO_REFCOUNT_MAX = 4294967295"

text \<open>Where a call is in the loop of an atomic update: before the load, or before an exchange with \<open>expected\<close>.\<close>

datatype count_loop = Load | Exchange u32

definition inc_test :: "u32 \<Rightarrow> count_loop option" where
  "inc_test expected = (if expected \<noteq> CRYPTO_REFCOUNT_MAX then Some (Exchange expected) else None)"

text \<open>One atomic access: \<open>n\<close> is the count in memory, \<open>spurious\<close> whether a weak exchange fails although \<open>n\<close> is
  as expected. The result is the count in memory, and where the loop goes on, or None at its end.\<close>

fun CRYPTO_refcount_inc :: "bool \<Rightarrow> count_loop \<Rightarrow> u32 \<Rightarrow> u32 \<times> count_loop option" where
  "CRYPTO_refcount_inc spurious Load n = (n, inc_test n)"
| "CRYPTO_refcount_inc spurious (Exchange expected) n =
    (let new_value = expected + 1
     in if n = expected \<and> \<not> spurious then (new_value, None) else (n, inc_test n))"

text \<open>None is \<open>abort\<close>; the end of the loop has the returned flag.\<close>

definition dec_test :: "u32 \<Rightarrow> (u32 \<times> (bool + count_loop)) option" where
  "dec_test expected =
    (if expected = 0 then None
     else if expected = CRYPTO_REFCOUNT_MAX then Some (expected, Inl False)
     else Some (expected, Inr (Exchange expected)))"

fun CRYPTO_refcount_dec_and_test_zero :: "bool \<Rightarrow> count_loop \<Rightarrow> u32 \<Rightarrow> (u32 \<times> (bool + count_loop)) option" where
  "CRYPTO_refcount_dec_and_test_zero spurious Load n = dec_test n"
| "CRYPTO_refcount_dec_and_test_zero spurious (Exchange expected) n =
    (let new_value = expected - 1
     in if n = expected \<and> \<not> spurious then Some (new_value, Inl (new_value = 0)) else dec_test n)"

section \<open>The lock\<close>

record rwlock =
  readers :: nat
  writer :: bool

definition CRYPTO_MUTEX_init :: rwlock where
  "CRYPTO_MUTEX_init = \<lparr>readers = 0, writer = False\<rparr>"

text \<open>None: the caller waits.\<close>

definition CRYPTO_MUTEX_lock_read :: "rwlock \<Rightarrow> rwlock option" where
  "CRYPTO_MUTEX_lock_read l = (if writer l then None else Some (l\<lparr>readers := readers l + 1\<rparr>))"

definition CRYPTO_MUTEX_lock_write :: "rwlock \<Rightarrow> rwlock option" where
  "CRYPTO_MUTEX_lock_write l = (if writer l \<or> readers l \<noteq> 0 then None else Some (l\<lparr>writer := True\<rparr>))"

text \<open>None: the lock is not held that way.\<close>

definition CRYPTO_MUTEX_unlock_read :: "rwlock \<Rightarrow> rwlock option" where
  "CRYPTO_MUTEX_unlock_read l = (if readers l = 0 then None else Some (l\<lparr>readers := readers l - 1\<rparr>))"

definition CRYPTO_MUTEX_unlock_write :: "rwlock \<Rightarrow> rwlock option" where
  "CRYPTO_MUTEX_unlock_write l = (if writer l then Some (l\<lparr>writer := False\<rparr>) else None)"

section \<open>Buffers and the pool\<close>

record crypto_buffer =
  in_pool :: bool
  buf_bytes :: bytes
  references :: u32

type_synonym ptr = nat
type_synonym memory = "ptr \<Rightarrow> crypto_buffer option"

text \<open>A \<open>CRYPTO_BUFFER *\<close> that is passed to the table: to an allocated buffer, or to the local variable \<open>tmp\<close> of
  \<open>CRYPTO_BUFFER_new\<close>, which borrows the bytes of the caller.\<close>

datatype buffer = At ptr | Tmp bytes

fun contents :: "memory \<Rightarrow> buffer \<Rightarrow> bytes option" where
  "contents h (At p) = map_option buf_bytes (h p)"
| "contents h (Tmp d) = Some d"

text \<open>The bytes behind \<open>buf->data\<close>. What a read of a buffer that is not allocated gives is immaterial: no step does it.\<close>

definition bytes_of :: "memory \<Rightarrow> buffer \<Rightarrow> bytes" where
  "bytes_of h buf = (case contents h buf of None \<Rightarrow> [] | Some d \<Rightarrow> d)"

definition CRYPTO_BUFFER_hash :: "memory \<Rightarrow> buffer \<Rightarrow> u32" where
  "CRYPTO_BUFFER_hash h buf = OPENSSL_hash32 (bytes_of h buf)"

definition CRYPTO_BUFFER_cmp :: "memory \<Rightarrow> buffer \<Rightarrow> buffer \<Rightarrow> int" where
  "CRYPTO_BUFFER_cmp h a b =
    (if length (bytes_of h a) \<noteq> length (bytes_of h b) then 1
     else OPENSSL_memcmp (bytes_of h a) (bytes_of h b) (length (bytes_of h a)))"

text \<open>The table and the lock of the pool, with the memory of the buffers, and the references the users hold.\<close>

record pool =
  heap :: memory
  bufs :: "buffer lhash"
  lock :: rwlock
  handles :: "ptr multiset"

text \<open>The hash and comparison functions of the table read through the pointers in it: an operation with \<open>buf\<close> has a result only if
  \<open>buf\<close> and every buffer in the table are allocated.\<close>

definition readable :: "pool \<Rightarrow> buffer \<Rightarrow> bool" where
  "readable s buf \<longleftrightarrow> contents (heap s) buf \<noteq> None \<and> (\<forall>x \<in># elems (bufs s). contents (heap s) x \<noteq> None)"

definition CRYPTO_BUFFER_POOL_new :: "alloc \<Rightarrow> pool option" where
  "CRYPTO_BUFFER_POOL_new am = (case OPENSSL_malloc am 208 of None \<Rightarrow> None
     | Some _ \<Rightarrow> (case lh_new am of None \<Rightarrow> None
        | Some lh \<Rightarrow> Some \<lparr>heap = Map.empty, bufs = lh, lock = CRYPTO_MUTEX_init, handles = {#}\<rparr>))"

text \<open>The debug build: the lock is free, and the assertion holds.\<close>

definition CRYPTO_BUFFER_POOL_free :: "pool \<Rightarrow> bool" where
  "CRYPTO_BUFFER_POOL_free pool \<longleftrightarrow>
    (case CRYPTO_MUTEX_lock_write (lock pool) of None \<Rightarrow> False
     | Some l \<Rightarrow> lh_num_items (bufs pool) = 0 \<and> CRYPTO_MUTEX_unlock_write l \<noteq> None)"

section \<open>Calls in progress\<close>

text \<open>\<open>New_\<close>: CRYPTO_BUFFER_new of the bytes \<open>d\<close>; \<open>Free_\<close>: CRYPTO_BUFFER_free. \<open>R\<close> marks the states that the code
  reaches with the read lock, \<open>W\<close> those with the write lock.\<close>

datatype pc =
    New_lock_read bytes
  | New_retrieve_R bytes
  | New_inc_R bytes ptr count_loop
  | New_unlock_R bytes "ptr option"
  | New_buffer bytes bool
  | New_lock_write bytes ptr
  | New_insert_W bytes ptr
  | New_inc_W bytes ptr ptr count_loop
  | New_unlock_W bytes ptr "ptr option" bool
  | New_discard bytes ptr "ptr option"
  | Alloc nat
  | Up_ref ptr count_loop
  | Free ptr
  | Free_dec ptr count_loop
  | Free_lock_write ptr
  | Free_dec_W ptr count_loop
  | Free_delete_W ptr
  | Free_unlock_W ptr bool
  | Free_buffer ptr

text \<open>Whether a call can go on.\<close>

fun not_blocked :: "pc \<Rightarrow> pool \<Rightarrow> bool" where
  "not_blocked (New_lock_read d) s \<longleftrightarrow> CRYPTO_MUTEX_lock_read (lock s) \<noteq> None"
| "not_blocked (New_lock_write d p) s \<longleftrightarrow> CRYPTO_MUTEX_lock_write (lock s) \<noteq> None"
| "not_blocked (Free_lock_write p) s \<longleftrightarrow> CRYPTO_MUTEX_lock_write (lock s) \<noteq> None"
| "not_blocked _ s \<longleftrightarrow> True"

text \<open>What the users may call: \<open>CRYPTO_BUFFER_up_ref\<close> and \<open>CRYPTO_BUFFER_free\<close> on a reference of their own, which
  the call has until it returns. The flag of \<open>Call_new\<close> is whether a pool is passed.\<close>

datatype request = Call_new bytes bool | Call_alloc nat | Call_up_ref ptr | Call_free ptr

fun start :: "request \<Rightarrow> pool \<Rightarrow> (pool \<times> pc) option" where
  "start (Call_new d pooled) s = (if length d \<le> SIZE_MAX - 8
     then Some (s, if pooled then New_lock_read d else New_buffer d False) else None)"
| "start (Call_alloc n) s = (if n \<le> SIZE_MAX - 8 then Some (s, Alloc n) else None)"
| "start (Call_up_ref p) s = (if p \<in># handles s then Some (s\<lparr>handles := handles s - {#p#}\<rparr>, Up_ref p Load) else None)"
| "start (Call_free p) s = (if p \<in># handles s then Some (s\<lparr>handles := handles s - {#p#}\<rparr>, Free p) else None)"

definition give :: "ptr \<Rightarrow> pool \<Rightarrow> pool" where
  "give p s = s\<lparr>handles := add_mset p (handles s)\<rparr>"

definition set_count :: "ptr \<Rightarrow> crypto_buffer \<Rightarrow> u32 \<Rightarrow> pool \<Rightarrow> pool" where
  "set_count p b n s = s\<lparr>heap := (heap s)(p \<mapsto> b\<lparr>references := n\<rparr>)\<rparr>"

definition deallocate :: "ptr \<Rightarrow> pool \<Rightarrow> pool" where
  "deallocate p s = s\<lparr>heap := (heap s)(p := None)\<rparr>"

text \<open>The code of each function from where the call is, as far as its next access: \<open>am\<close> is the allocator at this step,
  \<open>a\<close> the address of the structure it allocates and \<open>spurious\<close> whether a weak exchange fails. The second
  component of the result is None when the call returns, and a returned buffer is then among the handles.\<close>

fun CRYPTO_BUFFER_new :: "alloc \<Rightarrow> ptr \<Rightarrow> bool \<Rightarrow> pool \<Rightarrow> pc \<Rightarrow> (pool \<times> pc option) option" where
  "CRYPTO_BUFFER_new am a spurious s (New_lock_read d) =
    (case CRYPTO_MUTEX_lock_read (lock s) of None \<Rightarrow> None
     | Some l \<Rightarrow> Some (s\<lparr>lock := l\<rparr>, Some (New_retrieve_R d)))"
| "CRYPTO_BUFFER_new am a spurious s (New_retrieve_R d) =
    (if \<not> readable s (Tmp d) then None
     else case lh_retrieve (CRYPTO_BUFFER_hash (heap s)) (CRYPTO_BUFFER_cmp (heap s)) (bufs s) (Tmp d) of
       Some (At duplicate) \<Rightarrow> Some (s, Some (New_inc_R d duplicate Load))
     | Some (Tmp _) \<Rightarrow> None
     | None \<Rightarrow> Some (s, Some (New_unlock_R d None)))"
| "CRYPTO_BUFFER_new am a spurious s (New_inc_R d duplicate loop) =
    (case heap s duplicate of None \<Rightarrow> None
     | Some b \<Rightarrow> (case CRYPTO_refcount_inc spurious loop (references b) of (n, next) \<Rightarrow>
         Some (set_count duplicate b n s,
           Some (case next of Some loop \<Rightarrow> New_inc_R d duplicate loop | None \<Rightarrow> New_unlock_R d (Some duplicate)))))"
| "CRYPTO_BUFFER_new am a spurious s (New_unlock_R d duplicate) =
    (case CRYPTO_MUTEX_unlock_read (lock s) of None \<Rightarrow> None
     | Some l \<Rightarrow> (let s = s\<lparr>lock := l\<rparr> in case duplicate of
         Some p \<Rightarrow> Some (give p s, None)
       | None \<Rightarrow> Some (s, Some (New_buffer d True))))"
| "CRYPTO_BUFFER_new am a spurious s (New_buffer d pooled) =
    (case OPENSSL_malloc am 32 of None \<Rightarrow> Some (s, None)
     | Some _ \<Rightarrow>
        (let copy = OPENSSL_memdup am d
         in if length d \<noteq> 0 \<and> copy = None then Some (s, None)
            else let bytes = (case copy of None \<Rightarrow> [] | Some bytes \<Rightarrow> bytes);
                     s = s\<lparr>heap := (heap s)(a \<mapsto> \<lparr>in_pool = pooled, buf_bytes = bytes, references = 1\<rparr>)\<rparr>
              in if \<not> pooled then Some (give a s, None)
                 else Some (s, Some (New_lock_write d a))))"
| "CRYPTO_BUFFER_new am a spurious s (New_lock_write d buf) =
    (case CRYPTO_MUTEX_lock_write (lock s) of None \<Rightarrow> None
     | Some l \<Rightarrow> Some (s\<lparr>lock := l\<rparr>, Some (New_insert_W d buf)))"
| "CRYPTO_BUFFER_new am a spurious s (New_insert_W d buf) =
    (if \<not> readable s (At buf) then None
     else case lh_retrieve (CRYPTO_BUFFER_hash (heap s)) (CRYPTO_BUFFER_cmp (heap s)) (bufs s) (At buf) of
       Some (At duplicate) \<Rightarrow> Some (s, Some (New_inc_W d buf duplicate Load))
     | Some (Tmp _) \<Rightarrow> None
     | None \<Rightarrow>
        (case lh_insert am (CRYPTO_BUFFER_hash (heap s)) (CRYPTO_BUFFER_cmp (heap s)) (bufs s) (At buf) of (lh, old, inserted) \<Rightarrow>
           if old \<noteq> None then None
           else Some (s\<lparr>bufs := lh\<rparr>, Some (New_unlock_W d buf None inserted))))"
| "CRYPTO_BUFFER_new am a spurious s (New_inc_W d buf duplicate loop) =
    (case heap s duplicate of None \<Rightarrow> None
     | Some b \<Rightarrow> (case CRYPTO_refcount_inc spurious loop (references b) of (n, next) \<Rightarrow>
         Some (set_count duplicate b n s,
           Some (case next of Some loop \<Rightarrow> New_inc_W d buf duplicate loop | None \<Rightarrow> New_unlock_W d buf (Some duplicate) False))))"
| "CRYPTO_BUFFER_new am a spurious s (New_unlock_W d buf duplicate inserted) =
    (case CRYPTO_MUTEX_unlock_write (lock s) of None \<Rightarrow> None
     | Some l \<Rightarrow> (let s = s\<lparr>lock := l\<rparr> in
         if \<not> inserted then Some (s, Some (New_discard d buf duplicate)) else Some (give buf s, None)))"
| "CRYPTO_BUFFER_new am a spurious s (New_discard d buf duplicate) =
    (case heap s buf of None \<Rightarrow> None
     | Some _ \<Rightarrow> let s = deallocate buf s in Some (case duplicate of None \<Rightarrow> s | Some p \<Rightarrow> give p s, None))"
| "CRYPTO_BUFFER_new am a spurious s _ = None"

fun CRYPTO_BUFFER_alloc :: "alloc \<Rightarrow> ptr \<Rightarrow> pool \<Rightarrow> pc \<Rightarrow> (pool \<times> pc option) option" where
  "CRYPTO_BUFFER_alloc am a s (Alloc len) =
    (case OPENSSL_malloc am 32 of None \<Rightarrow> Some (s, None)
     | Some _ \<Rightarrow>
        (let bytes = OPENSSL_malloc am len
         in if len \<noteq> 0 \<and> bytes = None then Some (s, None)
            else let bytes = (case bytes of None \<Rightarrow> [] | Some bytes \<Rightarrow> bytes)
              in Some (give a (s\<lparr>heap := (heap s)(a \<mapsto> \<lparr>in_pool = False, buf_bytes = bytes, references = 1\<rparr>)\<rparr>), None)))"
| "CRYPTO_BUFFER_alloc am a s _ = None"

text \<open>The reference that is passed stays the caller's, and there is one more.\<close>

fun CRYPTO_BUFFER_up_ref :: "bool \<Rightarrow> pool \<Rightarrow> pc \<Rightarrow> (pool \<times> pc option) option" where
  "CRYPTO_BUFFER_up_ref spurious s (Up_ref buf loop) =
    (case heap s buf of None \<Rightarrow> None
     | Some b \<Rightarrow> (case CRYPTO_refcount_inc spurious loop (references b) of
         (n, Some loop) \<Rightarrow> Some (set_count buf b n s, Some (Up_ref buf loop))
       | (n, None) \<Rightarrow> Some (give buf (give buf (set_count buf b n s)), None)))"
| "CRYPTO_BUFFER_up_ref spurious s _ = None"

fun CRYPTO_BUFFER_free :: "alloc \<Rightarrow> bool \<Rightarrow> pool \<Rightarrow> pc \<Rightarrow> (pool \<times> pc option) option" where
  "CRYPTO_BUFFER_free am spurious s (Free buf) =
    (case heap s buf of None \<Rightarrow> None
     | Some b \<Rightarrow> Some (s, Some (if in_pool b then Free_lock_write buf else Free_dec buf Load)))"
| "CRYPTO_BUFFER_free am spurious s (Free_dec buf loop) =
    (case heap s buf of None \<Rightarrow> None
     | Some b \<Rightarrow> (case CRYPTO_refcount_dec_and_test_zero spurious loop (references b) of None \<Rightarrow> None
        | Some (n, Inr loop) \<Rightarrow> Some (set_count buf b n s, Some (Free_dec buf loop))
        | Some (n, Inl zero) \<Rightarrow> Some (set_count buf b n s, if zero then Some (Free_buffer buf) else None)))"
| "CRYPTO_BUFFER_free am spurious s (Free_lock_write buf) =
    (case CRYPTO_MUTEX_lock_write (lock s) of None \<Rightarrow> None
     | Some l \<Rightarrow> Some (s\<lparr>lock := l\<rparr>, Some (Free_dec_W buf Load)))"
| "CRYPTO_BUFFER_free am spurious s (Free_dec_W buf loop) =
    (case heap s buf of None \<Rightarrow> None
     | Some b \<Rightarrow> (case CRYPTO_refcount_dec_and_test_zero spurious loop (references b) of None \<Rightarrow> None
        | Some (n, Inr loop) \<Rightarrow> Some (set_count buf b n s, Some (Free_dec_W buf loop))
        | Some (n, Inl zero) \<Rightarrow> Some (set_count buf b n s, Some (if \<not> zero then Free_unlock_W buf False else Free_delete_W buf))))"
| "CRYPTO_BUFFER_free am spurious s (Free_delete_W buf) =
    (if \<not> readable s (At buf) then None
     else case lh_delete am (CRYPTO_BUFFER_hash (heap s)) (CRYPTO_BUFFER_cmp (heap s)) (bufs s) (At buf) of (lh, found) \<Rightarrow>
       if found \<noteq> Some (At buf) then None else Some (s\<lparr>bufs := lh\<rparr>, Some (Free_unlock_W buf True)))"
| "CRYPTO_BUFFER_free am spurious s (Free_unlock_W buf zero) =
    (case heap s buf of None \<Rightarrow> None
     | Some _ \<Rightarrow> (case CRYPTO_MUTEX_unlock_write (lock s) of None \<Rightarrow> None
        | Some l \<Rightarrow> Some (s\<lparr>lock := l\<rparr>, if zero then Some (Free_buffer buf) else None)))"
| "CRYPTO_BUFFER_free am spurious s (Free_buffer buf) =
    (case heap s buf of None \<Rightarrow> None | Some _ \<Rightarrow> Some (deallocate buf s, None))"
| "CRYPTO_BUFFER_free am spurious s _ = None"

definition step :: "alloc \<Rightarrow> ptr \<Rightarrow> bool \<Rightarrow> pool \<Rightarrow> pc \<Rightarrow> (pool \<times> pc option) option" where
  "step am a spurious s c =
    (case c of
       Alloc _ \<Rightarrow> CRYPTO_BUFFER_alloc am a s c
     | Up_ref _ _ \<Rightarrow> CRYPTO_BUFFER_up_ref spurious s c
     | Free _ \<Rightarrow> CRYPTO_BUFFER_free am spurious s c
     | Free_dec _ _ \<Rightarrow> CRYPTO_BUFFER_free am spurious s c
     | Free_lock_write _ \<Rightarrow> CRYPTO_BUFFER_free am spurious s c
     | Free_dec_W _ _ \<Rightarrow> CRYPTO_BUFFER_free am spurious s c
     | Free_delete_W _ \<Rightarrow> CRYPTO_BUFFER_free am spurious s c
     | Free_unlock_W _ _ \<Rightarrow> CRYPTO_BUFFER_free am spurious s c
     | Free_buffer _ \<Rightarrow> CRYPTO_BUFFER_free am spurious s c
     | _ \<Rightarrow> CRYPTO_BUFFER_new am a spurious s c)"

lemma step_simps [simp]:
  "step am a spurious s (New_lock_read d) = CRYPTO_BUFFER_new am a spurious s (New_lock_read d)"
  "step am a spurious s (New_retrieve_R d) = CRYPTO_BUFFER_new am a spurious s (New_retrieve_R d)"
  "step am a spurious s (New_inc_R d q loop) = CRYPTO_BUFFER_new am a spurious s (New_inc_R d q loop)"
  "step am a spurious s (New_unlock_R d dup) = CRYPTO_BUFFER_new am a spurious s (New_unlock_R d dup)"
  "step am a spurious s (New_buffer d pooled) = CRYPTO_BUFFER_new am a spurious s (New_buffer d pooled)"
  "step am a spurious s (New_lock_write d p) = CRYPTO_BUFFER_new am a spurious s (New_lock_write d p)"
  "step am a spurious s (New_insert_W d p) = CRYPTO_BUFFER_new am a spurious s (New_insert_W d p)"
  "step am a spurious s (New_inc_W d p q loop) = CRYPTO_BUFFER_new am a spurious s (New_inc_W d p q loop)"
  "step am a spurious s (New_unlock_W d p dup ins) = CRYPTO_BUFFER_new am a spurious s (New_unlock_W d p dup ins)"
  "step am a spurious s (New_discard d p dup) = CRYPTO_BUFFER_new am a spurious s (New_discard d p dup)"
  "step am a spurious s (Alloc n) = CRYPTO_BUFFER_alloc am a s (Alloc n)"
  "step am a spurious s (Up_ref p loop) = CRYPTO_BUFFER_up_ref spurious s (Up_ref p loop)"
  "step am a spurious s (Free p) = CRYPTO_BUFFER_free am spurious s (Free p)"
  "step am a spurious s (Free_dec p loop) = CRYPTO_BUFFER_free am spurious s (Free_dec p loop)"
  "step am a spurious s (Free_lock_write p) = CRYPTO_BUFFER_free am spurious s (Free_lock_write p)"
  "step am a spurious s (Free_dec_W p loop) = CRYPTO_BUFFER_free am spurious s (Free_dec_W p loop)"
  "step am a spurious s (Free_delete_W p) = CRYPTO_BUFFER_free am spurious s (Free_delete_W p)"
  "step am a spurious s (Free_unlock_W p zero) = CRYPTO_BUFFER_free am spurious s (Free_unlock_W p zero)"
  "step am a spurious s (Free_buffer p) = CRYPTO_BUFFER_free am spurious s (Free_buffer p)"
  by (simp_all add: step_def)

text \<open>The system: any call that is not blocked may go on, and users may call at any time. The flag of a call's step is
  whether the call is where it was: a weak exchange has failed although the count is the expected one.\<close>

inductive call_step :: "bool \<Rightarrow> pool \<times> pc multiset \<Rightarrow> pool \<times> pc multiset \<Rightarrow> bool" where
  go: "heap s a = None \<Longrightarrow> not_blocked c s \<Longrightarrow> step am a spurious s c = Some (s', Some c') \<Longrightarrow>
    call_step (c' = c) (s, add_mset c C) (s', add_mset c' C)"
| ret: "heap s a = None \<Longrightarrow> not_blocked c s \<Longrightarrow> step am a spurious s c = Some (s', None) \<Longrightarrow>
    call_step False (s, add_mset c C) (s', C)"

inductive pool_step :: "pool \<times> pc multiset \<Rightarrow> pool \<times> pc multiset \<Rightarrow> bool" where
  call: "start r s = Some (s', c) \<Longrightarrow> pool_step (s, C) (s', add_mset c C)"
| run: "call_step failed x y \<Longrightarrow> pool_step x y"

inductive reachable :: "pool \<times> pc multiset \<Rightarrow> bool" where
  new: "CRYPTO_BUFFER_POOL_new am = Some s \<Longrightarrow> reachable (s, {#})"
| step: "reachable x \<Longrightarrow> pool_step x y \<Longrightarrow> reachable y"

lemma CRYPTO_BUFFER_cmp_0: "CRYPTO_BUFFER_cmp h x y = 0 \<longleftrightarrow> bytes_of h x = bytes_of h y"
  using OPENSSL_memcmp_eq_0 [of "bytes_of h x" "bytes_of h y"] by (auto simp: CRYPTO_BUFFER_cmp_def OPENSSL_memcmp_eq_0)

interpretation buffers: hashing "CRYPTO_BUFFER_hash h" "CRYPTO_BUFFER_cmp h" for h
  by unfold_locales (simp_all add: CRYPTO_BUFFER_cmp_0 CRYPTO_BUFFER_hash_def)

section \<open>The invariant\<close>

fun reading :: "pc \<Rightarrow> bool" where
  "reading (New_retrieve_R d) = True"
| "reading (New_inc_R d p l) = True"
| "reading (New_unlock_R d dup) = True"
| "reading _ = False"

fun writing :: "pc \<Rightarrow> bool" where
  "writing (New_insert_W d p) = True"
| "writing (New_inc_W d p q l) = True"
| "writing (New_unlock_W d p dup ins) = True"
| "writing (Free_dec_W p l) = True"
| "writing (Free_delete_W p) = True"
| "writing (Free_unlock_W p z) = True"
| "writing _ = False"

text \<open>The references a call has, the buffer no one else knows yet, the buffer it deletes from the table, the buffer it
  frees, and the buffer it knows to be in the table.\<close>

abbreviation optional :: "ptr option \<Rightarrow> ptr multiset" where
  "optional dup \<equiv> (case dup of None \<Rightarrow> {#} | Some q \<Rightarrow> {#q#})"

fun owned :: "pc \<Rightarrow> ptr multiset" where
  "owned (New_unlock_R d dup) = optional dup"
| "owned (New_lock_write d p) = {#p#}"
| "owned (New_insert_W d p) = {#p#}"
| "owned (New_inc_W d p q l) = {#p#}"
| "owned (New_unlock_W d p dup ins) = add_mset p (optional dup)"
| "owned (New_discard d p dup) = add_mset p (optional dup)"
| "owned (Up_ref p l) = {#p#}"
| "owned (Free p) = {#p#}"
| "owned (Free_dec p l) = {#p#}"
| "owned (Free_lock_write p) = {#p#}"
| "owned (Free_dec_W p l) = {#p#}"
| "owned _ = {#}"

fun fresh :: "pc \<Rightarrow> ptr multiset" where
  "fresh (New_lock_write d p) = {#p#}"
| "fresh (New_insert_W d p) = {#p#}"
| "fresh (New_inc_W d p q l) = {#p#}"
| "fresh (New_unlock_W d p dup ins) = (if ins then {#} else {#p#})"
| "fresh (New_discard d p dup) = {#p#}"
| "fresh _ = {#}"

fun deleting :: "pc \<Rightarrow> ptr multiset" where
  "deleting (Free_delete_W p) = {#p#}"
| "deleting _ = {#}"

fun freeing :: "pc \<Rightarrow> ptr multiset" where
  "freeing (Free_unlock_W p zero) = (if zero then {#p#} else {#})"
| "freeing (Free_buffer p) = {#p#}"
| "freeing _ = {#}"

fun seen :: "pc \<Rightarrow> ptr multiset" where
  "seen (New_inc_R d p l) = {#p#}"
| "seen (New_inc_W d p q l) = {#q#}"
| "seen (Free_lock_write p) = {#p#}"
| "seen (Free_dec_W p l) = {#p#}"
| "seen (Free_unlock_W p zero) = (if zero then {#} else {#p#})"
| "seen _ = {#}"

definition allof :: "(pc \<Rightarrow> ptr multiset) \<Rightarrow> pc multiset \<Rightarrow> ptr multiset" where
  "allof f C = sum_mset (image_mset f C)"

lemma allof_simps [simp]: "allof f {#} = {#}" "allof f (add_mset c C) = f c + allof f C"
  by (simp_all add: allof_def)

fun unpooled :: "pc \<Rightarrow> ptr multiset" where
  "unpooled (Free_dec p l) = {#p#}"
| "unpooled _ = {#}"

text \<open>The value an exchange expects is neither 0 nor saturated where the count is decremented, and not saturated where it is
  incremented; a call that has inserted its buffer has no duplicate.\<close>

fun pc_ok :: "pc \<Rightarrow> bool" where
  "pc_ok (New_inc_R d p (Exchange e)) \<longleftrightarrow> e \<noteq> CRYPTO_REFCOUNT_MAX"
| "pc_ok (New_inc_W d p q (Exchange e)) \<longleftrightarrow> e \<noteq> CRYPTO_REFCOUNT_MAX"
| "pc_ok (Up_ref p (Exchange e)) \<longleftrightarrow> e \<noteq> CRYPTO_REFCOUNT_MAX"
| "pc_ok (Free_dec p (Exchange e)) \<longleftrightarrow> e \<noteq> 0 \<and> e \<noteq> CRYPTO_REFCOUNT_MAX"
| "pc_ok (Free_dec_W p (Exchange e)) \<longleftrightarrow> e \<noteq> 0 \<and> e \<noteq> CRYPTO_REFCOUNT_MAX"
| "pc_ok (New_unlock_W d p dup ins) \<longleftrightarrow> (ins \<longrightarrow> dup = None)"
| "pc_ok _ \<longleftrightarrow> True"

text \<open>The lock is held by those calls that have taken and not released it.\<close>

definition holders :: "(pc \<Rightarrow> bool) \<Rightarrow> pc multiset \<Rightarrow> nat" where
  "holders P C = size (filter_mset P C)"

definition locked :: "rwlock \<Rightarrow> pc multiset \<Rightarrow> bool" where
  "locked l C \<longleftrightarrow> readers l = holders reading C \<and>
     holders writing C = (if writer l then 1 else 0) \<and> (writer l \<longrightarrow> readers l = 0)"

text \<open>\<open>h\<close> are the allocated buffers, \<open>E\<close> the elements of the table, \<open>U\<close> all references, \<open>F\<close> the fresh buffers, \<open>D\<close> those
  being deleted from the table, \<open>B\<close> those being freed and \<open>S\<close> those known to be in the table.\<close>

definition consistent :: "memory \<Rightarrow> buffer multiset \<Rightarrow> ptr multiset \<Rightarrow> ptr multiset \<Rightarrow>
    ptr multiset \<Rightarrow> ptr multiset \<Rightarrow> ptr multiset \<Rightarrow> bool" where
  "consistent h E U F D B S \<longleftrightarrow>
    (\<forall>x \<in># E. \<exists>p b. x = At p \<and> h p = Some b \<and> in_pool b \<and> (references b = 0 \<longrightarrow> p \<in># D)) \<and>
    (\<forall>p \<in># U. \<exists>b. h p = Some b \<and> (in_pool b \<longrightarrow> At p \<in># E \<or> p \<in># F)) \<and>
    (\<forall>a b. h a = Some b \<longrightarrow> references b = CRYPTO_REFCOUNT_MAX \<or> unat (references b) = count U a) \<and>
    (\<forall>p \<in># F. \<exists>b. h p = Some b \<and> in_pool b \<and> references b = 1 \<and> At p \<notin># E) \<and> F \<subseteq># U \<and>
    (\<forall>p \<in># D + B. \<exists>b. h p = Some b \<and> references b = 0) \<and> (\<forall>a. count (D + B) a \<le> 1) \<and>
    (\<forall>a b. h a = Some b \<longrightarrow> references b = 0 \<longrightarrow> a \<in># D + B) \<and>
    (\<forall>p \<in># D. At p \<in># E) \<and> (\<forall>p \<in># B. At p \<notin># E) \<and> (\<forall>p \<in># S. At p \<in># E)"

lemma consistentD:
  assumes "consistent h E U F D B S"
  shows "At p \<in># E \<Longrightarrow> \<exists>b. h p = Some b \<and> in_pool b \<and> (references b = 0 \<longrightarrow> p \<in># D)"
    "p \<in># U \<Longrightarrow> \<exists>b. h p = Some b \<and> (in_pool b \<longrightarrow> At p \<in># E \<or> p \<in># F)"
    "h a = Some b \<Longrightarrow> references b = CRYPTO_REFCOUNT_MAX \<or> unat (references b) = count U a"
    "p \<in># F \<Longrightarrow> \<exists>b. h p = Some b \<and> in_pool b \<and> references b = 1 \<and> At p \<notin># E"
    "F \<subseteq># U"
    "p \<in># D + B \<Longrightarrow> \<exists>b. h p = Some b \<and> references b = 0" "count (D + B) a \<le> 1"
    "p \<in># D \<Longrightarrow> At p \<in># E" "p \<in># B \<Longrightarrow> At p \<notin># E" "p \<in># S \<Longrightarrow> At p \<in># E"
    "h a = Some b \<Longrightarrow> references b = 0 \<Longrightarrow> a \<in># D + B"
    "x \<in># E \<Longrightarrow> \<exists>p. x = At p"
  using assms unfolding consistent_def by blast+

text \<open>The count after an update that has gone through.\<close>

definition incremented :: "u32 \<Rightarrow> u32" where
  "incremented r = (if r = CRYPTO_REFCOUNT_MAX then r else r + 1)"

definition decremented :: "u32 \<Rightarrow> u32" where
  "decremented r = (if r = CRYPTO_REFCOUNT_MAX then r else r - 1)"

lemma inc_access:
  assumes "CRYPTO_refcount_inc spurious loop n = (n', next)" "\<forall>e. loop = Exchange e \<longrightarrow> e \<noteq> CRYPTO_REFCOUNT_MAX"
  shows "next = None \<and> n' = incremented n \<or> next = Some (Exchange n) \<and> n \<noteq> CRYPTO_REFCOUNT_MAX \<and> n' = n"
  using assms by (cases loop) (auto simp: inc_test_def incremented_def Let_def split: if_splits)

lemma dec_access:
  assumes "n \<noteq> 0" "\<forall>e. loop = Exchange e \<longrightarrow> e \<noteq> 0 \<and> e \<noteq> CRYPTO_REFCOUNT_MAX"
  obtains "CRYPTO_refcount_dec_and_test_zero spurious loop n = Some (n, Inr (Exchange n))" "n \<noteq> CRYPTO_REFCOUNT_MAX"
  | "CRYPTO_refcount_dec_and_test_zero spurious loop n = Some (decremented n, Inl (decremented n = 0))"
proof -
  have "CRYPTO_refcount_dec_and_test_zero spurious loop n = Some (n, Inr (Exchange n)) \<and> n \<noteq> CRYPTO_REFCOUNT_MAX \<or>
      CRYPTO_refcount_dec_and_test_zero spurious loop n = Some (decremented n, Inl (decremented n = 0))"
    using assms by (cases loop) (auto simp: dec_test_def decremented_def Let_def)
  then show ?thesis using that by blast
qed

lemma inc_count:
  "r = CRYPTO_REFCOUNT_MAX \<or> unat r = n \<Longrightarrow> incremented r = CRYPTO_REFCOUNT_MAX \<or> unat (incremented r) = Suc n"
  "incremented r \<noteq> 0"
proof -
  have "unat (r + 1) = Suc (unat r)" if "r \<noteq> CRYPTO_REFCOUNT_MAX"
  proof -
    have "unat r \<noteq> 4294967295" using that by (auto simp: CRYPTO_REFCOUNT_MAX_def word_unat_eq_iff)
    then have "unat r + 1 < 4294967296" using unsigned_less [of r, where ?'a = nat] by simp
    then show ?thesis by (simp add: unat_word_ariths)
  qed
  then show "r = CRYPTO_REFCOUNT_MAX \<or> unat r = n \<Longrightarrow> incremented r = CRYPTO_REFCOUNT_MAX \<or> unat (incremented r) = Suc n"
    "incremented r \<noteq> 0"
    by (auto simp: incremented_def) (auto simp: CRYPTO_REFCOUNT_MAX_def)
qed

lemma dec_count:
  assumes "r = CRYPTO_REFCOUNT_MAX \<or> unat r = Suc n"
  shows "decremented r = CRYPTO_REFCOUNT_MAX \<or> unat (decremented r) = n"
proof (cases "r = CRYPTO_REFCOUNT_MAX")
  case False
  then have r: "unat r = Suc n" using assms by blast
  then have "r \<noteq> 0" by auto
  with r have "unat (r - 1) = n" using unat_minus_one [of r] by simp
  then show ?thesis using False by (simp add: decremented_def)
qed (simp add: decremented_def)

section \<open>The lock and its holders\<close>

lemma holders_simps [simp]: "holders P {#} = 0" "holders P (add_mset c C) = (if P c then Suc (holders P C) else holders P C)"
  by (simp_all add: holders_def)

lemma no_holder: "holders P C = 0 \<Longrightarrow> x \<in># C \<Longrightarrow> \<not> P x"
  by (auto simp: holders_def filter_mset_eq_conv)

lemma not_both: "\<not> (reading c \<and> writing c)"
  by (cases c) auto

lemma locked_writer:
  assumes "locked l (add_mset c C)" "writing c" "x \<in># C"
  shows "\<not> reading x" "\<not> writing x"
  using assms no_holder [of reading C x] no_holder [of writing C x] not_both [of c]
  by (auto simp: locked_def split: if_splits)

lemma locked_reader:
  assumes "locked l (add_mset c C)" "reading c" "x \<in># C"
  shows "\<not> writing x"
  using assms not_both [of c] no_holder [of writing C x] by (auto simp: locked_def split: if_splits)

lemma locked_same:
  "locked l (add_mset c C) \<Longrightarrow> reading c' = reading c \<Longrightarrow> writing c' = writing c \<Longrightarrow> locked l (add_mset c' C)"
  by (auto simp: locked_def)

lemma locked_out: "locked l (add_mset c C) \<Longrightarrow> \<not> reading c \<Longrightarrow> \<not> writing c \<Longrightarrow> locked l C"
  by (auto simp: locked_def)

lemma locked_add: "locked l C \<Longrightarrow> \<not> reading c \<Longrightarrow> \<not> writing c \<Longrightarrow> locked l (add_mset c C)"
  by (auto simp: locked_def)

lemma lock_read_ok:
  assumes "locked l C" "CRYPTO_MUTEX_lock_read l = Some l'" "reading c"
  shows "locked l' (add_mset c C)"
  using assms not_both [of c] by (auto simp: locked_def CRYPTO_MUTEX_lock_read_def split: if_splits)

lemma lock_write_ok:
  assumes "locked l C" "CRYPTO_MUTEX_lock_write l = Some l'" "writing c"
  shows "locked l' (add_mset c C)"
  using assms not_both [of c] by (auto simp: locked_def CRYPTO_MUTEX_lock_write_def split: if_splits)

lemma unlock_read_ok:
  assumes "locked l (add_mset c C)" "reading c"
  obtains l' where "CRYPTO_MUTEX_unlock_read l = Some l'" "locked l' C"
  using assms not_both [of c] that [of "l\<lparr>readers := readers l - 1\<rparr>"]
  by (auto simp: locked_def CRYPTO_MUTEX_unlock_read_def)

lemma unlock_write_ok:
  assumes "locked l (add_mset c C)" "writing c"
  obtains l' where "CRYPTO_MUTEX_unlock_write l = Some l'" "locked l' C"
  using assms not_both [of c] that [of "l\<lparr>writer := False\<rparr>"]
  by (auto simp: locked_def CRYPTO_MUTEX_unlock_write_def split: if_splits)

section \<open>The changes a step can make\<close>

lemma user_alive: "consistent h E U F D B S \<Longrightarrow> p \<in># U \<Longrightarrow> h p = Some b \<Longrightarrow> references b \<noteq> 0"
proof
  assume a: "consistent h E U F D B S" "p \<in># U" "h p = Some b" "references b = 0"
  then have "count U p = 0" using consistentD(3) [OF a(1), of p b] by (auto simp: CRYPTO_REFCOUNT_MAX_def)
  with a(2) show False by (simp add: count_eq_zero_iff)
qed

lemma fresh_only:
  assumes "consistent h E (add_mset p U) F' D B S" "q \<in># F'" "q \<in># F" "F \<subseteq># U"
  shows "q \<noteq> p"
proof
  assume eq: "q = p"
  obtain b where b: "h q = Some b" "references b = 1" using consistentD(4) [OF assms(1,2)] by blast
  then have "count (add_mset p U) q = 1"
    using consistentD(3) [OF assms(1) b(1)] by (auto simp: CRYPTO_REFCOUNT_MAX_def)
  then have "q \<notin># U" unfolding count_eq_zero_iff [symmetric] using eq by simp
  then show False using assms(3,4) by (auto dest: mset_subset_eqD)
qed

lemma consistent_seen: "consistent h E U F D B S \<Longrightarrow> (\<And>p. p \<in># S' \<Longrightarrow> At p \<in># E) \<Longrightarrow> consistent h E U F D B S'"
  by (simp add: consistent_def)

lemma consistent_inc:
  assumes c: "consistent h E U F D B S" and b: "h p = Some b" "references b \<noteq> 0"
    and E: "in_pool b \<Longrightarrow> At p \<in># E" and nf: "\<And>q. q \<in># F \<Longrightarrow> q \<noteq> p" and S: "S' \<subseteq># S"
  shows "consistent (h(p \<mapsto> b\<lparr>references := incremented (references b)\<rparr>)) E (add_mset p U) F D B S'"
    (is "consistent ?h E ?U F D B S'")
proof -
  let ?r = "incremented (references b)"
  note k = consistentD [OF c]
  have r: "?r = CRYPTO_REFCOUNT_MAX \<or> unat ?r = Suc (count U p)" using inc_count(1) k(3) [OF b(1)] .
  have nd: "q \<in># D + B \<Longrightarrow> q \<noteq> p" for q using k(6) [of q] b by force
  show ?thesis unfolding consistent_def
  proof (intro conjI ballI allI impI)
    show "F \<subseteq># ?U" using k(5) by (metis add_mset_add_single mset_subset_eq_add_left subset_mset.order_trans)
  next
    fix q assume "q \<in># S'" then show "At q \<in># E" using k(10) mset_subset_eqD [OF S] by blast
  next
    fix x assume x: "x \<in># E"
    then obtain q where "x = At q" using k(12) by blast
    then show "\<exists>q b'. x = At q \<and> ?h q = Some b' \<and> in_pool b' \<and> (references b' = 0 \<longrightarrow> q \<in># D)"
      using k(1) [of q] x b inc_count(2) by (cases "q = p") auto
  next
    fix q assume "q \<in># ?U"
    then show "\<exists>b'. ?h q = Some b' \<and> (in_pool b' \<longrightarrow> At q \<in># E \<or> q \<in># F)"
      using k(2) [of q] b E by (cases "q = p") auto
  next
    fix a b' assume "?h a = Some b'"
    then show "references b' = CRYPTO_REFCOUNT_MAX \<or> unat (references b') = count ?U a"
      using k(3) [of a b'] r by (auto split: if_splits)
  next
    fix q assume "q \<in># F"
    then show "\<exists>b'. ?h q = Some b' \<and> in_pool b' \<and> references b' = 1 \<and> At q \<notin># E"
      using k(4) [of q] nf [of q] by simp
  next
    fix q assume "q \<in># D + B"
    then show "\<exists>b'. ?h q = Some b' \<and> references b' = 0" using k(6) [of q] nd [of q] by simp
  next
    fix a b' assume "?h a = Some b'" "references b' = 0"
    then show "a \<in># D + B" using k(11) [of a b'] inc_count(2) [of "references b"] by (cases "a = p") auto
  qed (use k(7-9) in blast)+
qed

lemma consistent_dec:
  assumes c: "consistent h E (add_mset p U) F D B S" and F: "F \<subseteq># U" and b: "h p = Some b"
    and r: "r = decremented (references b)"
  shows "consistent (h(p \<mapsto> b\<lparr>references := r\<rparr>)) E U F
    (if r = 0 \<and> in_pool b then add_mset p D else D) (if r = 0 \<and> \<not> in_pool b then add_mset p B else B) S"
    (is "consistent ?h E U F ?D ?B S")
proof -
  note k = consistentD [OF c]
  have rc: "r = CRYPTO_REFCOUNT_MAX \<or> unat r = count U p"
    using dec_count [of "references b" "count U p"] k(3) [OF b] r by simp
  have alive: "references b \<noteq> 0" using user_alive [OF c _ b] by simp
  have nd: "q \<in># D + B \<Longrightarrow> q \<noteq> p" for q using k(6) [of q] b alive by force
  have nf: "q \<in># F \<Longrightarrow> q \<noteq> p" for q using fresh_only [OF c _ _ F] by blast
  have pb: "in_pool b \<Longrightarrow> At p \<in># E" using k(2) [of p] b nf [of p] by auto
  have nE: "At p \<in># E \<Longrightarrow> in_pool b" using k(1) [of p] b by auto
  show ?thesis unfolding consistent_def
  proof (intro conjI ballI allI impI F)
    fix x assume x: "x \<in># E"
    then obtain q where "x = At q" using k(12) by blast
    then show "\<exists>q b'. x = At q \<and> ?h q = Some b' \<and> in_pool b' \<and> (references b' = 0 \<longrightarrow> q \<in># ?D)"
      using k(1) [of q] x nE by (cases "q = p") auto
  next
    fix q assume "q \<in># U"
    then show "\<exists>b'. ?h q = Some b' \<and> (in_pool b' \<longrightarrow> At q \<in># E \<or> q \<in># F)"
      using k(2) [of q] b by (cases "q = p") auto
  next
    fix a b' assume h: "?h a = Some b'"
    show "references b' = CRYPTO_REFCOUNT_MAX \<or> unat (references b') = count U a"
    proof (cases "a = p")
      case True
      then show ?thesis using h rc by auto
    next
      case False
      then show ?thesis using h k(3) [of a b'] by simp
    qed
  next
    fix q assume "q \<in># F"
    then show "\<exists>b'. ?h q = Some b' \<and> in_pool b' \<and> references b' = 1 \<and> At q \<notin># E"
      using k(4) [of q] nf [of q] by simp
  next
    fix q assume "q \<in># ?D + ?B"
    then show "\<exists>b'. ?h q = Some b' \<and> references b' = 0"
      using k(6) [of q] nd [of q] by (cases "q = p") (auto split: if_splits)
  next
    fix a
    have "p \<notin># D + B" using nd by blast
    then show "count (?D + ?B) a \<le> 1" using k(7) [of a] by (auto simp: not_in_iff)
  next
    fix q assume "q \<in># ?D" then show "At q \<in># E" using k(8) [of q] pb by (auto split: if_splits)
  next
    fix q assume "q \<in># ?B" then show "At q \<notin># E" using k(9) [of q] nE by (cases "q \<in># B") (auto split: if_splits)
  next
    fix a b' assume h: "?h a = Some b'" "references b' = 0"
    show "a \<in># ?D + ?B" using h k(11) [of a b'] by (cases "a = p") auto
  next
    fix q assume "q \<in># S" then show "At q \<in># E" by (rule k(10))
  qed
qed

lemma consistent_alloc:
  assumes c: "consistent h E U F D B S" and h: "h a = None"
  shows "consistent (h(a \<mapsto> \<lparr>in_pool = pooled, buf_bytes = d, references = 1\<rparr>)) E (add_mset a U)
    (if pooled then add_mset a F else F) D B S" (is "consistent ?h E ?U ?F D B S")
proof -
  note k = consistentD [OF c]
  have nU: "q \<in># U \<Longrightarrow> q \<noteq> a" and nE: "At q \<in># E \<Longrightarrow> q \<noteq> a" and nF: "q \<in># F \<Longrightarrow> q \<noteq> a"
    and nD: "q \<in># D + B \<Longrightarrow> q \<noteq> a" for q
    using k(1) [of q] k(2) [of q] k(4) [of q] k(6) [of q] h by auto
  have n0: "count U a = 0" using nU by (auto simp: count_eq_zero_iff)
  show ?thesis unfolding consistent_def
  proof (intro conjI ballI allI impI)
    show "?F \<subseteq># ?U" using k(5) by (simp add: subset_mset.add_increasing2 subset_mset.order_trans [OF k(5)])
  next
    fix x assume x: "x \<in># E"
    then obtain q where "x = At q" using k(12) by blast
    then show "\<exists>q b'. x = At q \<and> ?h q = Some b' \<and> in_pool b' \<and> (references b' = 0 \<longrightarrow> q \<in># D)"
      using k(1) [of q] x nE [of q] by simp
  next
    fix q assume "q \<in># ?U"
    then show "\<exists>b'. ?h q = Some b' \<and> (in_pool b' \<longrightarrow> At q \<in># E \<or> q \<in># ?F)"
      using k(2) [of q] nU [of q] by auto
  next
    fix x b' assume "?h x = Some b'"
    then show "references b' = CRYPTO_REFCOUNT_MAX \<or> unat (references b') = count ?U x"
      using k(3) [of x b'] n0 by (auto split: if_splits)
  next
    fix q assume "q \<in># ?F"
    then show "\<exists>b'. ?h q = Some b' \<and> in_pool b' \<and> references b' = 1 \<and> At q \<notin># E"
      using k(4) [of q] nF [of q] nE by (auto split: if_splits)
  next
    fix q assume "q \<in># D + B"
    then show "\<exists>b'. ?h q = Some b' \<and> references b' = 0" using k(6) [of q] nD [of q] by simp
  next
    fix x b' assume "?h x = Some b'" "references b' = 0"
    then show "x \<in># D + B" using k(11) [of x b'] by (cases "x = a") auto
  qed (use k(7-10) in blast)+
qed

lemma consistent_insert:
  assumes c: "consistent h E U (add_mset p F) D B S"
  shows "consistent h (add_mset (At p) E) U F D B S"
proof -
  note k = consistentD [OF c]
  obtain b where b: "h p = Some b" "in_pool b" "references b = 1" "At p \<notin># E" using k(4) [of p] by auto
  have U: "p \<in># U" using k(5) by (metis insert_subset_eq_iff)
  have "F \<subseteq># U - {#p#}" using k(5) by (simp add: insert_subset_eq_iff)
  then have nf: "q \<in># F \<Longrightarrow> q \<noteq> p" for q
    using fresh_only [of h E p "U - {#p#}" "add_mset p F" D B S q F] c U by simp
  have nd: "q \<in># D + B \<Longrightarrow> q \<noteq> p" for q using k(6) [of q] b by force
  have FU: "F \<subseteq># U" using k(5) by (metis add_mset_add_single mset_subset_eq_add_left subset_mset.order_trans)
  show ?thesis unfolding consistent_def
  proof (intro conjI ballI allI impI FU)
    fix x assume x: "x \<in># add_mset (At p) E"
    then obtain q where "x = At q" using k(12) by auto
    then show "\<exists>q b'. x = At q \<and> h q = Some b' \<and> in_pool b' \<and> (references b' = 0 \<longrightarrow> q \<in># D)"
      using k(1) [of q] x b by auto
  next
    fix q assume "q \<in># U"
    then show "\<exists>b'. h q = Some b' \<and> (in_pool b' \<longrightarrow> At q \<in># add_mset (At p) E \<or> q \<in># F)"
      using k(2) [of q] by auto
  next
    fix q assume "q \<in># F"
    then show "\<exists>b'. h q = Some b' \<and> in_pool b' \<and> references b' = 1 \<and> At q \<notin># add_mset (At p) E"
      using k(4) [of q] nf [of q] by auto
  next
    fix q assume "q \<in># D" then show "At q \<in># add_mset (At p) E" using k(8) by simp
  next
    fix q assume "q \<in># B" then show "At q \<notin># add_mset (At p) E" using k(9) [of q] nd [of q] by auto
  next
    fix q assume "q \<in># S" then show "At q \<in># add_mset (At p) E" using k(10) by simp
  qed (use k(3,6,7,11) in blast)+
qed

lemma consistent_delete:
  assumes c: "consistent h E U F (add_mset p D) B S" and u: "At p \<notin># E - {#At p#}" and S: "p \<notin># S"
  shows "consistent h (E - {#At p#}) U F D (add_mset p B) S"
proof -
  note k = consistentD [OF c]
  obtain b where b: "h p = Some b" "references b = 0" using k(6) [of p] by auto
  have nU: "q \<in># U \<Longrightarrow> q \<noteq> p" for q using user_alive [OF c, of q b] b by auto
  have sub: "x \<in># E - {#At p#} \<longleftrightarrow> x \<in># E \<and> x \<noteq> At p" for x
    using u in_diff_count [of x E "{#At p#}"] by (cases "x = At p") (auto dest: in_diffD)
  have nD: "p \<notin># D"
  proof
    assume "p \<in># D"
    then show False using k(7) [of p] by (simp add: count_eq_zero_iff)
  qed
  show ?thesis unfolding consistent_def
  proof (intro conjI ballI allI impI k(5))
    fix x assume x: "x \<in># E - {#At p#}"
    then obtain q where "x = At q" using k(12) by (auto simp: sub)
    then show "\<exists>q b'. x = At q \<and> h q = Some b' \<and> in_pool b' \<and> (references b' = 0 \<longrightarrow> q \<in># D)"
      using k(1) [of q] x by (auto simp: sub)
  next
    fix q assume "q \<in># U"
    then show "\<exists>b'. h q = Some b' \<and> (in_pool b' \<longrightarrow> At q \<in># E - {#At p#} \<or> q \<in># F)"
      using k(2) [of q] nU [of q] by (auto simp: sub)
  next
    fix q assume "q \<in># F"
    then show "\<exists>b'. h q = Some b' \<and> in_pool b' \<and> references b' = 1 \<and> At q \<notin># E - {#At p#}"
      using k(4) [of q] by (auto simp: sub)
  next
    fix q assume "q \<in># D" then show "At q \<in># E - {#At p#}" using k(8) [of q] nD by (auto simp: sub)
  next
    fix q assume "q \<in># add_mset p B" then show "At q \<notin># E - {#At p#}" using k(9) [of q] by (auto simp: sub)
  next
    fix q assume "q \<in># S" then show "At q \<in># E - {#At p#}" using k(10) [of q] S by (auto simp: sub)
  next
    fix q assume "q \<in># D + add_mset p B" then show "\<exists>b. h q = Some b \<and> references b = 0" using k(6) [of q] by auto
  next
    fix a show "count (D + add_mset p B) a \<le> 1" using k(7) [of a] by simp
  next
    fix a b assume "h a = Some b" "references b = 0"
    then show "a \<in># D + add_mset p B" using k(11) [of a b] by simp
  qed (use k(3) in blast)
qed

lemma consistent_unused:
  assumes c: "consistent h E U' F' D B' S" and n: "At p \<notin># E" "p \<notin># U" "p \<notin># D + B"
    and sub: "F \<subseteq># U" "U \<subseteq># U'" "F \<subseteq># F'" "B \<subseteq># B'"
    and U: "\<And>a. a \<noteq> p \<Longrightarrow> count U a = count U' a" and F: "\<And>q. q \<in># F' \<Longrightarrow> q \<noteq> p \<Longrightarrow> q \<in># F"
    and B: "\<And>q. q \<in># B' \<Longrightarrow> q \<noteq> p \<Longrightarrow> q \<in># B"
  shows "consistent (h(p := None)) E U F D B S"
proof -
  note k = consistentD [OF c]
  have nF: "q \<in># F \<Longrightarrow> q \<noteq> p" for q using n(2) mset_subset_eqD [OF sub(1)] by blast
  have BB: "q \<in># D + B \<Longrightarrow> q \<in># D + B'" for q using sub(4) by (auto dest: mset_subset_eqD)
  show ?thesis unfolding consistent_def
  proof (intro conjI ballI allI impI sub(1))
    fix x assume x: "x \<in># E"
    then obtain q where "x = At q" using k(12) by blast
    then show "\<exists>q b'. x = At q \<and> (h(p := None)) q = Some b' \<and> in_pool b' \<and> (references b' = 0 \<longrightarrow> q \<in># D)"
      using k(1) [of q] x n(1) by auto
  next
    fix q assume "q \<in># U"
    then show "\<exists>b'. (h(p := None)) q = Some b' \<and> (in_pool b' \<longrightarrow> At q \<in># E \<or> q \<in># F)"
      using k(2) [of q] n(2) mset_subset_eqD [OF sub(2), of q] F [of q] by auto
  next
    fix a b' assume "(h(p := None)) a = Some b'"
    then show "references b' = CRYPTO_REFCOUNT_MAX \<or> unat (references b') = count U a"
      using k(3) [of a b'] U [of a] by (simp split: if_splits)
  next
    fix q assume "q \<in># F"
    then show "\<exists>b'. (h(p := None)) q = Some b' \<and> in_pool b' \<and> references b' = 1 \<and> At q \<notin># E"
      using k(4) [of q] nF [of q] mset_subset_eqD [OF sub(3), of q] by simp
  next
    fix q assume "q \<in># D + B"
    then show "\<exists>b'. (h(p := None)) q = Some b' \<and> references b' = 0" using k(6) [OF BB] n(3) by auto
  next
    fix a
    have "D + B \<subseteq># D + B'" using sub(4) by simp
    then show "count (D + B) a \<le> 1" using k(7) [of a] by (meson mset_subset_eq_count order_trans)
  next
    fix q assume "q \<in># B" then show "At q \<notin># E" using k(9) mset_subset_eqD [OF sub(4)] by blast
  next
    fix a b' assume h: "(h(p := None)) a = Some b'" "references b' = 0"
    then have "a \<noteq> p" by auto
    then show "a \<in># D + B" using k(11) [of a b'] h B [of a] by auto
  qed (use k(8,10) in blast)+
qed

lemma consistent_discard:
  assumes "consistent h E (add_mset p U) (add_mset p F) D B S"
  shows "consistent (h(p := None)) E U F D B S" "h p \<noteq> None"
proof -
  note k = consistentD [OF assms]
  obtain b where b: "h p = Some b" "references b = 1" "At p \<notin># E" using k(4) [of p] by auto
  have "count (add_mset p U) p = 1" using k(3) [OF b(1)] b(2) by (auto simp: CRYPTO_REFCOUNT_MAX_def)
  then have u: "p \<notin># U" by (simp add: count_eq_zero_iff)
  have d: "p \<notin># D + B" using k(6) [of p] b by auto
  have "F \<subseteq># U" using k(5) by simp
  then have "consistent (h(p := None)) E U F D B S"
    by (intro consistent_unused [OF assms b(3) u d]) auto
  then show "consistent (h(p := None)) E U F D B S" "h p \<noteq> None" using b(1) by simp_all
qed

lemma consistent_free:
  assumes "consistent h E U F D (add_mset p B) S"
  shows "consistent (h(p := None)) E U F D B S" "h p \<noteq> None"
proof -
  note k = consistentD [OF assms]
  obtain b where b: "h p = Some b" "references b = 0" using k(6) [of p] by auto
  have E: "At p \<notin># E" using k(9) [of p] by simp
  have u: "p \<notin># U" using user_alive [OF assms, of _ b] b by auto
  have "count (D + B) p = 0" using k(7) [of p] by simp
  then have d: "p \<notin># D + B" by (simp only: count_eq_zero_iff not_False_eq_True)
  have "consistent (h(p := None)) E U F D B S"
    by (intro consistent_unused [OF assms E u d k(5)]) auto
  then show "consistent (h(p := None)) E U F D B S" "h p \<noteq> None" using b(1) by simp_all
qed

section \<open>The table and the memory\<close>

abbreviation buffers_ok :: "memory \<Rightarrow> buffer lhash \<Rightarrow> bool" where
  "buffers_ok h lh \<equiv> lh_ok (CRYPTO_BUFFER_hash h) (CRYPTO_BUFFER_cmp h) lh \<and> callback_depth lh = 0"

text \<open>The order of the table depends only on the bytes of its elements.\<close>

lemma lh_ok_memory:
  assumes ok: "lh_ok (CRYPTO_BUFFER_hash h) (CRYPTO_BUFFER_cmp h) lh"
    and same: "\<And>x. x \<in># elems lh \<Longrightarrow> bytes_of h' x = bytes_of h x"
  shows "lh_ok (CRYPTO_BUFFER_hash h') (CRYPTO_BUFFER_cmp h') lh"
proof -
  note k = lh_okD [OF ok]
  have "bytes_of h' (item_data it) = bytes_of h (item_data it)" if "i < length (buckets lh)" "it \<in> set (buckets lh ! i)" for i it
    using same chain_in_elems that by blast
  then have "chained (CRYPTO_BUFFER_hash h') (buckets lh)"
    using k(4) unfolding chained_def CRYPTO_BUFFER_hash_def by metis
  moreover have "unique (CRYPTO_BUFFER_cmp h') (elems lh)" unfolding unique_def
  proof
    fix x
    have "filter_mset (\<lambda>y. CRYPTO_BUFFER_cmp h' y x = 0) (elems lh) =
        filter_mset (\<lambda>y. CRYPTO_BUFFER_cmp h y (Tmp (bytes_of h' x)) = 0) (elems lh)"
      by (rule filter_mset_cong) (simp_all add: CRYPTO_BUFFER_cmp_0 same, simp add: bytes_of_def)
    then show "size (filter_mset (\<lambda>y. CRYPTO_BUFFER_cmp h' y x = 0) (elems lh)) \<le> 1"
      using k(5) unfolding unique_def by simp
  qed
  ultimately show ?thesis using k(1-3) by (simp add: lh_ok_def)
qed

lemma bytes_of_At: "bytes_of (h(p \<mapsto> b)) (At q) = (if q = p then buf_bytes b else bytes_of h (At q))"
  "bytes_of (h(p := None)) (At q) = (if q = p then [] else bytes_of h (At q))"
  by (simp_all add: bytes_of_def)

lemma elems_At: "consistent h E U F D B S \<Longrightarrow> x \<in># E \<Longrightarrow> \<exists>p b. x = At p \<and> h p = Some b \<and> in_pool b"
  unfolding consistent_def by blast

lemma buffers_ok_update:
  assumes "buffers_ok h lh" "h p = Some b" "buf_bytes b' = buf_bytes b"
  shows "buffers_ok (h(p \<mapsto> b')) lh"
proof -
  have "bytes_of (h(p \<mapsto> b')) x = bytes_of h x" for x
    using assms(2,3) by (cases x) (auto simp: bytes_of_def)
  then show ?thesis using assms(1) lh_ok_memory by blast
qed

lemma buffers_ok_other:
  assumes "buffers_ok h lh" "At p \<notin># elems lh"
  shows "buffers_ok (h(p := b)) lh"
proof -
  have "bytes_of (h(p := b)) x = bytes_of h x" if "x \<in># elems lh" for x
    using assms(2) that by (cases x) (auto simp: bytes_of_def)
  then show ?thesis using assms(1) lh_ok_memory by blast
qed

lemma consistent_readable:
  assumes "consistent (heap s) (elems (bufs s)) U F D B S" "contents (heap s) buf \<noteq> None"
  shows "readable s buf"
  using assms elems_At [OF assms(1)] by (fastforce simp: readable_def)

section \<open>Every step succeeds and keeps the invariant\<close>

definition unpooled_ok :: "memory \<Rightarrow> pc multiset \<Rightarrow> bool" where
  "unpooled_ok h C \<longleftrightarrow> (\<forall>p \<in># allof unpooled C. \<forall>b. h p = Some b \<longrightarrow> \<not> in_pool b)"

lemma unpooled_ok_simps [simp]:
  "unpooled_ok h {#}"
  "unpooled_ok h (add_mset c C) \<longleftrightarrow> (\<forall>p \<in># unpooled c. \<forall>b. h p = Some b \<longrightarrow> \<not> in_pool b) \<and> unpooled_ok h C"
  by (auto simp: unpooled_ok_def)

lemma unpooled_ok_update: "unpooled_ok h C \<Longrightarrow> h p = Some b \<Longrightarrow> in_pool b' = in_pool b \<Longrightarrow> unpooled_ok (h(p \<mapsto> b')) C"
  by (auto simp: unpooled_ok_def)

lemma unpooled_ok_none: "unpooled_ok h C \<Longrightarrow> unpooled_ok (h(p := None)) C"
  by (auto simp: unpooled_ok_def)

definition pool_ok :: "pool \<Rightarrow> pc multiset \<Rightarrow> bool" where
  "pool_ok s C \<longleftrightarrow> buffers_ok (heap s) (bufs s) \<and> locked (lock s) C \<and> ((\<forall>c \<in># C. pc_ok c) \<and> unpooled_ok (heap s) C) \<and>
    consistent (heap s) (elems (bufs s)) (handles s + allof owned C) (allof fresh C) (allof deleting C) (allof freeing C)
      (allof seen C)"

text \<open>The call \<open>c\<close> can make its next step, and the invariant holds after it.\<close>

definition goes_on :: "alloc \<Rightarrow> ptr \<Rightarrow> bool \<Rightarrow> pool \<Rightarrow> pc \<Rightarrow> pc multiset \<Rightarrow> bool" where
  "goes_on am a spurious s c C \<longleftrightarrow> (\<exists>s' k. step am a spurious s c = Some (s', k) \<and>
     pool_ok s' (case k of None \<Rightarrow> C | Some c' \<Rightarrow> add_mset c' C))"

lemma goes_onI: "step am a spurious s c = Some (s', k) \<Longrightarrow> pool_ok s' (case k of None \<Rightarrow> C | Some c' \<Rightarrow> add_mset c' C) \<Longrightarrow>
    goes_on am a spurious s c C"
  by (auto simp: goes_on_def)

lemma pool_okD:
  assumes "pool_ok s (add_mset c C)"
  shows "buffers_ok (heap s) (bufs s)" "locked (lock s) (add_mset c C)" "(\<forall>c \<in># C. pc_ok c) \<and> unpooled_ok (heap s) C" "pc_ok c"
    "consistent (heap s) (elems (bufs s)) (handles s + (owned c + allof owned C)) (fresh c + allof fresh C)
      (deleting c + allof deleting C) (freeing c + allof freeing C) (seen c + allof seen C)"
  using assms by (auto simp: pool_ok_def)

lemma fresh_sub: "allof fresh C \<subseteq># allof owned C"
proof (induction C)
  case (add c C)
  have "fresh c \<subseteq># owned c" by (cases c) simp_all
  then show ?case using add by (simp add: subset_mset.add_mono)
qed simp

lemma allofD: "p \<in># allof f C \<Longrightarrow> \<exists>c \<in># C. p \<in># f c"
  by (induction C) auto

lemma allofI: "c \<in># C \<Longrightarrow> p \<in># f c \<Longrightarrow> p \<in># allof f C"
  by (induction C) auto

lemma seen_holds: "p \<in># allof seen C \<Longrightarrow> (\<exists>c \<in># C. reading c \<or> writing c) \<or> p \<in># allof owned C"
proof (induction C)
  case (add c C)
  have "p \<in># seen c \<Longrightarrow> reading c \<or> writing c \<or> p \<in># owned c" by (cases c) auto
  with add show ?case by auto
qed simp

lemma deleting_writes: "p \<in># allof deleting C \<Longrightarrow> \<exists>c \<in># C. writing c"
proof -
  have "p \<in># deleting c \<Longrightarrow> writing c" for c by (cases c) auto
  then show "p \<in># allof deleting C \<Longrightarrow> \<exists>c \<in># C. writing c" using allofD by metis
qed

lemma holder_no_deleting:
  assumes "locked l (add_mset c C)" "reading c \<or> writing c"
  shows "p \<notin># allof deleting C"
  using deleting_writes [of p C] locked_reader [OF assms(1)] locked_writer(2) [OF assms(1)] assms(2) by blast

lemma on_New_lock_read:
  assumes "pool_ok s (add_mset (New_lock_read d) C)" "not_blocked (New_lock_read d) s"
  shows "goes_on am a spurious s (New_lock_read d) C"
proof -
  note k = pool_okD [OF assms(1)]
  obtain l where l: "CRYPTO_MUTEX_lock_read (lock s) = Some l" using assms(2) by auto
  have "locked l (add_mset (New_retrieve_R d) C)"
    using lock_read_ok [OF locked_out [OF k(2)] l, of "New_retrieve_R d"] by simp
  then show ?thesis using l k by (simp add: goes_on_def pool_ok_def)
qed

lemma on_New_lock_write:
  assumes "pool_ok s (add_mset (New_lock_write d p) C)" "not_blocked (New_lock_write d p) s"
  shows "goes_on am a spurious s (New_lock_write d p) C"
proof -
  note k = pool_okD [OF assms(1)]
  obtain l where l: "CRYPTO_MUTEX_lock_write (lock s) = Some l" using assms(2) by auto
  have "locked l (add_mset (New_insert_W d p) C)"
    using lock_write_ok [OF locked_out [OF k(2)] l, of "New_insert_W d p"] by simp
  then show ?thesis using l k by (simp add: goes_on_def pool_ok_def)
qed

lemma on_Free_lock_write:
  assumes "pool_ok s (add_mset (Free_lock_write p) C)" "not_blocked (Free_lock_write p) s"
  shows "goes_on am a spurious s (Free_lock_write p) C"
proof -
  note k = pool_okD [OF assms(1)]
  obtain l where l: "CRYPTO_MUTEX_lock_write (lock s) = Some l" using assms(2) by auto
  have "locked l (add_mset (Free_dec_W p Load) C)"
    using lock_write_ok [OF locked_out [OF k(2)] l, of "Free_dec_W p Load"] by simp
  then show ?thesis using l k by (simp add: goes_on_def pool_ok_def)
qed

lemma on_New_retrieve:
  assumes "pool_ok s (add_mset (New_retrieve_R d) C)"
  shows "goes_on am a spurious s (New_retrieve_R d) C"
proof -
  note k = pool_okD [OF assms]
  have r: "readable s (Tmp d)" by (rule consistent_readable [OF k(5)]) simp
  show ?thesis
  proof (cases "lh_retrieve (CRYPTO_BUFFER_hash (heap s)) (CRYPTO_BUFFER_cmp (heap s)) (bufs s) (Tmp d)")
    case None
    have "locked (lock s) (add_mset (New_unlock_R d None) C)" by (rule locked_same [OF k(2)]) simp_all
    then show ?thesis using None k r by (simp add: goes_on_def pool_ok_def)
  next
    case (Some x)
    then have x: "x \<in># elems (bufs s)" using buffers.lh_retrieve_iff k(1) by blast
    then obtain p where p: "x = At p" using consistentD(12) [OF k(5)] by blast
    have "locked (lock s) (add_mset (New_inc_R d p Load) C)" by (rule locked_same [OF k(2)]) simp_all
    moreover have "consistent (heap s) (elems (bufs s)) (handles s + allof owned C) (allof fresh C) (allof deleting C)
        (allof freeing C) (add_mset p (allof seen C))"
      using consistent_seen [OF k(5), of "add_mset p (allof seen C)"] consistentD(10) [OF k(5)] x p by auto
    ultimately show ?thesis using Some p k r by (simp add: goes_on_def pool_ok_def)
  qed
qed

lemma set_count_same: "heap s p = Some b \<Longrightarrow> set_count p b (references b) s = s"
  by (simp add: set_count_def fun_upd_idem)

lemma set_count_simps [simp]:
  "bufs (set_count p b n s) = bufs s" "lock (set_count p b n s) = lock s" "handles (set_count p b n s) = handles s"
  "heap (set_count p b n s) = (heap s)(p \<mapsto> b\<lparr>references := n\<rparr>)"
  by (simp_all add: set_count_def)

lemma give_simps [simp]:
  "bufs (give p s) = bufs s" "lock (give p s) = lock s" "handles (give p s) = add_mset p (handles s)" "heap (give p s) = heap s"
  by (simp_all add: give_def)

lemma deallocate_simps [simp]:
  "bufs (deallocate p s) = bufs s" "lock (deallocate p s) = lock s" "handles (deallocate p s) = handles s"
  "heap (deallocate p s) = (heap s)(p := None)"
  by (simp_all add: deallocate_def)

text \<open>A call that goes on in the same place with another value of \<open>expected\<close>.\<close>

lemma pool_ok_retry:
  assumes "pool_ok s (add_mset c C)" "pc_ok c'" "reading c' = reading c" "writing c' = writing c" "owned c' = owned c"
    "fresh c' = fresh c" "deleting c' = deleting c" "freeing c' = freeing c" "seen c' = seen c"
    "unpooled c' = unpooled c"
  shows "pool_ok s (add_mset c' C)"
  using assms locked_same [of "lock s" c C c'] by (simp add: pool_ok_def)

text \<open>An access of a loop that increments a count.\<close>

lemma on_inc:
  assumes ok: "pool_ok s (add_mset c C)" and b: "heap s p = Some b" "references b \<noteq> 0" "in_pool b \<longrightarrow> At p \<in># elems (bufs s)"
    and nf: "p \<notin># fresh c + allof fresh C"
    and i: "CRYPTO_refcount_inc spurious loop (references b) = (n', nx)" "\<forall>e. loop = Exchange e \<longrightarrow> e \<noteq> CRYPTO_REFCOUNT_MAX"
  obtains "nx = None" "buffers_ok (heap (set_count p b n' s)) (bufs s)" "unpooled_ok (heap (set_count p b n' s)) C"
      "consistent (heap (set_count p b n' s)) (elems (bufs s)) (add_mset p (handles s + (owned c + allof owned C)))
        (fresh c + allof fresh C) (deleting c + allof deleting C) (freeing c + allof freeing C) (allof seen C)"
  | "nx = Some (Exchange (references b))" "references b \<noteq> CRYPTO_REFCOUNT_MAX" "set_count p b n' s = s"
proof -
  note k = pool_okD [OF ok]
  have "buffers_ok (heap (set_count p b n' s)) (bufs s)" unfolding set_count_simps by (rule buffers_ok_update [OF k(1) b(1)]) simp
  moreover have "unpooled_ok (heap (set_count p b n' s)) C" using unpooled_ok_update [OF conjunct2 [OF k(3)] b(1)] by simp
  moreover have "consistent ((heap s)(p \<mapsto> b\<lparr>references := incremented (references b)\<rparr>)) (elems (bufs s))
      (add_mset p (handles s + (owned c + allof owned C))) (fresh c + allof fresh C) (deleting c + allof deleting C)
      (freeing c + allof freeing C) (allof seen C)"
    by (rule consistent_inc [OF k(5) b(1,2)]) (use b(3) nf in auto)
  ultimately show ?thesis using inc_access [OF i] that set_count_same [OF b(1)] by auto
qed

lemma on_New_inc_R:
  assumes "pool_ok s (add_mset (New_inc_R d p loop) C)"
  shows "goes_on am a spurious s (New_inc_R d p loop) C"
proof -
  note k = pool_okD [OF assms]
  have E: "At p \<in># elems (bufs s)" using consistentD(10) [OF k(5), of p] by simp
  then obtain b where b: "heap s p = Some b" "references b \<noteq> 0"
    using consistentD(1) [OF k(5) E] holder_no_deleting [OF k(2)] by auto
  have nf: "p \<notin># fresh (New_inc_R d p loop) + allof fresh C" using consistentD(4) [OF k(5), of p] E by auto
  obtain n' nx where i: "CRYPTO_refcount_inc spurious loop (references b) = (n', nx)" by fastforce
  have l: "\<forall>e. loop = Exchange e \<longrightarrow> e \<noteq> CRYPTO_REFCOUNT_MAX" using k(4) by auto
  from on_inc [OF assms b impI [OF E] nf i l] show ?thesis
  proof cases
    case 1
    have "locked (lock s) (add_mset (New_unlock_R d (Some p)) C)" by (rule locked_same [OF k(2)]) simp_all
    then have "pool_ok (set_count p b n' s) (add_mset (New_unlock_R d (Some p)) C)"
      using k(3) 1 by (simp add: pool_ok_def)
    then show ?thesis using b(1) i 1 by (intro goes_onI) auto
  next
    case 2
    then have "pool_ok s (add_mset (New_inc_R d p (Exchange (references b))) C)" by (intro pool_ok_retry [OF assms]) simp_all
    then show ?thesis using b(1) i 2 by (intro goes_onI) auto
  qed
qed

lemma on_New_inc_W:
  assumes "pool_ok s (add_mset (New_inc_W d p q loop) C)"
  shows "goes_on am a spurious s (New_inc_W d p q loop) C"
proof -
  note k = pool_okD [OF assms]
  have E: "At q \<in># elems (bufs s)" using consistentD(10) [OF k(5), of q] by simp
  then obtain b where b: "heap s q = Some b" "references b \<noteq> 0"
    using consistentD(1) [OF k(5) E] holder_no_deleting [OF k(2)] by auto
  have nf: "q \<notin># fresh (New_inc_W d p q loop) + allof fresh C" using consistentD(4) [OF k(5), of q] E by auto
  obtain n' nx where i: "CRYPTO_refcount_inc spurious loop (references b) = (n', nx)" by fastforce
  have l: "\<forall>e. loop = Exchange e \<longrightarrow> e \<noteq> CRYPTO_REFCOUNT_MAX" using k(4) by auto
  from on_inc [OF assms b impI [OF E] nf i l] show ?thesis
  proof cases
    case 1
    have "locked (lock s) (add_mset (New_unlock_W d p (Some q) False) C)" by (rule locked_same [OF k(2)]) simp_all
    then have "pool_ok (set_count q b n' s) (add_mset (New_unlock_W d p (Some q) False) C)"
      using k(3) 1 by (simp add: pool_ok_def add_mset_commute)
    then show ?thesis using b(1) i 1 by (intro goes_onI) auto
  next
    case 2
    then have "pool_ok s (add_mset (New_inc_W d p q (Exchange (references b))) C)" by (intro pool_ok_retry [OF assms]) simp_all
    then show ?thesis using b(1) i 2 by (intro goes_onI) auto
  qed
qed

lemma on_Up_ref:
  assumes "pool_ok s (add_mset (Up_ref p loop) C)"
  shows "goes_on am a spurious s (Up_ref p loop) C"
proof -
  note k = pool_okD [OF assms]
  have c: "consistent (heap s) (elems (bufs s)) (add_mset p (handles s + allof owned C)) (allof fresh C)
      (allof deleting C) (allof freeing C) (allof seen C)" using k(5) by simp
  have "allof fresh C \<subseteq># handles s + allof owned C"
    using fresh_sub [of C] by (meson mset_subset_eq_add_right subset_mset.order_trans)
  then have nf: "p \<notin># fresh (Up_ref p loop) + allof fresh C" using fresh_only [OF c, of p "allof fresh C"] by auto
  obtain b where b: "heap s p = Some b" "in_pool b \<longrightarrow> At p \<in># elems (bufs s)"
    using consistentD(2) [OF c, of p] nf by auto
  have r: "references b \<noteq> 0" using user_alive [OF c _ b(1)] by simp
  obtain n' nx where i: "CRYPTO_refcount_inc spurious loop (references b) = (n', nx)" by fastforce
  have l: "\<forall>e. loop = Exchange e \<longrightarrow> e \<noteq> CRYPTO_REFCOUNT_MAX" using k(4) by auto
  from on_inc [OF assms b(1) r b(2) nf i l] show ?thesis
  proof cases
    case 1
    have "locked (lock s) C" by (rule locked_out [OF k(2)]) simp_all
    then have "pool_ok (give p (give p (set_count p b n' s))) C"
      using k(3) 1 by (simp add: pool_ok_def)
    then show ?thesis using b(1) i 1 by (intro goes_onI) auto
  next
    case 2
    then have "pool_ok s (add_mset (Up_ref p (Exchange (references b))) C)" by (intro pool_ok_retry [OF assms]) simp_all
    then show ?thesis using b(1) i 2 by (intro goes_onI) auto
  qed
qed

lemma on_New_unlock_R:
  assumes "pool_ok s (add_mset (New_unlock_R d dup) C)"
  shows "goes_on am a spurious s (New_unlock_R d dup) C"
proof -
  note k = pool_okD [OF assms]
  obtain l where l: "CRYPTO_MUTEX_unlock_read (lock s) = Some l" "locked l C" by (rule unlock_read_ok [OF k(2)]) simp_all
  then show ?thesis using k locked_add [of l C "New_buffer d True"]
    by (cases dup) (simp_all add: goes_on_def pool_ok_def)
qed

lemma on_New_unlock_W:
  assumes "pool_ok s (add_mset (New_unlock_W d p dup ins) C)"
  shows "goes_on am a spurious s (New_unlock_W d p dup ins) C"
proof -
  note k = pool_okD [OF assms(1)]
  obtain l where l: "CRYPTO_MUTEX_unlock_write (lock s) = Some l" "locked l C" by (rule unlock_write_ok [OF k(2)]) simp_all
  then show ?thesis using k locked_add [of l C "New_discard d p dup"]
    by (cases ins) (simp_all add: goes_on_def pool_ok_def)
qed

lemma unpooled_sub: "allof unpooled C \<subseteq># allof owned C"
proof (induction C)
  case (add c C)
  have "unpooled c \<subseteq># owned c" by (cases c) simp_all
  then show ?case using add by (simp add: subset_mset.add_mono)
qed simp

lemma unpooled_ok_alloc:
  assumes "consistent h E (H + allof owned C) F D B S" "unpooled_ok h C" "h a = None"
  shows "unpooled_ok (h(a \<mapsto> b)) C"
proof -
  have "p \<noteq> a" if "p \<in># allof unpooled C" for p
  proof -
    have "p \<in># H + allof owned C" using mset_subset_eqD [OF unpooled_sub that] by simp
    then show ?thesis using consistentD(2) [OF assms(1), of p] assms(3) by auto
  qed
  then show ?thesis using assms(2) by (auto simp: unpooled_ok_def)
qed

lemma on_New_buffer:
  assumes "pool_ok s (add_mset (New_buffer d pooled) C)" "heap s a = None"
  shows "goes_on am a spurious s (New_buffer d pooled) C"
proof -
  note k = pool_okD [OF assms(1)]
  have c: "consistent (heap s) (elems (bufs s)) (handles s + allof owned C) (allof fresh C) (allof deleting C)
    (allof freeing C) (allof seen C)" using k(5) by simp
  have lo: "locked (lock s) C" by (rule locked_out [OF k(2)]) simp_all
  then have same: "pool_ok s C" using k c by (simp add: pool_ok_def)
  have ex: "locked (lock s) (add_mset (New_lock_write d p) C)" for p using locked_add [OF lo] by simp
  show ?thesis
  proof (cases "OPENSSL_malloc am 32 = None \<or> length d \<noteq> 0 \<and> OPENSSL_memdup am d = None")
    case True
    then show ?thesis using same by (intro goes_onI [of _ _ _ _ _ s None]) (auto split: option.split)
  next
    case False
    define bs where "bs = (case OPENSSL_memdup am d of None \<Rightarrow> [] | Some bytes \<Rightarrow> bytes)"
    have nE: "At a \<notin># elems (bufs s)" using consistentD(1) [OF c, of a] assms(2) by auto
    have up: "unpooled_ok ((heap s)(a \<mapsto> \<lparr>in_pool = pooled, buf_bytes = bs, references = 1\<rparr>)) C"
      by (rule unpooled_ok_alloc [OF c _ assms(2)]) (simp add: k(3))
    have bo: "buffers_ok ((heap s)(a \<mapsto> \<lparr>in_pool = pooled, buf_bytes = bs, references = 1\<rparr>)) (bufs s)"
      by (rule buffers_ok_other [OF k(1) nE])
    show ?thesis
      using False k(3) lo ex bo up consistent_alloc [OF c assms(2), of pooled bs]
      by (cases pooled) (auto simp: goes_on_def pool_ok_def bs_def Let_def)
  qed
qed

lemma on_Alloc:
  assumes "pool_ok s (add_mset (Alloc n) C)" "heap s a = None"
  shows "goes_on am a spurious s (Alloc n) C"
proof -
  note k = pool_okD [OF assms(1)]
  have c: "consistent (heap s) (elems (bufs s)) (handles s + allof owned C) (allof fresh C) (allof deleting C)
    (allof freeing C) (allof seen C)" using k(5) by simp
  have lo: "locked (lock s) C" by (rule locked_out [OF k(2)]) simp_all
  then have same: "pool_ok s C" using k c by (simp add: pool_ok_def)
  show ?thesis
  proof (cases "OPENSSL_malloc am 32 = None \<or> n \<noteq> 0 \<and> OPENSSL_malloc am n = None")
    case True
    then show ?thesis using same by (intro goes_onI [of _ _ _ _ _ s None]) (auto split: option.split)
  next
    case False
    define bs where "bs = (case OPENSSL_malloc am n of None \<Rightarrow> [] | Some bytes \<Rightarrow> bytes)"
    have nE: "At a \<notin># elems (bufs s)" using consistentD(1) [OF c, of a] assms(2) by auto
    have up: "unpooled_ok ((heap s)(a \<mapsto> \<lparr>in_pool = False, buf_bytes = bs, references = 1\<rparr>)) C"
      by (rule unpooled_ok_alloc [OF c _ assms(2)]) (simp add: k(3))
    have bo: "buffers_ok ((heap s)(a \<mapsto> \<lparr>in_pool = False, buf_bytes = bs, references = 1\<rparr>)) (bufs s)"
      by (rule buffers_ok_other [OF k(1) nE])
    show ?thesis
      using False k(3) lo bo up consistent_alloc [OF c assms(2), of False bs]
      by (auto simp: goes_on_def pool_ok_def bs_def Let_def)
  qed
qed

lemma on_New_insert:
  assumes "pool_ok s (add_mset (New_insert_W d p) C)"
  shows "goes_on am a spurious s (New_insert_W d p) C"
proof -
  note k = pool_okD [OF assms]
  obtain b where b: "heap s p = Some b" using consistentD(4) [OF k(5), of p] by auto
  have r: "readable s (At p)" by (rule consistent_readable [OF k(5)]) (simp add: b)
  show ?thesis
  proof (cases "lh_retrieve (CRYPTO_BUFFER_hash (heap s)) (CRYPTO_BUFFER_cmp (heap s)) (bufs s) (At p)")
    case (Some x)
    then have x: "x \<in># elems (bufs s)" using buffers.lh_retrieve_iff k(1) by blast
    then obtain q where q: "x = At q" using consistentD(12) [OF k(5)] by blast
    have "locked (lock s) (add_mset (New_inc_W d p q Load) C)" by (rule locked_same [OF k(2)]) simp_all
    moreover have "consistent (heap s) (elems (bufs s)) (handles s + add_mset p (allof owned C)) (add_mset p (allof fresh C))
        (allof deleting C) (allof freeing C) (add_mset q (allof seen C))"
      using consistent_seen [OF k(5), of "add_mset q (allof seen C)"] consistentD(10) [OF k(5)] x q by auto
    ultimately show ?thesis using Some q k r by (simp add: goes_on_def pool_ok_def)
  next
    case None
    obtain lh old ins where i: "lh_insert am (CRYPTO_BUFFER_hash (heap s)) (CRYPTO_BUFFER_cmp (heap s)) (bufs s) (At p) = (lh, old, ins)"
      by (metis prod_cases3)
    note in_ok = buffers.lh_insert_ok [OF conjunct1 [OF k(1)] i]
    have o: "old = None" using in_ok(2) None by simp
    have depth: "callback_depth lh = 0"
      using lh_insert_depth [of am "CRYPTO_BUFFER_hash (heap s)" "CRYPTO_BUFFER_cmp (heap s)" "bufs s" "At p"] i k(1) by simp
    have lo: "locked (lock s) (add_mset (New_unlock_W d p None ins) C)" by (rule locked_same [OF k(2)]) simp_all
    have "consistent (heap s) (elems lh) (handles s + add_mset p (allof owned C)) (if ins then allof fresh C else add_mset p (allof fresh C))
          (allof deleting C) (allof freeing C) (allof seen C)"
    proof (cases ins)
      case True
      have "consistent (heap s) (add_mset (At p) (elems (bufs s))) (handles s + add_mset p (allof owned C)) (allof fresh C)
          (allof deleting C) (allof freeing C) (allof seen C)"
        using k(5) by (intro consistent_insert) simp
      then show ?thesis using in_ok(3) o True by simp
    next
      case False
      then show ?thesis using k(5) in_ok(3) by simp
    qed
    then have "pool_ok (s\<lparr>bufs := lh\<rparr>) (add_mset (New_unlock_W d p None ins) C)"
      using in_ok(1) depth lo k(3) by (cases ins) (simp_all add: pool_ok_def)
    then show ?thesis using None i o r by (intro goes_onI [of _ _ _ _ _ "s\<lparr>bufs := lh\<rparr>" "Some (New_unlock_W d p None ins)"]) auto
  qed
qed

lemma on_New_discard:
  assumes "pool_ok s (add_mset (New_discard d p dup) C)"
  shows "goes_on am a spurious s (New_discard d p dup) C"
proof -
  note k = pool_okD [OF assms]
  have c: "consistent (heap s) (elems (bufs s)) (add_mset p (handles s + optional dup + allof owned C))
     (add_mset p (allof fresh C)) (allof deleting C) (allof freeing C) (allof seen C)"
    using k(5) by (simp add: ac_simps)
  have "At p \<notin># elems (bufs s)" using consistentD(4) [OF c, of p] by auto
  then have "buffers_ok ((heap s)(p := None)) (bufs s)" by (rule buffers_ok_other [OF k(1)])
  moreover have "locked (lock s) C" by (rule locked_out [OF k(2)]) simp_all
  ultimately show ?thesis
    using k(3) consistent_discard [OF c] by (cases dup) (auto simp: goes_on_def pool_ok_def Let_def unpooled_ok_none)
qed

lemma on_Free_buffer:
  assumes "pool_ok s (add_mset (Free_buffer p) C)"
  shows "goes_on am a spurious s (Free_buffer p) C"
proof -
  note k = pool_okD [OF assms]
  have c: "consistent (heap s) (elems (bufs s)) (handles s + allof owned C)
     (allof fresh C) (allof deleting C) (add_mset p (allof freeing C)) (allof seen C)"
    using k(5) by simp
  have "At p \<notin># elems (bufs s)" using consistentD(9) [OF c, of p] by simp
  then have "buffers_ok ((heap s)(p := None)) (bufs s)" by (rule buffers_ok_other [OF k(1)])
  moreover have "locked (lock s) C" by (rule locked_out [OF k(2)]) simp_all
  ultimately show ?thesis using k(3) consistent_free [OF c] by (auto simp: goes_on_def pool_ok_def unpooled_ok_none)
qed

text \<open>An access of a loop that decrements the count of the call's own reference.\<close>

lemma on_dec:
  assumes ok: "pool_ok s (add_mset c C)" and c: "owned c = {#p#}" "fresh c = {#}" "deleting c = {#}" "freeing c = {#}"
    and l: "\<forall>e. loop = Exchange e \<longrightarrow> e \<noteq> 0 \<and> e \<noteq> CRYPTO_REFCOUNT_MAX"
  obtains (retry) b where "heap s p = Some b" "in_pool b \<longrightarrow> At p \<in># elems (bufs s)"
      "CRYPTO_refcount_dec_and_test_zero spurious loop (references b) = Some (references b, Inr (Exchange (references b)))"
      "references b \<noteq> 0" "references b \<noteq> CRYPTO_REFCOUNT_MAX"
  | (final) b r where "heap s p = Some b" "in_pool b \<longrightarrow> At p \<in># elems (bufs s)"
      "CRYPTO_refcount_dec_and_test_zero spurious loop (references b) = Some (r, Inl (r = 0))"
      "buffers_ok (heap (set_count p b r s)) (bufs s)" "unpooled_ok (heap (set_count p b r s)) C"
      "consistent (heap (set_count p b r s)) (elems (bufs s)) (handles s + allof owned C) (allof fresh C)
        (if r = 0 \<and> in_pool b then add_mset p (allof deleting C) else allof deleting C)
        (if r = 0 \<and> \<not> in_pool b then add_mset p (allof freeing C) else allof freeing C) (seen c + allof seen C)"
proof -
  note k = pool_okD [OF ok]
  have cs: "consistent (heap s) (elems (bufs s)) (add_mset p (handles s + allof owned C)) (allof fresh C)
      (allof deleting C) (allof freeing C) (seen c + allof seen C)" using k(5) c by simp
  have F: "allof fresh C \<subseteq># handles s + allof owned C"
    using fresh_sub [of C] by (meson mset_subset_eq_add_right subset_mset.order_trans)
  obtain b where b: "heap s p = Some b" "in_pool b \<longrightarrow> At p \<in># elems (bufs s) \<or> p \<in># allof fresh C"
    using consistentD(2) [OF cs, of p] by auto
  have E: "in_pool b \<longrightarrow> At p \<in># elems (bufs s)" using fresh_only [OF cs, of p "allof fresh C"] F b(2) by blast
  have "references b \<noteq> 0" using user_alive [OF cs _ b(1)] by simp
  from this l show ?thesis
  proof (cases rule: dec_access [where spurious = spurious])
    case 1
    then show ?thesis using retry b(1) E \<open>references b \<noteq> 0\<close> by blast
  next
    case 2
    have "buffers_ok (heap (set_count p b (decremented (references b)) s)) (bufs s)"
      unfolding set_count_simps by (rule buffers_ok_update [OF k(1) b(1)]) simp
    moreover have "unpooled_ok (heap (set_count p b (decremented (references b)) s)) C"
      using unpooled_ok_update [OF conjunct2 [OF k(3)] b(1)] by simp
    moreover note consistent_dec [OF cs F b(1) refl]
    ultimately show ?thesis using final b(1) E 2 by simp
  qed
qed

lemma on_Free:
  assumes "pool_ok s (add_mset (Free p) C)"
  shows "goes_on am a spurious s (Free p) C"
proof -
  note k = pool_okD [OF assms]
  have ex: "locked (lock s) (add_mset (Free_lock_write p) C)" "locked (lock s) (add_mset (Free_dec p Load) C)"
    by (rule locked_same [OF k(2)]; simp)+
  obtain b where b: "heap s p = Some b" "in_pool b \<longrightarrow> At p \<in># elems (bufs s)"
    by (rule on_dec [OF assms, of p Load False]) auto
  show ?thesis
  proof (cases "in_pool b")
    case True
    then have "consistent (heap s) (elems (bufs s)) (handles s + add_mset p (allof owned C)) (allof fresh C)
        (allof deleting C) (allof freeing C) (add_mset p (allof seen C))"
      using consistent_seen [OF k(5), of "add_mset p (allof seen C)"] b consistentD(10) [OF k(5)] by auto
    then show ?thesis using True b k ex by (auto simp: goes_on_def pool_ok_def)
  next
    case False
    then show ?thesis using b k ex by (auto simp: goes_on_def pool_ok_def)
  qed
qed

lemma on_Free_dec:
  assumes "pool_ok s (add_mset (Free_dec p loop) C)"
  shows "goes_on am a spurious s (Free_dec p loop) C"
proof -
  note k = pool_okD [OF assms(1)]
  have l: "\<forall>e. loop = Exchange e \<longrightarrow> e \<noteq> 0 \<and> e \<noteq> CRYPTO_REFCOUNT_MAX" using k(4) by auto
  have lo: "locked (lock s) C" by (rule locked_out [OF k(2)]) simp_all
  show ?thesis
  proof (rule on_dec [OF assms(1), of p loop spurious])
    fix b assume b: "heap s p = Some b" "references b \<noteq> 0" "references b \<noteq> CRYPTO_REFCOUNT_MAX"
      "CRYPTO_refcount_dec_and_test_zero spurious loop (references b) = Some (references b, Inr (Exchange (references b)))"
    then have "pool_ok s (add_mset (Free_dec p (Exchange (references b))) C)" by (intro pool_ok_retry [OF assms(1)]) simp_all
    then show ?thesis using b set_count_same [OF b(1)] by (intro goes_onI) auto
  next
    fix b r assume b: "heap s p = Some b"
      "CRYPTO_refcount_dec_and_test_zero spurious loop (references b) = Some (r, Inl (r = 0))"
      and bo: "buffers_ok (heap (set_count p b r s)) (bufs s)" "unpooled_ok (heap (set_count p b r s)) C"
      and c: "consistent (heap (set_count p b r s)) (elems (bufs s)) (handles s + allof owned C) (allof fresh C)
        (if r = 0 \<and> in_pool b then add_mset p (allof deleting C) else allof deleting C)
        (if r = 0 \<and> \<not> in_pool b then add_mset p (allof freeing C) else allof freeing C) (seen (Free_dec p loop) + allof seen C)"
    have "\<not> in_pool b" using assms b(1) by (simp add: pool_ok_def)
    moreover have "locked (lock s) (add_mset (Free_buffer p) C)" using locked_add [OF lo] by simp
    ultimately have "pool_ok (set_count p b r s) (if r = 0 then add_mset (Free_buffer p) C else C)"
      using bo c k(3) lo by (cases "r = 0") (simp_all add: pool_ok_def)
    then show ?thesis using b by (intro goes_onI) (auto split: if_splits)
  qed (use l in simp_all)
qed

lemma on_Free_dec_W:
  assumes "pool_ok s (add_mset (Free_dec_W p loop) C)"
  shows "goes_on am a spurious s (Free_dec_W p loop) C"
proof -
  note k = pool_okD [OF assms]
  have l: "\<forall>e. loop = Exchange e \<longrightarrow> e \<noteq> 0 \<and> e \<noteq> CRYPTO_REFCOUNT_MAX" using k(4) by auto
  have E: "At p \<in># elems (bufs s)" using consistentD(10) [OF k(5), of p] by simp
  show ?thesis
  proof (rule on_dec [OF assms, of p loop spurious])
    fix b assume b: "heap s p = Some b" "references b \<noteq> 0" "references b \<noteq> CRYPTO_REFCOUNT_MAX"
      "CRYPTO_refcount_dec_and_test_zero spurious loop (references b) = Some (references b, Inr (Exchange (references b)))"
    then have "pool_ok s (add_mset (Free_dec_W p (Exchange (references b))) C)" by (intro pool_ok_retry [OF assms]) simp_all
    then show ?thesis using b set_count_same [OF b(1)] by (intro goes_onI) auto
  next
    fix b r assume b: "heap s p = Some b"
      "CRYPTO_refcount_dec_and_test_zero spurious loop (references b) = Some (r, Inl (r = 0))"
      and bo: "buffers_ok (heap (set_count p b r s)) (bufs s)" "unpooled_ok (heap (set_count p b r s)) C"
      and c: "consistent (heap (set_count p b r s)) (elems (bufs s)) (handles s + allof owned C) (allof fresh C)
        (if r = 0 \<and> in_pool b then add_mset p (allof deleting C) else allof deleting C)
        (if r = 0 \<and> \<not> in_pool b then add_mset p (allof freeing C) else allof freeing C) (seen (Free_dec_W p loop) + allof seen C)"
    have pool: "in_pool b" using consistentD(1) [OF k(5) E] b(1) by auto
    let ?c = "if r \<noteq> 0 then Free_unlock_W p False else Free_delete_W p"
    have lo: "locked (lock s) (add_mset ?c C)" by (rule locked_same [OF k(2)]) simp_all
    have c': "consistent (heap (set_count p b r s)) (elems (bufs s)) (handles s + allof owned C) (allof fresh C)
        (if r = 0 then add_mset p (allof deleting C) else allof deleting C) (allof freeing C) (add_mset p (allof seen C))"
      using c pool by simp
    from consistent_seen [OF this, of "allof seen C"] consistentD(10) [OF this] c'
    have "pool_ok (set_count p b r s) (add_mset ?c C)" using bo lo k(3) by (auto simp: pool_ok_def)
    then show ?thesis using b by (intro goes_onI) auto
  qed (use l in simp_all)
qed

lemma on_Free_delete:
  assumes "pool_ok s (add_mset (Free_delete_W p) C)"
  shows "goes_on am a spurious s (Free_delete_W p) C"
proof -
  note k = pool_okD [OF assms]
  obtain lh old where d: "lh_delete am (CRYPTO_BUFFER_hash (heap s)) (CRYPTO_BUFFER_cmp (heap s)) (bufs s) (At p) = (lh, old)" by fastforce
  note del = buffers.lh_delete_ok [OF conjunct1 [OF k(1)] d]
  have "At p \<in># elems (bufs s)" using consistentD(8) [OF k(5), of p] by simp
  then have o: "old = Some (At p)" using del(2) buffers.lh_retrieve_iff [OF conjunct1 [OF k(1)]] buffers.cmp_refl by metis
  have u: "At p \<notin># elems (bufs s) - {#At p#}"
    using buffers.removed_class(2) [OF conjunct1 [OF k(1)] del(2) [symmetric], of "At p"] buffers.cmp_refl [of "heap s" "At p"] by (auto simp: o)
  obtain b where b: "heap s p = Some b" "references b = 0" using consistentD(6) [OF k(5), of p] by auto
  have r: "readable s (At p)" by (rule consistent_readable [OF k(5)]) (simp add: b)
  have "p \<notin># allof owned C" using user_alive [OF k(5), of p b] b by auto
  then have "p \<notin># allof seen C" using seen_holds locked_writer [OF k(2)] by (metis writing.simps(5))
  then have "consistent (heap s) (elems (bufs s) - {#At p#}) (handles s + allof owned C) (allof fresh C) (allof deleting C)
      (add_mset p (allof freeing C)) (allof seen C)"
    using k(5) by (intro consistent_delete [OF _ u]) simp_all
  moreover have "callback_depth lh = 0"
    using lh_delete_depth [of am "CRYPTO_BUFFER_hash (heap s)" "CRYPTO_BUFFER_cmp (heap s)" "bufs s" "At p"] d k(1) by simp
  moreover have "locked (lock s) (add_mset (Free_unlock_W p True) C)" by (rule locked_same [OF k(2)]) simp_all
  ultimately show ?thesis using d o del(1,3) r k(3) by (auto simp: goes_on_def pool_ok_def)
qed

lemma on_Free_unlock_W:
  assumes "pool_ok s (add_mset (Free_unlock_W p zero) C)"
  shows "goes_on am a spurious s (Free_unlock_W p zero) C"
proof -
  note k = pool_okD [OF assms]
  obtain l where l: "CRYPTO_MUTEX_unlock_write (lock s) = Some l" "locked l C" by (rule unlock_write_ok [OF k(2)]) simp_all
  have lf: "locked l (add_mset (Free_buffer p) C)" using locked_add [OF l(2)] by simp
  show ?thesis
  proof (cases zero)
    case True
    obtain b where "heap s p = Some b" using consistentD(6) [OF k(5), of p] True by auto
    then show ?thesis using True k l lf by (simp add: goes_on_def pool_ok_def)
  next
    case False
    have "At p \<in># elems (bufs s)" using consistentD(10) [OF k(5), of p] False by simp
    then obtain b where "heap s p = Some b" using consistentD(1) [OF k(5)] by blast
    moreover have "consistent (heap s) (elems (bufs s)) (handles s + allof owned C) (allof fresh C) (allof deleting C)
        (allof freeing C) (allof seen C)"
      using consistent_seen [OF k(5), of "allof seen C"] consistentD(10) [OF k(5)] False by auto
    ultimately show ?thesis using False k l by (simp add: goes_on_def pool_ok_def)
  qed
qed

lemma step_ok:
  assumes "pool_ok s (add_mset c C)" "not_blocked c s" "heap s a = None"
  shows "goes_on am a spurious s c C"
  using assms
  by (cases c; hypsubst)
    (rule on_New_lock_read on_New_retrieve on_New_inc_R on_New_unlock_R on_New_buffer on_New_lock_write on_New_insert on_New_inc_W
      on_New_unlock_W on_New_discard on_Alloc on_Up_ref on_Free on_Free_dec on_Free_lock_write on_Free_dec_W on_Free_delete
      on_Free_unlock_W on_Free_buffer; assumption)+

lemma start_ok:
  assumes "pool_ok s C" "start r s = Some (s', c)"
  shows "pool_ok s' (add_mset c C)"
proof -
  have u: "(handles s - {#p#}) + add_mset p (allof owned C) = handles s + allof owned C" if "p \<in># handles s" for p
    using that by (metis add_mset_add_single add_mset_remove_trivial_If insert_DiffM union_mset_add_mset_left union_mset_add_mset_right)
  show ?thesis using assms locked_add u by (cases r) (auto simp: pool_ok_def split: if_splits)
qed

inductive_cases call_stepE: "call_step r x y"
inductive_cases pool_stepE: "pool_step x y"

lemma call_step_ok: "call_step r x y \<Longrightarrow> pool_ok (fst x) (snd x) \<Longrightarrow> pool_ok (fst y) (snd y)"
proof (elim call_stepE)
  fix s a c C am spurious s' c'
  assume "pool_ok (fst x) (snd x)" "x = (s, add_mset c C)" "y = (s', add_mset c' C)" "heap s a = None" "not_blocked c s"
    "step am a spurious s c = Some (s', Some c')"
  then show ?thesis using step_ok [of s c C a am spurious] by (auto simp: goes_on_def)
next
  fix s a c C am spurious s'
  assume "pool_ok (fst x) (snd x)" "x = (s, add_mset c C)" "y = (s', C)" "heap s a = None" "not_blocked c s"
    "step am a spurious s c = Some (s', None)"
  then show ?thesis using step_ok [of s c C a am spurious] by (auto simp: goes_on_def)
qed

lemma pool_step_ok: "pool_step x y \<Longrightarrow> pool_ok (fst x) (snd x) \<Longrightarrow> pool_ok (fst y) (snd y)"
  by (elim pool_stepE) (auto intro: start_ok call_step_ok)

lemma reachable_ok: "reachable x \<Longrightarrow> pool_ok (fst x) (snd x)"
proof (induction rule: reachable.induct)
  case (new am s)
  then obtain lh where lh: "lh_new am = Some lh" "s = \<lparr>heap = Map.empty, bufs = lh, lock = CRYPTO_MUTEX_init, handles = {#}\<rparr>"
    by (auto simp: CRYPTO_BUFFER_POOL_new_def split: option.splits)
  note n = lh_new_ok [OF lh(1)]
  then show ?case using lh(2) by (simp add: pool_ok_def locked_def consistent_def CRYPTO_MUTEX_init_def)
next
  case (step x y)
  then show ?case using pool_step_ok by blast
qed

text \<open>What a step does to one buffer.\<close>

lemma step_heap:
  assumes "step am a spurious s c = Some (s', k)" "heap s p = Some b" "p \<noteq> a" "heap s' p = Some b'"
  shows "buf_bytes b' = buf_bytes b \<and> in_pool b' = in_pool b"
  using assms by (cases c) (auto simp: Let_def split: option.splits if_splits prod.splits buffer.splits sum.splits count_loop.splits)

lemma step_dom: "step am a spurious s c = Some (s', k) \<Longrightarrow> dom (heap s') \<subseteq> insert a (dom (heap s))"
  by (cases c) (auto simp: Let_def split: option.splits if_splits prod.splits buffer.splits sum.splits count_loop.splits)

lemma start_heap: "start r s = Some (s', c) \<Longrightarrow> heap s' = heap s"
  by (cases r) (auto split: if_splits)

lemma reachable_finite: "reachable x \<Longrightarrow> finite (dom (heap (fst x)))"
proof (induction rule: reachable.induct)
  case (new am s)
  then show ?case by (auto simp: CRYPTO_BUFFER_POOL_new_def split: option.splits)
next
  case (step x y)
  from step(2,3) show ?case
    by (elim pool_stepE call_stepE) (auto simp: start_heap dest!: step_dom elim!: finite_subset)
qed

section \<open>Termination and progress\<close>

text \<open>A run of the calls in progress; \<open>n\<close> counts its steps, without the spurious failures.\<close>

inductive run :: "nat \<Rightarrow> pool \<times> pc multiset \<Rightarrow> pool \<times> pc multiset \<Rightarrow> bool" where
  here: "run 0 x x"
| more: "run n x y \<Longrightarrow> call_step failed y z \<Longrightarrow> run (if failed then n else Suc n) x z"

text \<open>The number of steps a call has left at most, without failed exchanges.\<close>

fun left_loop :: "count_loop \<Rightarrow> nat" where
  "left_loop Load = 2"
| "left_loop (Exchange e) = 1"

fun left :: "pc \<Rightarrow> nat" where
  "left (New_lock_read d) = 12"
| "left (New_retrieve_R d) = 11"
| "left (New_inc_R d p l) = 8 + left_loop l"
| "left (New_unlock_R d dup) = 8"
| "left (New_buffer d pooled) = 7"
| "left (New_lock_write d p) = 6"
| "left (New_insert_W d p) = 5"
| "left (New_inc_W d p q l) = 2 + left_loop l"
| "left (New_unlock_W d p dup ins) = 2"
| "left (New_discard d p dup) = 1"
| "left (Alloc n) = 1"
| "left (Up_ref p l) = left_loop l"
| "left (Free p) = 7"
| "left (Free_dec p l) = 1 + left_loop l"
| "left (Free_lock_write p) = 6"
| "left (Free_dec_W p l) = 3 + left_loop l"
| "left (Free_delete_W p) = 3"
| "left (Free_unlock_W p zero) = 2"
| "left (Free_buffer p) = 1"

lemma left_loop_if: "left_loop l = (if l = Load then 2 else 1)"
  by (cases l) auto

lemma left_bounds: "0 < left c" "left c \<le> 12"
  by (cases c; simp add: left_loop_if)+

text \<open>The exchange a call is about to make, which fails if another call has changed the count.\<close>

fun exchange :: "pc \<Rightarrow> (ptr \<times> count_loop) option" where
  "exchange (New_inc_R d p l) = Some (p, l)"
| "exchange (New_inc_W d p q l) = Some (q, l)"
| "exchange (Up_ref p l) = Some (p, l)"
| "exchange (Free_dec p l) = Some (p, l)"
| "exchange (Free_dec_W p l) = Some (p, l)"
| "exchange _ = None"

definition stale :: "memory \<Rightarrow> pc \<Rightarrow> bool" where
  "stale h c \<longleftrightarrow> (\<exists>p e b. exchange c = Some (p, Exchange e) \<and> h p = Some b \<and> references b \<noteq> e)"

lemma inc_goes:
  assumes "CRYPTO_refcount_inc spurious loop n = (n', nx)"
  shows "nx = None \<or> n' = n \<and> nx = Some (Exchange n) \<and> (loop = Load \<or> spurious \<and> loop = Exchange n \<or>
     (\<exists>e. loop = Exchange e \<and> e \<noteq> n))"
  using assms by (cases loop) (auto simp: Let_def inc_test_def split: if_splits)

lemma dec_goes:
  assumes "CRYPTO_refcount_dec_and_test_zero spurious loop n = Some (n', nx)"
  shows "(\<exists>zero. nx = Inl zero) \<or> n' = n \<and> nx = Inr (Exchange n) \<and> (loop = Load \<or> spurious \<and> loop = Exchange n \<or>
     (\<exists>e. loop = Exchange e \<and> e \<noteq> n))"
  using assms by (cases loop) (auto simp: Let_def dec_test_def split: if_splits)

definition advances :: "bool \<Rightarrow> pool \<Rightarrow> pc \<Rightarrow> pool \<Rightarrow> pc \<Rightarrow> bool" where
  "advances spurious s c s' c' \<longleftrightarrow> left c' < left c \<or> s' = s \<and> (c' = c \<and> spurious \<or>
     c' \<noteq> c \<and> left c' = left c \<and> stale (heap s) c \<and> \<not> stale (heap s) c')"

text \<open>A step makes progress, or the exchange fails: spuriously, or because the count was another one.\<close>

lemma step_advances:
  assumes "step am a spurious s c = Some (s', Some c')"
  shows "advances spurious s c s' c'"
proof (cases "exchange c")
  case None
  then have "left c' < left c" using assms
    by (cases c) (auto simp: Let_def split: option.splits if_splits prod.splits buffer.splits)
  then show ?thesis by (simp add: advances_def)
next
  case (Some pl)
  then show ?thesis using assms
    by (cases c)
      (auto simp: advances_def stale_def set_count_same left_loop_if split: option.splits prod.splits sum.splits if_splits
        dest!: inc_goes dec_goes)
qed

definition total_left :: "pc multiset \<Rightarrow> nat" where
  "total_left C = sum_mset (image_mset left C)"

lemma total_left_simps [simp]: "total_left {#} = 0" "total_left (add_mset c C) = left c + total_left C"
  by (simp_all add: total_left_def)

lemma total_left_le: "total_left C \<le> 12 * size C"
  using left_bounds(2) by (induction C) (simp_all add: add_mono)

definition stales :: "pool \<times> pc multiset \<Rightarrow> nat" where
  "stales x = size (filter_mset (stale (heap (fst x))) (snd x))"

lemma stales_le: "stales x \<le> size (snd x)"
  by (simp add: stales_def size_filter_mset_lesseq)

text \<open>While there are at most \<open>K\<close> calls: an exchange that fails because of the count is stale no more, and only a step that makes
  progress makes others stale.\<close>

definition potential :: "nat \<Rightarrow> pool \<times> pc multiset \<Rightarrow> nat" where
  "potential K x = total_left (snd x) * Suc K + stales x"

lemma potential_less:
  assumes "total_left (snd y) < total_left (snd x)" "size (snd y) \<le> K"
  shows "potential K y < potential K x"
proof -
  have "stales y \<le> K" using stales_le [of y] assms(2) by simp
  moreover have "Suc (total_left (snd y)) * Suc K \<le> total_left (snd x) * Suc K" using assms(1) by (intro mult_le_mono1) simp
  ultimately show ?thesis by (simp add: potential_def)
qed

lemma call_step_size: "call_step failed x y \<Longrightarrow> size (snd y) \<le> size (snd x)"
  by (elim call_stepE) auto

lemma call_step_potential:
  assumes "call_step failed x y" "size (snd x) \<le> K"
  shows "if failed then y = x else potential K y < potential K x"
proof (rule call_stepE [OF assms(1)])
  fix s a c C am spurious s' c'
  assume st: "failed = (c' = c)" "x = (s, add_mset c C)" "y = (s', add_mset c' C)" "step am a spurious s c = Some (s', Some c')"
  from step_advances [OF st(4)] consider "left c' < left c" | "s' = s" "c' = c"
    | "s' = s" "c' \<noteq> c" "left c' = left c" "stale (heap s) c" "\<not> stale (heap s) c'" unfolding advances_def by blast
  then show ?thesis
  proof cases
    case 1
    then show ?thesis using potential_less [of y x K] st assms(2) by auto
  qed (use st in \<open>simp_all add: potential_def stales_def\<close>)
next
  fix s a c C am spurious s'
  assume "\<not> failed" "x = (s, add_mset c C)" "y = (s', C)"
  then show ?thesis using potential_less [of y x K] assms(2) left_bounds(1) [of c] by auto
qed

lemma run_potential:
  assumes "run n x y" "size (snd x) \<le> K"
  shows "n + potential K y \<le> potential K x \<and> size (snd y) \<le> K"
  using assms
proof (induction rule: run.induct)
  case (more n x y failed z)
  then show ?case using call_step_potential [OF more(2), of K] call_step_size [OF more(2)] by (auto split: if_splits)
qed simp

lemma run_reachable: "run n x y \<Longrightarrow> reachable x \<Longrightarrow> reachable y"
proof (induction rule: run.induct)
  case (more n x y failed z)
  then show ?case using reachable.step pool_step.run by blast
qed

lemma unlocked:
  assumes "locked l C" "\<not> (\<exists>c \<in># C. reading c \<or> writing c)"
  shows "l = CRYPTO_MUTEX_init"
proof -
  have "holders reading C = 0" "holders writing C = 0" using assms(2) by (simp_all add: holders_def filter_mset_eq_conv)
  then show ?thesis using assms(1) by (cases l) (simp add: locked_def CRYPTO_MUTEX_init_def split: if_splits)
qed

lemma some_call_runs:
  assumes "locked (lock s) C" "C \<noteq> {#}"
  shows "\<exists>c C'. C = add_mset c C' \<and> not_blocked c s"
proof (cases "\<exists>c \<in># C. reading c \<or> writing c")
  case True
  then obtain c where c: "c \<in># C" "reading c \<or> writing c" by blast
  then have "not_blocked c s" by (cases c) auto
  then show ?thesis using c(1) by (metis insert_DiffM)
next
  case False
  obtain c C' where C: "C = add_mset c C'" using assms(2) by (metis multiset_cases)
  have "not_blocked c s" using unlocked [OF assms(1) False]
    by (cases c) (simp_all add: CRYPTO_MUTEX_lock_read_def CRYPTO_MUTEX_lock_write_def CRYPTO_MUTEX_init_def)
  then show ?thesis using C by blast
qed

lemma progress:
  assumes "reachable (s, C)" "C \<noteq> {#}"
  shows "\<exists>z. call_step False (s, C) z"
proof -
  have ok: "pool_ok s C" using reachable_ok [OF assms(1)] by simp
  then obtain c C' where C: "C = add_mset c C'" "not_blocked c s"
    using some_call_runs [OF _ assms(2)] unfolding pool_ok_def by blast
  obtain a where a: "heap s a = None"
    using reachable_finite [OF assms(1)] infinite_UNIV_nat by (metis domIff ex_new_if_finite fst_conv)
  obtain s' k where k: "step (\<lambda>_. None) a False s c = Some (s', k)"
    using step_ok [of s c C' a "\<lambda>_. None" False] ok C a by (auto simp: goes_on_def)
  show ?thesis
  proof (cases k)
    case None
    then show ?thesis using call_step.ret [OF a C(2), of "\<lambda>_. None" False s' C'] k C(1) by auto
  next
    case (Some c')
    then have "c' \<noteq> c" using step_advances [of _ _ _ _ c s' c'] k unfolding advances_def by blast
    then show ?thesis using call_step.go [OF a C(2), of "\<lambda>_. None" False s' c' C'] k C(1) Some by auto
  qed
qed
section \<open>The bytes of a call\<close>

text \<open>The bytes a call of \<open>CRYPTO_BUFFER_new\<close> was given, the buffers it may return, and whether it can only
  return NULL because its buffer could not be inserted.\<close>

fun argument :: "pc \<Rightarrow> bytes option" where
  "argument (New_lock_read d) = Some d"
| "argument (New_retrieve_R d) = Some d"
| "argument (New_inc_R d p l) = Some d"
| "argument (New_unlock_R d dup) = Some d"
| "argument (New_buffer d pooled) = Some d"
| "argument (New_lock_write d p) = Some d"
| "argument (New_insert_W d p) = Some d"
| "argument (New_inc_W d p q l) = Some d"
| "argument (New_unlock_W d p dup ins) = Some d"
| "argument (New_discard d p dup) = Some d"
| "argument _ = None"

fun claims :: "pc \<Rightarrow> ptr multiset" where
  "claims (New_inc_R d p l) = {#p#}"
| "claims (New_unlock_R d dup) = optional dup"
| "claims (New_lock_write d p) = {#p#}"
| "claims (New_insert_W d p) = {#p#}"
| "claims (New_inc_W d p q l) = {#p, q#}"
| "claims (New_unlock_W d p dup ins) = add_mset p (optional dup)"
| "claims (New_discard d p dup) = optional dup"
| "claims _ = {#}"

fun not_inserted :: "pc \<Rightarrow> bool" where
  "not_inserted (New_unlock_W d p None False) = True"
| "not_inserted (New_discard d p None) = True"
| "not_inserted _ = False"

lemma claims_owned_or_seen: "p \<in># claims c \<Longrightarrow> p \<in># owned c + seen c"
  by (cases c) auto

text \<open>What a call may return is allocated, in every state that can be reached.\<close>

lemma claims_allocated:
  assumes "pool_ok s C" "c \<in># C" "p \<in># claims c"
  shows "\<exists>b. heap s p = Some b"
proof -
  obtain C' where C: "C = add_mset c C'" using assms(2) by (metis insert_DiffM)
  note k = pool_okD(5) [OF assms(1) [unfolded C]]
  from claims_owned_or_seen [OF assms(3)] consider "p \<in># owned c" | "p \<in># seen c" by auto
  then show ?thesis
  proof cases
    case 1
    then show ?thesis using consistentD(2) [OF k, of p] by auto
  next
    case 2
    then show ?thesis using consistentD(10) [OF k, of p] consistentD(1) [OF k, of p] by auto
  qed
qed

definition holds :: "memory \<Rightarrow> ptr \<Rightarrow> bytes \<Rightarrow> bool" where
  "holds h p d \<longleftrightarrow> (\<exists>b. h p = Some b \<and> buf_bytes b = d)"

definition carries :: "memory \<Rightarrow> pc \<Rightarrow> bool" where
  "carries h c \<longleftrightarrow> (\<forall>d. argument c = Some d \<longrightarrow> length d \<le> SIZE_MAX - 8 \<and> (\<forall>p \<in># claims c. holds h p d))"

lemma holds_kept:
  assumes "step am a spurious s c = Some (s', k)" "heap s a = None" "holds (heap s) p d" "heap s' p = Some b"
  shows "holds (heap s') p d"
  using assms step_heap [OF assms(1), of p] by (cases "p = a") (auto simp: holds_def)

lemma retrieved_bytes:
  assumes "buffers_ok (heap s) (bufs s)" "lh_retrieve (CRYPTO_BUFFER_hash (heap s)) (CRYPTO_BUFFER_cmp (heap s)) (bufs s) x = Some (At p)"
    "contents (heap s) (At p) \<noteq> None"
  shows "holds (heap s) p (bytes_of (heap s) x)"
proof -
  have "CRYPTO_BUFFER_cmp (heap s) (At p) x = 0" using assms(1,2) buffers.lh_retrieve_iff by blast
  then show ?thesis using assms(3) by (auto simp: CRYPTO_BUFFER_cmp_0 holds_def bytes_of_def)
qed

lemma copied_bytes:
  assumes "length d \<le> SIZE_MAX - 8" "\<not> (length d \<noteq> 0 \<and> OPENSSL_memdup am d = None)"
  shows "(case OPENSSL_memdup am d of None \<Rightarrow> [] | Some bytes \<Rightarrow> bytes) = d"
  using assms OPENSSL_memdup_Some [of am d] by (cases "OPENSSL_memdup am d") auto

text \<open>The step of a call keeps its bytes, what it may return is with them, and it gives its caller no more.\<close>

definition keeps :: "alloc \<Rightarrow> bytes \<Rightarrow> pool \<Rightarrow> pc \<Rightarrow> pool \<Rightarrow> pc option \<Rightarrow> bool" where
  "keeps am d s c s' k \<longleftrightarrow> (case k of
     Some c' \<Rightarrow> argument c' = Some d \<and> handles s' = handles s \<and> (\<forall>p \<in># claims c'. p \<notin># claims c \<longrightarrow> holds (heap s') p d) \<and>
       (not_inserted c' \<longrightarrow> not_inserted c \<or> (\<exists>n. OPENSSL_malloc am n = None))
   | None \<Rightarrow> handles s' = handles s \<and> (not_inserted c \<or> (\<exists>n. OPENSSL_malloc am n = None)) \<or>
       (\<exists>p. handles s' = add_mset p (handles s) \<and> (p \<in># claims c \<or> holds (heap s') p d)))"

lemma New_buffer_keeps:
  assumes "length d \<le> SIZE_MAX - 8" "step am a spurious s (New_buffer d pooled) = Some (s', k)"
  shows "keeps am d s (New_buffer d pooled) s' k"
proof (cases "OPENSSL_malloc am 32 = None \<or> length d \<noteq> 0 \<and> OPENSSL_memdup am d = None")
  case True
  have "OPENSSL_memdup am d = None \<Longrightarrow> length d \<noteq> 0 \<Longrightarrow> \<exists>n. OPENSSL_malloc am n = None"
    by (auto simp: OPENSSL_memdup_def Let_def split: option.splits if_splits)
  then show ?thesis using True assms(2) by (auto simp: keeps_def Let_def split: option.splits if_splits)
next
  case False
  then show ?thesis using assms(2) copied_bytes [of d am] assms(1)
    by (auto simp: keeps_def holds_def Let_def simp del: One_nat_def split: option.splits if_splits)
qed

lemma New_insert_keeps:
  assumes ok: "pool_ok s (add_mset (New_insert_W d p) C)" and "step am a spurious s (New_insert_W d p) = Some (s', k)"
    and "holds (heap s) p d"
  shows "keeps am d s (New_insert_W d p) s' k"
proof -
  note b = pool_okD(1) [OF ok]
  have r: "readable s (At p)" and p: "bytes_of (heap s) (At p) = d" using assms(2,3) by (auto simp: holds_def bytes_of_def split: if_splits)
  show ?thesis
  proof (cases "lh_retrieve (CRYPTO_BUFFER_hash (heap s)) (CRYPTO_BUFFER_cmp (heap s)) (bufs s) (At p)")
    case None
    obtain lh old ins where i: "lh_insert am (CRYPTO_BUFFER_hash (heap s)) (CRYPTO_BUFFER_cmp (heap s)) (bufs s) (At p) = (lh, old, ins)"
      by (metis prod_cases3)
    then show ?thesis using buffers.lh_insert_ok(4) [OF conjunct1 [OF b] i] None assms(2) r
      by (cases ins) (auto simp: keeps_def split: if_splits)
  next
    case (Some x)
    then have x: "x \<in># elems (bufs s)" using buffers.lh_retrieve_iff b by blast
    then obtain q where q: "x = At q" using consistentD(12) [OF pool_okD(5) [OF ok]] by blast
    have "contents (heap s) (At q) \<noteq> None" using r x q unfolding readable_def by blast
    then show ?thesis using retrieved_bytes [OF b, of "At p" q] Some q r p assms(2) by (auto simp: keeps_def)
  qed
qed

lemma New_retrieve_keeps:
  assumes ok: "pool_ok s (add_mset (New_retrieve_R d) C)" and "step am a spurious s (New_retrieve_R d) = Some (s', k)"
  shows "keeps am d s (New_retrieve_R d) s' k"
proof -
  note b = pool_okD(1) [OF ok]
  have r: "readable s (Tmp d)" using assms(2) by (auto split: if_splits)
  show ?thesis
  proof (cases "lh_retrieve (CRYPTO_BUFFER_hash (heap s)) (CRYPTO_BUFFER_cmp (heap s)) (bufs s) (Tmp d)")
    case None
    then show ?thesis using assms(2) r by (auto simp: keeps_def)
  next
    case (Some x)
    then have x: "x \<in># elems (bufs s)" using buffers.lh_retrieve_iff b by blast
    then obtain q where q: "x = At q" using consistentD(12) [OF pool_okD(5) [OF ok]] by blast
    have "contents (heap s) (At q) \<noteq> None" using r x q unfolding readable_def by blast
    then show ?thesis using retrieved_bytes [OF b, of "Tmp d" q] Some q r assms(2) by (auto simp: keeps_def bytes_of_def)
  qed
qed

lemma step_keeps:
  assumes ok: "pool_ok s (add_mset c C)" and c: "carries (heap s) c" "argument c = Some d" and st: "step am a spurious s c = Some (s', k)"
  shows "keeps am d s c s' k"
proof (cases c)
  case (New_buffer d' pooled)
  then show ?thesis using New_buffer_keeps [of d am a spurious s pooled s' k] assms by (auto simp: carries_def)
next
  case (New_insert_W d' p)
  then show ?thesis using New_insert_keeps [of s d p C am a spurious s' k] assms by (auto simp: carries_def)
next
  case (New_retrieve_R d')
  then show ?thesis using New_retrieve_keeps [of s d C am a spurious s' k] assms by (auto simp: carries_def)
qed (use assms pool_okD(4) [OF ok] in \<open>auto simp: keeps_def Let_def split: option.splits prod.splits if_splits\<close>)

text \<open>Every call in progress carries its bytes.\<close>

lemma step_carries:
  assumes ok: "pool_ok s (add_mset c C)" "\<forall>x \<in># add_mset c C. carries (heap s) x"
    and st: "step am a spurious s c = Some (s', k)" "heap s a = None"
    and ok': "pool_ok s' (case k of None \<Rightarrow> C | Some c' \<Rightarrow> add_mset c' C)"
  shows "\<forall>x \<in># (case k of None \<Rightarrow> C | Some c' \<Rightarrow> add_mset c' C). carries (heap s') x"
proof
  fix x assume x: "x \<in># (case k of None \<Rightarrow> C | Some c' \<Rightarrow> add_mset c' C)"
  have kept: "holds (heap s') p d" if "p \<in># claims x" "holds (heap s) p d" for p d
    using holds_kept [OF st that(2)] claims_allocated [OF ok' x that(1)] by blast
  show "carries (heap s') x"
  proof (cases "x \<in># C")
    case True
    then show ?thesis using kept ok(2) by (auto simp: carries_def)
  next
    case False
    then have k: "k = Some x" using x by (auto split: option.splits)
    have "argument c = argument x" using st(1) k
      by (cases c) (auto simp: Let_def split: option.splits prod.splits if_splits buffer.splits sum.splits)
    then show ?thesis using step_keeps [OF ok(1) _ _ st(1)] k kept ok(2) by (fastforce simp: keeps_def carries_def)
  qed
qed

lemma reachable_carries: "reachable x \<Longrightarrow> \<forall>c \<in># snd x. carries (heap (fst x)) c"
proof (induction rule: reachable.induct)
  case (step x y)
  note ok = reachable_ok [OF step(1)] reachable_ok [OF reachable.step [OF step(1,2)]]
  from step(2) show ?case
  proof (cases rule: pool_step.cases)
    case (call r s s' c C)
    then show ?thesis using step(3) by (cases r) (auto simp: carries_def split: if_splits)
  next
    case (run failed)
    then show ?thesis
    proof (cases rule: call_step.cases)
      case (go s a c am spurious s' c' C)
      then show ?thesis using step_carries [of s c C am a spurious s' "Some c'"] ok step(3) by simp
    next
      case (ret s a c am spurious s' C)
      then show ?thesis using step_carries [of s c C am a spurious s' None] ok step(3) by simp
    qed
  qed
qed simp
section \<open>What the pool guarantees\<close>

lemma step_not_blocked: "step am a spurious s c = Some r \<Longrightarrow> not_blocked c s"
  by (cases c) (auto split: option.splits)

text \<open>C37: However calls of \<open>CRYPTO_BUFFER_new\<close>, \<open>CRYPTO_BUFFER_alloc\<close>, \<open>CRYPTO_BUFFER_up_ref\<close> and \<open>CRYPTO_BUFFER_free\<close> are
  interleaved, and whichever allocations and exchanges fail, a call that is not blocked can make its next step: it reads and
  frees allocated buffers only, the hash and comparison functions of the table included, it does not drop a count of zero or
  release a lock it does not hold, and no assertion fails. Every pointer in the table is to an allocated buffer of the pool, and
  every reference a user holds is to an allocated buffer, with the same bytes after the step.\<close>
theorem pool_is_memory_safe:
  assumes "reachable (s, add_mset c C)" "not_blocked c s" "heap s a = None"
  shows "\<exists>s' k. step am a spurious s c = Some (s', k) \<and>
    (\<forall>p \<in># handles s. \<exists>b b'. heap s p = Some b \<and> heap s' p = Some b' \<and> buf_bytes b' = buf_bytes b) \<and>
    (\<forall>x \<in># elems (bufs s). \<exists>p b. x = At p \<and> heap s p = Some b \<and> in_pool b) \<and>
    (\<forall>x \<in># elems (bufs s'). \<exists>p b. x = At p \<and> heap s' p = Some b \<and> in_pool b)"
proof -
  have ok: "pool_ok s (add_mset c C)" using reachable_ok [OF assms(1)] by simp
  obtain s' k where st: "step am a spurious s c = Some (s', k)" and ok': "pool_ok s' (case k of None \<Rightarrow> C | Some c' \<Rightarrow> add_mset c' C)"
    using step_ok [OF ok assms(2,3)] unfolding goes_on_def by blast
  have hs: "handles s \<subseteq># handles s'" using st
    by (cases c) (auto simp: Let_def split: option.splits prod.splits if_splits buffer.splits sum.splits)
  have "\<exists>b b'. heap s p = Some b \<and> heap s' p = Some b' \<and> buf_bytes b' = buf_bytes b" if p: "p \<in># handles s" for p
  proof -
    obtain b where b: "heap s p = Some b" using consistentD(2) [OF pool_okD(5) [OF ok], of p] p by auto
    have "p \<in># handles s'" using mset_subset_eqD [OF hs p] .
    then obtain b' where b': "heap s' p = Some b'" using ok' consistentD(2) unfolding pool_ok_def by (metis union_iff)
    have "p \<noteq> a" using b assms(3) by auto
    then show ?thesis using step_heap [OF st b _ b'] b b' by blast
  qed
  moreover have "\<forall>x \<in># elems (bufs s). \<exists>p b. x = At p \<and> heap s p = Some b \<and> in_pool b"
    "\<forall>x \<in># elems (bufs s'). \<exists>p b. x = At p \<and> heap s' p = Some b \<and> in_pool b"
    using ok ok' elems_At unfolding pool_ok_def by blast+
  ultimately show ?thesis using st by blast
qed

text \<open>C38: The pool deduplicates and neither loses nor leaks buffers: two users' references to pooled buffers with
  equal bytes are to the same buffer; a count that is not saturated is the number of references that users and calls
  hold; and once every reference has been given back and no call is running, with no count saturated, no buffer is allocated
  and \<open>CRYPTO_BUFFER_POOL_free\<close> finds the pool empty and its lock free.\<close>
theorem pool_shares_and_frees:
  assumes "reachable (s, C)"
  shows "(\<forall>p \<in># handles s. \<forall>q \<in># handles s. \<forall>b b'. heap s p = Some b \<and> in_pool b \<and> heap s q = Some b' \<and> in_pool b' \<and>
       buf_bytes b = buf_bytes b' \<longrightarrow> p = q) \<and>
    (\<forall>a b. heap s a = Some b \<and> references b \<noteq> CRYPTO_REFCOUNT_MAX \<longrightarrow>
       unat (references b) = count (handles s + allof owned C) a) \<and>
    (C = {#} \<and> handles s = {#} \<and> (\<forall>a b. heap s a = Some b \<longrightarrow> references b \<noteq> CRYPTO_REFCOUNT_MAX) \<longrightarrow>
       heap s = Map.empty \<and> CRYPTO_BUFFER_POOL_free s)"
proof -
  have ok: "pool_ok s C" using reachable_ok [OF assms] by simp
  then have lh: "lh_ok (CRYPTO_BUFFER_hash (heap s)) (CRYPTO_BUFFER_cmp (heap s)) (bufs s)"
    and c: "consistent (heap s) (elems (bufs s)) (handles s + allof owned C) (allof fresh C) (allof deleting C) (allof freeing C)
      (allof seen C)" by (simp_all add: pool_ok_def)
  note k = consistentD [OF c]
  have entry: "At p \<in># elems (bufs s)" if p: "p \<in># handles s" "heap s p = Some b" "in_pool b" for p b
  proof -
    obtain H where H: "handles s = add_mset p H" using p(1) by (metis mset_add)
    have "allof fresh C \<subseteq># H + allof owned C" using fresh_sub by (meson mset_subset_eq_add_right subset_mset.order_trans)
    then have "p \<notin># allof fresh C" using fresh_only [of "heap s" "elems (bufs s)" p "H + allof owned C"] c H by (metis union_mset_add_mset_left)
    then show ?thesis using k(2) [of p] p by auto
  qed
  have "p = q" if "p \<in># handles s" "q \<in># handles s" "heap s p = Some b" "in_pool b" "heap s q = Some b'" "in_pool b'"
    "buf_bytes b = buf_bytes b'" for p q b b'
  proof -
    have "At p \<in># elems (bufs s)" "At q \<in># elems (bufs s)" "bytes_of (heap s) (At p) = bytes_of (heap s) (At q)"
      using entry [of p b] entry [of q b'] that by (simp_all add: bytes_of_def)
    then have "At p = At q" using unique_eq [OF lh_okD(5) [OF lh], of "At p" "At q" "At q"] by (simp add: CRYPTO_BUFFER_cmp_0)
    then show ?thesis by simp
  qed
  moreover have "unat (references b) = count (handles s + allof owned C) a"
    if "heap s a = Some b" "references b \<noteq> CRYPTO_REFCOUNT_MAX" for a b using k(3) [OF that(1)] that(2) by blast
  moreover have "heap s = Map.empty \<and> CRYPTO_BUFFER_POOL_free s"
    if z: "C = {#}" "handles s = {#}" "\<forall>a b. heap s a = Some b \<longrightarrow> references b \<noteq> CRYPTO_REFCOUNT_MAX"
  proof -
    have "heap s a = None" for a
    proof (cases "heap s a")
      case (Some b)
      then have "references b = 0" using k(3) [OF Some] z by (simp add: unat_eq_zero)
      then show ?thesis using k(11) [OF Some] z by simp
    qed simp
    then have "heap s = Map.empty" by blast
    moreover from this have "elems (bufs s) = {#}" using elems_At [OF c] by (metis multiset_nonemptyE option.distinct(1))
    moreover have "lock s = CRYPTO_MUTEX_init" using unlocked [of "lock s" C] ok z(1) by (simp add: pool_ok_def)
    ultimately show ?thesis using lh_okD(3) [OF lh]
      by (simp add: CRYPTO_BUFFER_POOL_free_def lh_num_items_def CRYPTO_MUTEX_init_def CRYPTO_MUTEX_lock_write_def
          CRYPTO_MUTEX_unlock_write_def)
  qed
  ultimately show ?thesis by blast
qed

text \<open>C39: Every call returns. From any reachable state, however the calls in progress are interleaved, they make a bounded number of
  steps, not counting the exchanges that fail although the count is the expected one: the loops that update a count end,
  because an exchange fails otherwise only after another call has made progress. While a call is in progress some
  call can make a step that counts, so there is no deadlock; and when all have returned the lock is free.\<close>
theorem pool_calls_return:
  assumes "reachable (s, C)" "run n (s, C) y"
  shows "n \<le> size C * (12 * size C + 13) \<and> (snd y \<noteq> {#} \<longrightarrow> (\<exists>z. call_step False y z)) \<and>
    (snd y = {#} \<longrightarrow> lock (fst y) = CRYPTO_MUTEX_init)"
proof -
  have "n \<le> potential (size C) (s, C)" using run_potential [OF assms(2), of "size C"] by simp
  also have "\<dots> \<le> 12 * size C * Suc (size C) + size C"
    unfolding potential_def using mult_le_mono1 [OF total_left_le [of C], of "Suc (size C)"] stales_le [of "(s, C)"] by simp
  also have "\<dots> = size C * (12 * size C + 13)" by (simp add: algebra_simps)
  finally have "n \<le> size C * (12 * size C + 13)" .
  moreover have r: "reachable y" by (rule run_reachable [OF assms(2,1)])
  moreover have "\<exists>z. call_step False y z" if "snd y \<noteq> {#}" using progress [of "fst y" "snd y"] r that by simp
  moreover have "lock (fst y) = CRYPTO_MUTEX_init" if "snd y = {#}"
    using unlocked [of "lock (fst y)" "snd y"] reachable_ok [OF r] that by (simp add: pool_ok_def)
  ultimately show ?thesis by blast
qed

text \<open>C40: A call of \<open>CRYPTO_BUFFER_new\<close> that returns gives its caller one more reference, to a buffer that is allocated when it
  returns and has exactly the bytes the call was given, whether it found the buffer in the pool, made it, or lost
  the race to insert it; or it returns NULL, and then an allocation has failed. No step before that changes what users
  hold.\<close>
theorem CRYPTO_BUFFER_new_returns_the_bytes:
  assumes "reachable (s, add_mset c C)" "argument c = Some d" "heap s a = None" "step am a spurious s c = Some (s', k)"
  shows "case k of
      Some c' \<Rightarrow> argument c' = Some d \<and> handles s' = handles s \<and>
        (not_inserted c' \<and> \<not> not_inserted c \<longrightarrow> (\<exists>n. OPENSSL_malloc am n = None))
    | None \<Rightarrow> (\<exists>p b. handles s' = add_mset p (handles s) \<and> heap s' p = Some b \<and> buf_bytes b = d) \<or>
        handles s' = handles s \<and> (not_inserted c \<or> (\<exists>n. OPENSSL_malloc am n = None))"
proof -
  have ok: "pool_ok s (add_mset c C)" using reachable_ok [OF assms(1)] by simp
  have c: "carries (heap s) c" using reachable_carries [OF assms(1)] by simp
  note kp = step_keeps [OF ok c assms(2,4)]
  show ?thesis
  proof (cases k)
    case None
    have ok': "pool_ok s' C" using step_ok [OF ok step_not_blocked [OF assms(4)] assms(3), of am spurious] assms(4) None by (simp add: goes_on_def)
    have "holds (heap s') p d" if p: "handles s' = add_mset p (handles s)" "p \<in># claims c \<or> holds (heap s') p d" for p
    proof -
      obtain b where "heap s' p = Some b" using ok' consistentD(2) p(1) unfolding pool_ok_def by (metis union_iff union_single_eq_member)
      moreover have "p \<in># claims c \<Longrightarrow> holds (heap s) p d" using c assms(2) unfolding carries_def by blast
      ultimately show ?thesis using p(2) holds_kept [OF assms(4,3)] by blast
    qed
    then show ?thesis using kp None unfolding keeps_def holds_def by auto
  qed (use kp in \<open>auto simp: keeps_def\<close>)
qed

section \<open>A race\<close>

text \<open>Two calls ask for the same bytes; both miss, the second to take the write lock loses and gets the first one's buffer.\<close>

lemma go_on:
  assumes "reachable (s, add_mset c C)" "step am a spurious s c = Some (s', k)" "heap s a = None"
  shows "reachable (s', case k of None \<Rightarrow> C | Some c' \<Rightarrow> add_mset c' C)"
proof -
  note st = call_step.intros [OF assms(3) step_not_blocked [OF assms(2)], of am spurious s']
  show ?thesis
  proof (cases k)
    case None
    then show ?thesis using reachable.step [OF assms(1) pool_step.run, OF st(2)] assms(2) by simp
  next
    case (Some c')
    then show ?thesis using reachable.step [OF assms(1) pool_step.run, OF st(1)] assms(2) by simp
  qed
qed

lemmas lock_defs = CRYPTO_MUTEX_init_def CRYPTO_MUTEX_lock_read_def CRYPTO_MUTEX_unlock_read_def CRYPTO_MUTEX_lock_write_def
  CRYPTO_MUTEX_unlock_write_def

lemma miss:
  assumes "reachable (s, C)" "lock s = CRYPTO_MUTEX_init" "heap s a = None" "readable s (Tmp [7])"
    "lh_retrieve (CRYPTO_BUFFER_hash (heap s)) (CRYPTO_BUFFER_cmp (heap s)) (bufs s) (Tmp [7]) = None"
  shows "reachable (s\<lparr>heap := (heap s)(a \<mapsto> \<lparr>in_pool = True, buf_bytes = [7], references = 1\<rparr>)\<rparr>, add_mset (New_lock_write [7] a) C)"
proof -
  let ?am = "\<lambda>_::nat. Some (\<lambda>_::nat. 0 :: u8)" and ?l = "\<lparr>readers = 1, writer = False\<rparr>"
  have "start (Call_new [7] True) s = Some (s, New_lock_read [7])" by simp
  then have "reachable (s, add_mset (New_lock_read [7]) C)" using reachable.step [OF assms(1) pool_step.call] by blast
  from go_on [OF this, of ?am a False] assms have "reachable (s\<lparr>lock := ?l\<rparr>, add_mset (New_retrieve_R [7]) C)" by (simp add: lock_defs)
  moreover have "readable (s\<lparr>lock := ?l\<rparr>) (Tmp [7])" using assms(4) by (simp add: readable_def)
  ultimately have "reachable (s\<lparr>lock := ?l\<rparr>, add_mset (New_unlock_R [7] None) C)"
    using go_on [of "s\<lparr>lock := ?l\<rparr>" "New_retrieve_R [7]" C ?am a False] assms by simp
  from go_on [OF this, of ?am a False] assms(2,3) have "reachable (s, add_mset (New_buffer [7] True) C)"
    by (cases s) (simp add: lock_defs)
  from go_on [OF this, of ?am a False] assms(3) show ?thesis
    by (simp add: OPENSSL_malloc_def OPENSSL_memdup_def write_at_def size_add_def Let_def upt_rec)
qed

definition empty_table :: "buffer lhash" where
  "empty_table = \<lparr>num_items = 0, buckets = replicate 16 [], num_buckets = 16, callback_depth = 0\<rparr>"

abbreviation race_buffer :: "u32 \<Rightarrow> crypto_buffer" where
  "race_buffer n \<equiv> \<lparr>in_pool = True, buf_bytes = [7], references = n\<rparr>"

abbreviation race_state :: "memory \<Rightarrow> buffer lhash \<Rightarrow> bool \<Rightarrow> ptr multiset \<Rightarrow> pool" where
  "race_state h lh w H \<equiv> \<lparr>heap = h, bufs = lh, lock = \<lparr>readers = 0, writer = w\<rparr>, handles = H\<rparr>"

lemma empty_table_new: "lh_new (\<lambda>_. Some (\<lambda>_. 0)) = Some empty_table"
  by (simp add: lh_new_def OPENSSL_malloc_def empty_table_def kMinNumBuckets_def)

lemma empty_table_retrieve: "lh_retrieve (CRYPTO_BUFFER_hash h) (CRYPTO_BUFFER_cmp h) empty_table p = None"
  by (simp add: empty_table_def lh_retrieve_def get_next_ptr_and_hash_def item_at_def Let_def)

lemma empty_table_elems: "elems empty_table = {#}"
  using lh_new_ok [OF empty_table_new] by simp

lemma race_start:
  "reachable (race_state [0 \<mapsto> race_buffer 1, 5 \<mapsto> race_buffer 1] empty_table False {#}, {#New_lock_write [7] 0, New_lock_write [7] 5#})"
proof -
  have "CRYPTO_BUFFER_POOL_new (\<lambda>_. Some (\<lambda>_. 0)) = Some (race_state Map.empty empty_table False {#})"
    by (simp add: CRYPTO_BUFFER_POOL_new_def OPENSSL_malloc_def empty_table_new CRYPTO_MUTEX_init_def)
  from miss [OF reachable.new [OF this], of 5]
  have "reachable (race_state [5 \<mapsto> race_buffer 1] empty_table False {#}, {#New_lock_write [7] 5#})"
    by (simp add: empty_table_retrieve empty_table_elems readable_def lock_defs)
  from miss [OF this, of 0] show ?thesis
    by (simp add: empty_table_retrieve empty_table_elems readable_def lock_defs fun_upd_twist)
qed

lemma race_hit:
  "\<exists>lh. reachable (race_state [0 \<mapsto> race_buffer 1, 5 \<mapsto> race_buffer 1] lh True {#0#}, {#New_inc_W [7] 5 0 Load#})"
proof -
  let ?am = "\<lambda>_::nat. Some (\<lambda>_::nat. 0 :: u8)"
  let ?h = "[0 \<mapsto> race_buffer 1, 5 \<mapsto> race_buffer 1]"
  obtain lh old r where i: "lh_insert ?am (CRYPTO_BUFFER_hash ?h) (CRYPTO_BUFFER_cmp ?h) empty_table (At 0) = (lh, old, r)" by (metis prod_cases3)
  have ok: "lh_ok (CRYPTO_BUFFER_hash ?h) (CRYPTO_BUFFER_cmp ?h) empty_table" by (rule lh_new_ok(1) [OF empty_table_new])
  have old: "old = None" using buffers.lh_insert_ok(2) [OF ok i] empty_table_retrieve by simp
  have r: r using buffers.lh_insert_ok(4) [OF ok i] by (auto simp: OPENSSL_malloc_def)
  have hit: "lh_retrieve (CRYPTO_BUFFER_hash ?h) (CRYPTO_BUFFER_cmp ?h) lh (At 5) = Some (At 0)"
    using buffers.lh_insert_map [OF ok i [simplified r simp_thms]] by (simp add: CRYPTO_BUFFER_cmp_0 bytes_of_def)
  have elems: "elems lh = {#At 0#}" using buffers.lh_insert_ok(3) [OF ok i] r old empty_table_elems by simp
  from go_on [OF race_start, of ?am 2 False]
  have "reachable (race_state ?h empty_table True {#}, {#New_insert_W [7] 0, New_lock_write [7] 5#})" by (simp add: lock_defs)
  from go_on [OF this, of ?am 2 False]
  have "reachable (race_state ?h lh True {#}, {#New_unlock_W [7] 0 None True, New_lock_write [7] 5#})"
    by (simp add: empty_table_retrieve empty_table_elems readable_def i old r)
  from go_on [OF this, of ?am 2 False]
  have "reachable (race_state ?h lh False {#0#}, {#New_lock_write [7] 5#})" by (simp add: lock_defs give_def)
  from go_on [OF this, of ?am 2 False]
  have "reachable (race_state ?h lh True {#0#}, {#New_insert_W [7] 5#})" by (simp add: lock_defs)
  from go_on [OF this, of ?am 2 False] show ?thesis by (auto simp: readable_def elems hit)
qed

lemma race_lost:
  "\<exists>lh. reachable (race_state [0 \<mapsto> race_buffer 2, 5 \<mapsto> race_buffer 1] lh False {#0#}, {#New_discard [7] 5 (Some 0)#})"
proof -
  let ?am = "\<lambda>_::nat. Some (\<lambda>_::nat. 0 :: u8)"
  let ?h = "[0 \<mapsto> race_buffer 1, 5 \<mapsto> race_buffer 1]"
  obtain lh where "reachable (race_state ?h lh True {#0#}, {#New_inc_W [7] 5 0 Load#})" using race_hit by blast
  from go_on [OF this, of ?am 2 False]
  have "reachable (race_state ?h lh True {#0#}, {#New_inc_W [7] 5 0 (Exchange 1)#})"
    by (simp add: inc_test_def CRYPTO_REFCOUNT_MAX_def set_count_def fun_upd_idem fun_upd_twist)
  from go_on [OF this, of ?am 2 False]
  have "reachable (race_state [0 \<mapsto> race_buffer 2, 5 \<mapsto> race_buffer 1] lh True {#0#}, {#New_unlock_W [7] 5 (Some 0) False#})"
    by (simp add: Let_def set_count_def fun_upd_twist)
  from go_on [OF this, of ?am 2 False] show ?thesis by (auto simp: lock_defs)
qed

lemma race_end:
  "\<exists>lh. reachable (race_state [0 \<mapsto> race_buffer 2] lh False {#0, 0#}, {#})"
proof -
  obtain lh where "reachable (race_state [0 \<mapsto> race_buffer 2, 5 \<mapsto> race_buffer 1] lh False {#0#}, {#New_discard [7] 5 (Some 0)#})"
    using race_lost by blast
  from go_on [OF this, of "\<lambda>_. None" 2 False] show ?thesis by (auto simp: give_def deallocate_def Let_def fun_upd_twist)
qed

lemma pool_is_memory_safe_witness:
  "\<exists>s. reachable (s, {#New_inc_W [7] 5 0 Load#}) \<and> 0 \<in># handles s \<and> step (\<lambda>_. None) 2 True s (New_inc_W [7] 5 0 Load) \<noteq> None"
proof -
  obtain lh where r: "reachable (race_state [0 \<mapsto> race_buffer 1, 5 \<mapsto> race_buffer 1] lh True {#0#}, {#New_inc_W [7] 5 0 Load#})"
    using race_hit by blast
  let ?s = "race_state [0 \<mapsto> race_buffer 1, 5 \<mapsto> race_buffer 1] lh True {#0#}"
  have "not_blocked (New_inc_W [7] 5 0 Load) ?s" "heap ?s 2 = None" by simp_all
  from pool_is_memory_safe [OF r this, of "\<lambda>_. None" True]
  have "step (\<lambda>_. None) 2 True ?s (New_inc_W [7] 5 0 Load) \<noteq> None" by blast
  moreover have "0 \<in># handles ?s" by simp
  ultimately show ?thesis using r by blast
qed

lemma pool_shares_and_frees_witness:
  "\<exists>s b. reachable (s, {#}) \<and> heap s 0 = Some b \<and> references b = 2 \<and> unat (references b) = count (handles s) 0"
proof -
  obtain lh where r: "reachable (race_state [0 \<mapsto> race_buffer 2] lh False {#0, 0#}, {#})" using race_end by blast
  from pool_shares_and_frees [OF r] r show ?thesis
    by (intro exI [of _ "race_state [0 \<mapsto> race_buffer 2] lh False {#0, 0#}"] exI [of _ "race_buffer 2"])
      (simp add: CRYPTO_REFCOUNT_MAX_def allof_def)
qed

lemma pool_calls_return_witness:
  "\<exists>x. reachable x \<and> size (snd x) = 2 \<and> run 0 x x \<and> (\<exists>z. call_step False x z)"
proof -
  let ?C = "{#New_lock_write [7] 0, New_lock_write [7] 5#}"
  from pool_calls_return [OF race_start run.here]
  have "\<exists>z. call_step False (race_state [0 \<mapsto> race_buffer 1, 5 \<mapsto> race_buffer 1] empty_table False {#}, ?C) z" by simp
  moreover have "size ?C = 2" by simp
  ultimately show ?thesis using race_start run.here by (metis snd_conv)
qed

lemma CRYPTO_BUFFER_new_returns_the_bytes_witness:
  "\<exists>s s' p b. reachable (s, {#New_discard [7] 5 (Some 0)#}) \<and> step (\<lambda>_. None) 2 False s (New_discard [7] 5 (Some 0)) = Some (s', None) \<and>
    handles s' = add_mset p (handles s) \<and> heap s' p = Some b \<and> buf_bytes b = [7]"
proof -
  obtain lh where r: "reachable (race_state [0 \<mapsto> race_buffer 2, 5 \<mapsto> race_buffer 1] lh False {#0#}, {#New_discard [7] 5 (Some 0)#})"
    using race_lost by blast
  let ?s = "race_state [0 \<mapsto> race_buffer 2, 5 \<mapsto> race_buffer 1] lh False {#0#}"
  let ?t = "race_state [0 \<mapsto> race_buffer 2] lh False {#0, 0#}"
  have st: "step (\<lambda>_. None) 2 False ?s (New_discard [7] 5 (Some 0)) = Some (?t, None)"
    by (simp add: give_def deallocate_def Let_def fun_upd_twist)
  have "(\<exists>p b. handles ?t = add_mset p (handles ?s) \<and> heap ?t p = Some b \<and> buf_bytes b = [7])"
    using CRYPTO_BUFFER_new_returns_the_bytes [OF r _ _ st, of "[7]"] by simp
  then show ?thesis using r st by blast
qed

end
