(* ===== verification/Unicode.thy ===== *)
theory Unicode
  imports Cbb_Props
begin

unbundle bit_operations_syntax

text \<open>
  Characters of ASN.1 strings (crypto/bytestring/unicode.c): reading one code point from a CBS and adding one
  to a CBB, in UTF-8, Latin-1, UCS-2 and UTF-32. Each encoding is an instance of the interface \<open>codec\<close>.
\<close>

section \<open>The functions\<close>

definition is_valid_code_point :: "u32 \<Rightarrow> bool" where
  "is_valid_code_point v = (if v > 0x10ffff \<or> v AND 0xfffe = 0xfffe \<or> (v \<ge> 0xfdd0 \<and> v \<le> 0xfdef) \<or>
     (v \<ge> 0xd800 \<and> v \<le> 0xdfff) then False else True)"

definition BOTTOM_BITS :: "nat \<Rightarrow> u8" where
  "BOTTOM_BITS n = ucast (push_bit n 1 - 1 :: u32)"

definition TOP_BITS :: "nat \<Rightarrow> u8" where
  "TOP_BITS n = NOT (BOTTOM_BITS (8 - n))"

text \<open>The loop over the bytes after the first.\<close>

fun utf8_rest :: "nat \<Rightarrow> u32 \<Rightarrow> u32 reader" where
  "utf8_rest 0 v cbs = (Some v, cbs)"
| "utf8_rest (Suc k) v cbs = and_then CBS_get_u8 (\<lambda>c cbs.
     if c AND TOP_BITS 2 \<noteq> TOP_BITS 1 then (None, cbs)
     else utf8_rest k (push_bit 6 v OR ucast (c AND BOTTOM_BITS 6)) cbs) cbs"

definition utf8_lead :: "u8 \<Rightarrow> (u32 \<times> nat \<times> u32) option" where
  "utf8_lead c = (if c AND TOP_BITS 3 = TOP_BITS 2 then Some (ucast (c AND BOTTOM_BITS 5), 1, 0x80)
     else if c AND TOP_BITS 4 = TOP_BITS 3 then Some (ucast (c AND BOTTOM_BITS 4), 2, 0x800)
     else if c AND TOP_BITS 5 = TOP_BITS 4 then Some (ucast (c AND BOTTOM_BITS 3), 3, 0x10000)
     else None)"

definition cbs_get_utf8 :: "u32 reader" where
  "cbs_get_utf8 = and_then CBS_get_u8 (\<lambda>c cbs.
     if c \<le> 0x7f then (Some (ucast c), cbs)
     else case utf8_lead c of None \<Rightarrow> (None, cbs)
       | Some (v, k, lower_bound) \<Rightarrow> and_then (utf8_rest k v) (\<lambda>v cbs.
           if \<not> is_valid_code_point v \<or> v < lower_bound then (None, cbs) else (Some v, cbs)) cbs)"

definition cbs_get_latin1 :: "u32 reader" where
  "cbs_get_latin1 = and_then CBS_get_u8 (\<lambda>c cbs. (Some (ucast c), cbs))"

definition cbs_get_ucs2_be :: "u32 reader" where
  "cbs_get_ucs2_be = and_then CBS_get_u16 (\<lambda>c cbs.
     if \<not> is_valid_code_point (ucast c) then (None, cbs) else (Some (ucast c), cbs))"

definition cbs_get_utf32_be :: "u32 reader" where
  "cbs_get_utf32_be = and_then CBS_get_u32 (\<lambda>out cbs.
     if is_valid_code_point out then (Some out, cbs) else (None, cbs))"

definition cbb_get_utf8_len :: "u32 \<Rightarrow> nat" where
  "cbb_get_utf8_len u = (if u \<le> 0x7f then 1 else if u \<le> 0x7ff then 2 else if u \<le> 0xffff then 3 else 4)"

definition cbb_add_utf8 :: "alloc \<Rightarrow> u32 \<Rightarrow> cbb \<Rightarrow> cbb \<times> bool" where
  "cbb_add_utf8 am u cbb =
    (if \<not> is_valid_code_point u then (cbb, False)
     else if u \<le> 0x7f then CBB_add_u8 am (ucast u) cbb
     else if u \<le> 0x7ff then
       then_do (CBB_add_u8 am (ucast (ucast (TOP_BITS 2) OR drop_bit 6 u)))
               (CBB_add_u8 am (ucast (ucast (TOP_BITS 1) OR (u AND ucast (BOTTOM_BITS 6))))) cbb
     else if u \<le> 0xffff then
       then_do (CBB_add_u8 am (ucast (ucast (TOP_BITS 3) OR drop_bit 12 u)))
         (then_do (CBB_add_u8 am (ucast (ucast (TOP_BITS 1) OR (drop_bit 6 u AND ucast (BOTTOM_BITS 6)))))
               (CBB_add_u8 am (ucast (ucast (TOP_BITS 1) OR (u AND ucast (BOTTOM_BITS 6)))))) cbb
     else if u \<le> 0x10ffff then
       then_do (CBB_add_u8 am (ucast (ucast (TOP_BITS 4) OR drop_bit 18 u)))
         (then_do (CBB_add_u8 am (ucast (ucast (TOP_BITS 1) OR (drop_bit 12 u AND ucast (BOTTOM_BITS 6)))))
           (then_do (CBB_add_u8 am (ucast (ucast (TOP_BITS 1) OR (drop_bit 6 u AND ucast (BOTTOM_BITS 6)))))
               (CBB_add_u8 am (ucast (ucast (TOP_BITS 1) OR (u AND ucast (BOTTOM_BITS 6))))))) cbb
     else (cbb, False))"

definition cbb_add_latin1 :: "alloc \<Rightarrow> u32 \<Rightarrow> cbb \<Rightarrow> cbb \<times> bool" where
  "cbb_add_latin1 am u cbb = (if u \<le> 0xff then CBB_add_u8 am (ucast u) cbb else (cbb, False))"

definition cbb_add_ucs2_be :: "alloc \<Rightarrow> u32 \<Rightarrow> cbb \<Rightarrow> cbb \<times> bool" where
  "cbb_add_ucs2_be am u cbb = (if u \<le> 0xffff \<and> is_valid_code_point u then CBB_add_u16 am (ucast u) cbb else (cbb, False))"

definition cbb_add_utf32_be :: "alloc \<Rightarrow> u32 \<Rightarrow> cbb \<Rightarrow> cbb \<times> bool" where
  "cbb_add_utf32_be am u cbb = (if is_valid_code_point u then CBB_add_u32 am u cbb else (cbb, False))"

section \<open>UTF-8 as arithmetic\<close>

text \<open>The low \<open>6 k\<close> bits of a number as \<open>k\<close> continuation bytes, and the encoding.\<close>

fun continuation :: "nat \<Rightarrow> nat \<Rightarrow> bytes" where
  "continuation 0 n = []"
| "continuation (Suc k) n = of_nat (128 + n div 64 ^ k mod 64) # continuation k n"

definition utf8 :: "nat \<Rightarrow> bytes" where
  "utf8 n = (if n < 0x80 then [of_nat n]
     else if n < 0x800 then of_nat (192 + n div 64) # continuation 1 n
     else if n < 0x10000 then of_nat (224 + n div 64 ^ 2) # continuation 2 n
     else of_nat (240 + n div 64 ^ 3) # continuation 3 n)"

text \<open>The Unicode scalar values that are not reserved.\<close>

definition scalar_value :: "nat \<Rightarrow> bool" where
  "scalar_value n \<longleftrightarrow> n \<le> 0x10ffff \<and> n mod 0x10000 \<noteq> 0xfffe \<and> n mod 0x10000 \<noteq> 0xffff \<and>
     \<not> (0xfdd0 \<le> n \<and> n \<le> 0xfdef) \<and> \<not> (0xd800 \<le> n \<and> n \<le> 0xdfff)"

lemma bits_values:
  "TOP_BITS 1 = 0x80" "TOP_BITS (Suc 0) = 0x80" "TOP_BITS 2 = 0xC0" "TOP_BITS 3 = 0xE0" "TOP_BITS 4 = 0xF0" "TOP_BITS 5 = 0xF8"
  "BOTTOM_BITS 6 = 0x3F" "BOTTOM_BITS 5 = 0x1F" "BOTTOM_BITS 4 = 0x0F" "BOTTOM_BITS 3 = 0x07"
  by (simp_all add: TOP_BITS_def BOTTOM_BITS_def)

lemma all_bytes: "(\<forall>b :: u8. P b) \<longleftrightarrow> list_all (\<lambda>i. P (of_nat i)) [0..<256]"
proof -
  have "P b" if "\<forall>i < 256. P (of_nat i :: u8)" for b :: u8
    using that [rule_format, of "unat b"] unat_u8_less [of b] by simp
  then show ?thesis by (auto simp: list_all_iff)
qed

lemma unat_ucast_u8_u32: "unat (ucast (b :: u8) :: u32) = unat b"
proof -
  have "unat b < 256" by simp
  then have "unat b < 4294967296" by linarith
  then show ?thesis by (simp add: unsigned_ucast_eq take_bit_eq_mod)
qed

lemma continuation_byte:
  "(b :: u8) AND 0xC0 = 0x80 \<longleftrightarrow> (\<exists>d < 64. b = of_nat (128 + d))" "unat ((b :: u8) AND 0x3F) = unat b mod 64"
proof -
  have "\<forall>b :: u8. b AND 0xC0 = 0x80 \<longleftrightarrow> 128 \<le> unat b \<and> unat b < 192"
    unfolding all_bytes by code_simp
  moreover have "128 \<le> unat b \<and> unat b < 192 \<longleftrightarrow> (\<exists>d < 64. b = of_nat (128 + d))" for b :: u8
  proof
    assume "128 \<le> unat b \<and> unat b < 192"
    then have "b = of_nat (128 + (unat b - 128))" "unat b - 128 < 64" by (simp, linarith)
    then show "\<exists>d < 64. b = of_nat (128 + d)" by blast
  next
    assume "\<exists>d < 64. b = of_nat (128 + d)"
    then show "128 \<le> unat b \<and> unat b < 192" by (auto simp: unat_of_nat_u8 simp del: of_nat_add)
  qed
  ultimately show "b AND 0xC0 = 0x80 \<longleftrightarrow> (\<exists>d < 64. b = of_nat (128 + d))" by blast
  show "unat (b AND 0x3F) = unat b mod 64" using unat_and_mask [of b 6] by (simp add: mask_eq_exp_minus_1)
qed

lemma continuation_shift: "continuation k (a * 64 ^ k + n) = continuation k n"
proof (induction k arbitrary: a)
  case (Suc k)
  have "(a * 64 ^ Suc k + n) div 64 ^ k mod 64 = n div 64 ^ k mod 64"
    by (simp add: div_mult_self3 [of "64 ^ k" "a * 64" n, simplified ac_simps] ac_simps)
  then show ?case using Suc [of "a * 64"] by (simp add: ac_simps)
qed simp

lemma length_continuation [simp]: "length (continuation k n) = k"
  by (induction k) auto

lemma utf8_rest_iff:
  "(unat v + 1) * 64 ^ k \<le> 2 ^ 32 \<Longrightarrow>
    utf8_rest k v cbs = (Some w, r) \<longleftrightarrow> (\<exists>m < 64 ^ k. cbs = continuation k m @ r \<and> unat w = unat v * 64 ^ k + m)"
proof (induction k arbitrary: v cbs)
  case (Suc k)
  have step: "utf8_rest (Suc k) v (of_nat (128 + d) # cs) = (Some w, r) \<longleftrightarrow>
      (\<exists>m < 64 ^ k. cs = continuation k m @ r \<and> unat w = (unat v * 64 + d) * 64 ^ k + m)" if "d < 64" for d cs
  proof -
    let ?c = "of_nat (128 + d) :: u8"
    have c: "?c AND 0xC0 = 0x80" using continuation_byte(1) that by blast
    have "unat ?c = 128 + d" using that by (intro unat_of_nat_u8) simp
    moreover have "(128 + d) mod 64 = d" using mod_mult_self3 [of 2 64 d] that by simp
    ultimately have d: "unat (?c AND 0x3F) = d" unfolding continuation_byte(2) by simp
    have "unat v * 64 + 64 \<le> 2 ^ 32"
    proof -
      have "(unat v + 1) * 64 \<le> (unat v + 1) * 64 ^ Suc k" by (intro mult_left_mono) simp_all
      then show ?thesis using Suc.prems by simp
    qed
    then have v: "unat (push_bit 6 v OR ucast (?c AND 0x3F) :: u32) = unat v * 64 + d"
      using unat_push_or [of "ucast (?c AND 0x3F) :: u32" 6 v] that d by (simp add: unat_ucast_u8_u32)
    have "(unat v * 64 + d + 1) * 64 ^ k \<le> (unat v + 1) * 64 * 64 ^ k" using that by (intro mult_right_mono) simp_all
    also have "\<dots> = (unat v + 1) * 64 ^ Suc k" by (simp add: algebra_simps)
    finally have "(unat v * 64 + d + 1) * 64 ^ k \<le> 2 ^ 32" using Suc.prems by (rule le_trans)
    from Suc.IH [of "push_bit 6 v OR ucast (?c AND 0x3F)", unfolded v, OF this] c show ?thesis
      by (simp add: and_then_def bits_values del: of_nat_add)
  qed
  show ?case
  proof (cases "\<exists>d cs. d < 64 \<and> cbs = of_nat (128 + d) # cs")
    case True
    then obtain d cs where d: "d < 64" "cbs = of_nat (128 + d) # cs" by blast
    show ?thesis unfolding d(2) step [OF d(1)]
    proof
      assume "\<exists>m < 64 ^ k. cs = continuation k m @ r \<and> unat w = (unat v * 64 + d) * 64 ^ k + m"
      then obtain m where m: "m < 64 ^ k" "cs = continuation k m @ r" "unat w = (unat v * 64 + d) * 64 ^ k + m" by blast
      have "d * 64 ^ k + m < (d + 1) * 64 ^ k" using m(1) by simp
      also have "\<dots> \<le> 64 * 64 ^ k" using d(1) by (intro mult_right_mono) simp_all
      finally have "d * 64 ^ k + m < 64 ^ Suc k" by simp
      moreover have "(d * 64 ^ k + m) div 64 ^ k mod 64 = d" using m(1) d(1) by simp
      ultimately show "\<exists>m < 64 ^ Suc k. of_nat (128 + d) # cs = continuation (Suc k) m @ r \<and> unat w = unat v * 64 ^ Suc k + m"
        using m continuation_shift [of k d m]
        by (intro exI [of _ "d * 64 ^ k + m"]) (simp add: algebra_simps del: of_nat_add)
    next
      assume "\<exists>m < 64 ^ Suc k. of_nat (128 + d) # cs = continuation (Suc k) m @ r \<and> unat w = unat v * 64 ^ Suc k + m"
      then obtain m where m: "m < 64 ^ Suc k" "of_nat (128 + d) = (of_nat (128 + m div 64 ^ k mod 64) :: u8)"
        "cs = continuation k m @ r" "unat w = unat v * 64 ^ Suc k + m" by auto
      define e where "e = m div 64 ^ k mod 64"
      have "e < 64" by (simp add: e_def)
      then have "unat (of_nat (128 + e) :: u8) = 128 + e" by (intro unat_of_nat_u8) simp
      moreover have "unat (of_nat (128 + d) :: u8) = 128 + d" using d(1) by (intro unat_of_nat_u8) simp
      ultimately have "e = d" using m(2) unfolding e_def by (metis add_left_cancel)
      then have "m div 64 ^ k mod 64 = d" by (simp add: e_def)
      moreover have "m div 64 ^ k < 64" using m(1) by (simp add: less_mult_imp_div_less)
      ultimately have e: "m = d * 64 ^ k + m mod 64 ^ k" using div_mult_mod_eq [of m "64 ^ k"] by simp
      define m' where "m' = m mod 64 ^ k"
      have e': "m = d * 64 ^ k + m'" using e by (simp only: m'_def)
      have "cs = continuation k m' @ r" using m(3) unfolding e' continuation_shift .
      moreover have "unat w = (unat v * 64 + d) * 64 ^ k + m'" using m(4) unfolding e' by (simp add: algebra_simps)
      moreover have "m' < 64 ^ k" by (simp add: m'_def)
      ultimately show "\<exists>m < 64 ^ k. cs = continuation k m @ r \<and> unat w = (unat v * 64 + d) * 64 ^ k + m" by blast
    qed
  next
    case False
    have "\<not> utf8_rest (Suc k) v cbs = (Some w, r)"
    proof (cases cbs)
      case (Cons c cs)
      then have "c AND 0xC0 \<noteq> 0x80" using False continuation_byte(1) by blast
      then show ?thesis using Cons by (simp add: and_then_def bits_values)
    qed (simp add: and_then_def)
    moreover have "cbs \<noteq> continuation (Suc k) m @ r" for m
      using False mod_less_divisor [of 64 "m div 64 ^ k"] by (auto simp del: of_nat_add mod_less_divisor)
    ultimately show ?thesis by blast
  qed
qed (auto simp: word_unat_eq_iff)

lemma mod_from: "b * q \<le> n \<Longrightarrow> n < b * q + b \<Longrightarrow> n mod b = n - b * q" for n :: nat
proof -
  assume a: "b * q \<le> n" "n < b * q + b"
  define d where "d = n - b * q"
  have "n = b * q + d" "d < b" using a by (auto simp: d_def)
  then show ?thesis by simp
qed

lemma word_of_nat_unat: "of_nat (unat u) = u" for u :: u32
  by simp

lemma mask_numbers: "(mask 5 :: u8) = 0x1F" "(mask 4 :: u8) = 0x0F" "(mask 3 :: u8) = 0x07"
  by (simp_all add: mask_eq_exp_minus_1)

lemma pow_numbers: "(2 :: nat) ^ 5 = 32" "(2 :: nat) ^ 4 = 16" "(2 :: nat) ^ 3 = 8"
  by simp_all

lemma utf8_lead_eq:
  "utf8_lead c = (if 192 \<le> unat c \<and> unat c < 224 then Some (of_nat (unat c - 192), 1, 0x80)
     else if 224 \<le> unat c \<and> unat c < 240 then Some (of_nat (unat c - 224), 2, 0x800)
     else if 240 \<le> unat c \<and> unat c < 248 then Some (of_nat (unat c - 240), 3, 0x10000) else None)"
proof -
  have "\<forall>c :: u8. (c AND 0xE0 = 0xC0 \<longleftrightarrow> 192 \<le> unat c \<and> unat c < 224) \<and> (c AND 0xF0 = 0xE0 \<longleftrightarrow> 224 \<le> unat c \<and> unat c < 240) \<and>
      (c AND 0xF8 = 0xF0 \<longleftrightarrow> 240 \<le> unat c \<and> unat c < 248)"
    unfolding all_bytes by code_simp
  moreover have "unat (ucast (c AND mask n) :: u32) = unat c mod 2 ^ n" for n
    by (simp add: unat_ucast_u8_u32 unat_and_mask)
  then have "(ucast (c AND mask n) :: u32) = of_nat (unat c mod 2 ^ n)" for n
    using word_of_nat_unat [of "ucast (c AND mask n) :: u32"] by simp
  then have "(ucast (c AND 0x1F) :: u32) = of_nat (unat c mod 32)" "(ucast (c AND 0x0F) :: u32) = of_nat (unat c mod 16)"
    "(ucast (c AND 0x07) :: u32) = of_nat (unat c mod 8)"
    by (metis mask_numbers(1) pow_numbers(1), metis mask_numbers(2) pow_numbers(2), metis mask_numbers(3) pow_numbers(3))
  moreover have "192 \<le> n \<Longrightarrow> n < 224 \<Longrightarrow> n mod 32 = n - 192" "224 \<le> n \<Longrightarrow> n < 240 \<Longrightarrow> n mod 16 = n - 224"
    "240 \<le> n \<Longrightarrow> n < 248 \<Longrightarrow> n mod 8 = n - 240" for n :: nat
    using mod_from [of 32 6 n] mod_from [of 16 14 n] mod_from [of 8 30 n] by simp_all
  ultimately show ?thesis unfolding utf8_lead_def bits_values by (simp only: split: if_split) simp
qed

lemma and_push: "v AND push_bit k m = push_bit k (drop_bit k v AND m)" for v :: u32
  by (rule bit_word_eqI) (auto simp: bit_simps)

lemma and_fffe: "v AND 0xfffe = 0xfffe \<longleftrightarrow> unat v mod 0x10000 = 0xfffe \<or> unat v mod 0x10000 = 0xffff" for v :: u32
proof -
  have f: "(0xfffe :: u32) = push_bit 1 (mask 15)" by (simp add: mask_eq_exp_minus_1)
  have "v AND 0xfffe = push_bit 1 (drop_bit 1 v AND mask 15)" unfolding f by (rule and_push)
  also have "unat \<dots> = 2 * (unat v div 2 mod 2 ^ 15)"
  proof -
    let ?m = "drop_bit 1 v AND mask 15"
    have m: "unat ?m = unat v div 2 mod 2 ^ 15" unfolding unat_and_mask unat_drop_bit_eq by (simp add: drop_bit_eq_div)
    then have "unat ?m < 2 ^ 15" by simp
    then show ?thesis using unat_push_or [of "0 :: u32" 1 ?m] m by simp
  qed
  finally have "unat (v AND 0xfffe) = 2 * (unat v div 2 mod 2 ^ 15)" .
  moreover have "v AND 0xfffe = 0xfffe \<longleftrightarrow> unat (v AND 0xfffe) = 0xfffe" by (simp add: word_unat_eq_iff)
  moreover have "n div 2 mod 2 ^ 15 = n mod 0x10000 div 2" for n :: nat
    using mod_mult2_eq [of n 2 "2 ^ 15"] by simp
  moreover have "2 * (n div 2) = 0xfffe \<longleftrightarrow> n = 0xfffe \<or> n = 0xffff" for n :: nat by presburger
  ultimately show ?thesis by simp
qed

lemma is_valid_code_point_iff: "is_valid_code_point v \<longleftrightarrow> scalar_value (unat v)"
  unfolding is_valid_code_point_def scalar_value_def and_fffe by (auto simp: word_le_nat_alt word_less_nat_alt not_less)

section \<open>Every spelling is read, and only those\<close>

text \<open>The longer forms: continuation bytes, first byte, least code point and number of first bytes.\<close>

definition long_form :: "nat \<Rightarrow> nat \<Rightarrow> nat \<Rightarrow> nat \<Rightarrow> bool" where
  "long_form k base lo width \<longleftrightarrow> (k, base, lo, width) \<in> {(1, 192, 0x80, 32), (2, 224, 0x800, 16), (3, 240, 0x10000, 8)}"

lemma utf8_longer:
  assumes "long_form k base lo width" "v < width" "m < 64 ^ k" "lo \<le> v * 64 ^ k + m"
  shows "utf8 (v * 64 ^ k + m) = of_nat (base + v) # continuation k m"
proof -
  have "(v * 64 ^ k + m) div 64 ^ k = v" using assms(3) by simp
  moreover have "v * 64 ^ k + m < width * 64 ^ k"
  proof -
    have "v * 64 ^ k + m < (v + 1) * 64 ^ k" using assms(3) by simp
    also have "\<dots> \<le> width * 64 ^ k" using assms(2) by (intro mult_right_mono) simp_all
    finally show ?thesis .
  qed
  ultimately show ?thesis using assms(1,4) continuation_shift [of k v m]
    unfolding utf8_def long_form_def by (auto simp del: of_nat_add continuation.simps)
qed

lemma utf8_lead_iff:
  "utf8_lead c = Some (v, k, lb) \<longleftrightarrow>
    (\<exists>base width. long_form k base (unat lb) width \<and> unat v < width \<and> c = of_nat (base + unat v))" (is "?L \<longleftrightarrow> ?R")
proof
  assume ?L
  then have c: "192 \<le> unat c \<and> unat c < 224 \<and> v = of_nat (unat c - 192) \<and> k = 1 \<and> lb = 0x80 \<or>
      224 \<le> unat c \<and> unat c < 240 \<and> v = of_nat (unat c - 224) \<and> k = 2 \<and> lb = 0x800 \<or>
      240 \<le> unat c \<and> unat c < 248 \<and> v = of_nat (unat c - 240) \<and> k = 3 \<and> lb = 0x10000"
    unfolding utf8_lead_eq by (simp only: option.inject prod.inject split: if_splits) blast+
  have L: "unat v = unat c - base \<and> c = of_nat (base + unat v)" if "base \<le> unat c" "v = of_nat (unat c - base)" for base
  proof -
    have "unat c - base < 256" using unat_u8_less [of c] by linarith
    then have "unat v = unat c - base" unfolding that(2) by (simp add: unat_of_nat del: of_nat_diff)
    then show ?thesis using that(1) by (simp del: of_nat_add)
  qed
  have "\<exists>base width. base \<le> unat c \<and> unat c < base + width \<and> v = of_nat (unat c - base) \<and> long_form k base (unat lb) width"
    using c
  proof (elim disjE)
    assume "192 \<le> unat c \<and> unat c < 224 \<and> v = of_nat (unat c - 192) \<and> k = 1 \<and> lb = 0x80"
    then show ?thesis by (intro exI [of _ 192] exI [of _ 32]) (simp add: long_form_def)
  next
    assume "224 \<le> unat c \<and> unat c < 240 \<and> v = of_nat (unat c - 224) \<and> k = 2 \<and> lb = 0x800"
    then show ?thesis by (intro exI [of _ 224] exI [of _ 16]) (simp add: long_form_def)
  next
    assume "240 \<le> unat c \<and> unat c < 248 \<and> v = of_nat (unat c - 240) \<and> k = 3 \<and> lb = 0x10000"
    then show ?thesis by (intro exI [of _ 240] exI [of _ 8]) (simp add: long_form_def)
  qed
  then obtain base width where b: "base \<le> unat c" "unat c < base + width" "v = of_nat (unat c - base)"
    "long_form k base (unat lb) width" by blast
  have "unat v < width" using L [OF b(1,3)] b(1,2) by linarith
  then show ?R using L [OF b(1,3)] b(4) by blast
next
  assume ?R
  then obtain base width where b: "long_form k base (unat lb) width" "unat v < width" "c = of_nat (base + unat v)" by blast
  then have "unat c = base + unat v" unfolding long_form_def by (auto intro!: unat_of_nat_u8 simp del: of_nat_add)
  then show ?L using b(1,2) unfolding long_form_def by (auto simp: utf8_lead_eq word_unat_eq_iff)
qed

lemma long_form_room: "long_form k base lo width \<Longrightarrow> v < width \<Longrightarrow> (v + 1) * 64 ^ k \<le> 2 ^ 32"
  by (auto simp: long_form_def)

lemma utf8_one: "n < 128 \<Longrightarrow> utf8 n = [of_nat n]"
  by (simp add: utf8_def)

lemma cbs_get_utf8_sound:
  assumes "cbs_get_utf8 cbs = (Some u, r)"
  shows "is_valid_code_point u \<and> cbs = utf8 (unat u) @ r"
proof -
  obtain c cs where c: "cbs = c # cs" using assms by (cases cbs) (auto simp: cbs_get_utf8_def and_then_def)
  show ?thesis
  proof (cases "c \<le> 0x7f")
    case True
    then have n: "unat c < 128" by (simp add: word_le_nat_alt)
    have "u = ucast c" "r = cs" using assms True by (auto simp: c cbs_get_utf8_def and_then_def)
    then show ?thesis using n by (simp add: c unat_ucast_u8_u32 utf8_one is_valid_code_point_iff scalar_value_def)
  next
    case False
    then obtain v k lb where l: "utf8_lead c = Some (v, k, lb)" and rest: "utf8_rest k v cs = (Some u, r)"
      and u: "is_valid_code_point u" "\<not> u < lb"
      using assms by (auto simp: c cbs_get_utf8_def and_then_def split: option.splits prod.splits if_splits)
    obtain base width where b: "long_form k base (unat lb) width" "unat v < width" "c = of_nat (base + unat v)"
      using l unfolding utf8_lead_iff by blast
    obtain m where m: "m < 64 ^ k" "cs = continuation k m @ r" "unat u = unat v * 64 ^ k + m"
      using rest utf8_rest_iff [OF long_form_room [OF b(1,2)]] by blast
    have "unat lb \<le> unat v * 64 ^ k + m" using u(2) m(3) by (simp add: word_less_nat_alt)
    then show ?thesis using utf8_longer [OF b(1,2) m(1)] u(1) b(3) m by (simp add: c)
  qed
qed

lemma cbs_get_utf8_complete:
  assumes "is_valid_code_point u"
  shows "cbs_get_utf8 (utf8 (unat u) @ r) = (Some u, r)"
proof (cases "unat u < 128")
  case True
  then have "unat (of_nat (unat u) :: u8) = unat u" by (intro unat_of_nat_u8) simp
  then have c: "of_nat (unat u) \<le> (0x7f :: u8)" "ucast (of_nat (unat u) :: u8) = u"
    using True by (simp_all add: word_le_nat_alt word_unat_eq_iff unat_ucast_u8_u32)
  show ?thesis unfolding utf8_one [OF True] using c by (simp add: cbs_get_utf8_def and_then_def)
next
  case False
  let ?n = "unat u"
  have n: "?n \<le> 0x10ffff" using assms by (simp add: is_valid_code_point_iff scalar_value_def)
  have "\<exists>k base lo width. long_form k base lo width \<and> lo \<le> ?n \<and> ?n < width * 64 ^ k"
  proof -
    consider "?n < 0x800" | "0x800 \<le> ?n" "?n < 0x10000" | "0x10000 \<le> ?n" by linarith
    then show ?thesis
    proof cases
      case 1 then show ?thesis using False by (intro exI [of _ 1] exI [of _ 192] exI [of _ "0x80"] exI [of _ 32]) (simp add: long_form_def)
    next
      case 2 then show ?thesis by (intro exI [of _ 2] exI [of _ 224] exI [of _ "0x800"] exI [of _ 16]) (simp add: long_form_def)
    next
      case 3 then show ?thesis using n by (intro exI [of _ 3] exI [of _ 240] exI [of _ "0x10000"] exI [of _ 8]) (simp add: long_form_def)
    qed
  qed
  then obtain k base lo width where b: "long_form k base lo width" "lo \<le> ?n" "?n < width * 64 ^ k" by blast
  define v m where "v = ?n div 64 ^ k" and "m = ?n mod 64 ^ k"
  have vm: "v < width" "m < 64 ^ k" "?n = v * 64 ^ k + m" unfolding v_def m_def using b(3) by (simp_all only: less_mult_imp_div_less div_mult_mod_eq) simp
  let ?v = "of_nat v :: u32" and ?lb = "of_nat lo :: u32" and ?c = "of_nat (base + v) :: u8"
  have w: "unat ?v = v" "unat ?lb = lo" "base + v < 256" "128 \<le> base" using b(1) vm(1) by (auto simp: long_form_def unat_of_nat)
  have lead: "utf8_lead ?c = Some (?v, k, ?lb)" using b(1) vm(1) w unfolding utf8_lead_iff by auto
  have rest: "utf8_rest k ?v (continuation k m @ r) = (Some u, r)"
    using utf8_rest_iff [of ?v k] long_form_room [OF b(1) vm(1)] vm w(1) by auto
  have "unat ?c = base + v" using w(3) by (rule unat_of_nat_u8)
  then have "\<not> ?c \<le> 0x7f" using w(4) by (simp add: word_le_nat_alt del: of_nat_add)
  moreover have "\<not> u < ?lb" using b(2) w(2) by (simp add: word_less_nat_alt)
  ultimately show ?thesis using lead rest assms utf8_longer [OF b(1) vm(1,2)] b(2) vm(3)
    by (simp add: cbs_get_utf8_def and_then_def del: of_nat_add)
qed

lemma cbs_get_utf8_iff:
  "cbs_get_utf8 cbs = (Some u, r) \<longleftrightarrow> is_valid_code_point u \<and> cbs = utf8 (unat u) @ r"
  using cbs_get_utf8_sound cbs_get_utf8_complete by blast

section \<open>Writing\<close>

lemma u8_of_u32: "(ucast (y :: u32) :: u8) = of_nat (unat y)"
  by (simp add: word_unat_eq_iff unat_of_nat)

lemma byte_or:
  assumes "unat (x :: u32) = y" "y < 2 ^ j" "unat c * 2 ^ j + y < 256" "h = push_bit j c"
  shows "(ucast (h OR x) :: u8) = of_nat (unat c * 2 ^ j + y)"
proof -
  have "unat (h OR x) = unat c * 2 ^ j + unat x" unfolding assms(4)
    by (rule unat_push_or) (use assms(1-3) in auto)
  then show ?thesis unfolding u8_of_u32 assms(1) by simp
qed

lemma continuation_written:
  "(ucast (ucast (TOP_BITS 1) OR (drop_bit (6 * i) u AND ucast (BOTTOM_BITS 6))) :: u8) =
    of_nat (128 + unat (u :: u32) div 64 ^ i mod 64)"
proof -
  let ?x = "drop_bit (6 * i) u AND ucast (BOTTOM_BITS 6)"
  have m: "ucast (BOTTOM_BITS 6) = (mask 6 :: u32)" by (simp add: bits_values mask_eq_exp_minus_1)
  have x: "unat ?x = unat u div 64 ^ i mod 64" unfolding m unat_and_mask unat_drop_bit_div by (simp add: power_mult)
  moreover have "unat u div 64 ^ i mod 64 < 64" by simp
  moreover have "ucast (TOP_BITS 1) = (push_bit 6 2 :: u32)" by (simp add: bits_values)
  ultimately show ?thesis using byte_or [OF x, of 6 2 "ucast (TOP_BITS 1)"] by simp
qed

lemma lead_written:
  "unat u < 32 * 64 \<Longrightarrow> (ucast (ucast (TOP_BITS 2) OR drop_bit 6 (u :: u32)) :: u8) = of_nat (192 + unat u div 64)"
  "unat u < 16 * 4096 \<Longrightarrow> (ucast (ucast (TOP_BITS 3) OR drop_bit 12 u) :: u8) = of_nat (224 + unat u div 4096)"
  "unat u < 8 * 262144 \<Longrightarrow> (ucast (ucast (TOP_BITS 4) OR drop_bit 18 u) :: u8) = of_nat (240 + unat u div 262144)"
proof -
  have d: "unat (drop_bit 6 u) = unat u div 64" "unat (drop_bit 12 u) = unat u div 4096" "unat (drop_bit 18 u) = unat u div 262144"
    by (simp_all add: unat_drop_bit_div)
  have t: "ucast (TOP_BITS 2) = (push_bit 5 6 :: u32)" "ucast (TOP_BITS 3) = (push_bit 4 14 :: u32)"
    "ucast (TOP_BITS 4) = (push_bit 3 30 :: u32)" by (simp_all add: bits_values)
  have c: "unat (6 :: u32) * 2 ^ 5 = 192" "unat (14 :: u32) * 2 ^ 4 = 224" "unat (30 :: u32) * 2 ^ 3 = 240" by simp_all
  show "(ucast (ucast (TOP_BITS 2) OR drop_bit 6 u) :: u8) = of_nat (192 + unat u div 64)" if "unat u < 32 * 64"
    by (rule byte_or [OF d(1), of 5 6, unfolded c, OF _ _ t(1)]) (use less_mult_imp_div_less [OF that] in auto)
  show "(ucast (ucast (TOP_BITS 3) OR drop_bit 12 u) :: u8) = of_nat (224 + unat u div 4096)" if "unat u < 16 * 4096"
    by (rule byte_or [OF d(2), of 4 14, unfolded c, OF _ _ t(2)]) (use less_mult_imp_div_less [OF that] in auto)
  show "(ucast (ucast (TOP_BITS 4) OR drop_bit 18 u) :: u8) = of_nat (240 + unat u div 262144)" if "unat u < 8 * 262144"
    by (rule byte_or [OF d(3), of 3 30, unfolded c, OF _ _ t(3)]) (use less_mult_imp_div_less [OF that] in auto)
qed

lemma continuations_written:
  "(ucast (ucast (TOP_BITS 1) OR (u AND ucast (BOTTOM_BITS 6))) :: u8) = of_nat (128 + unat (u :: u32) mod 64)"
  "(ucast (ucast (TOP_BITS 1) OR (drop_bit 6 u AND ucast (BOTTOM_BITS 6))) :: u8) = of_nat (128 + unat u div 64 mod 64)"
  "(ucast (ucast (TOP_BITS 1) OR (drop_bit 12 u AND ucast (BOTTOM_BITS 6))) :: u8) = of_nat (128 + unat u div 4096 mod 64)"
  using continuation_written [of 0 u] continuation_written [of 1 u] continuation_written [of 2 u] by (simp_all del: of_nat_add)

lemma emits_utf8:
  assumes "is_valid_code_point u"
  shows "emits am (cbb_add_utf8 am u) (utf8 (unat u))"
proof -
  let ?n = "unat u"
  have n: "?n \<le> 0x10ffff" using assms by (simp add: is_valid_code_point_iff scalar_value_def)
  have le: "u \<le> 0x7f \<longleftrightarrow> ?n < 0x80" "u \<le> 0x7ff \<longleftrightarrow> ?n < 0x800" "u \<le> 0xffff \<longleftrightarrow> ?n < 0x10000" "u \<le> 0x10ffff"
    using n by (auto simp: word_le_nat_alt)
  consider "?n < 0x80" | "0x80 \<le> ?n" "?n < 0x800" | "0x800 \<le> ?n" "?n < 0x10000" | "0x10000 \<le> ?n" by linarith
  then show ?thesis
  proof cases
    case 1
    then have "cbb_add_utf8 am u = CBB_add_u8 am (of_nat ?n)"
      using assms le by (intro ext) (simp add: cbb_add_utf8_def u8_of_u32 del: of_nat_unat)
    then show ?thesis using emits_add_u8 [of am "of_nat ?n"] 1 by (simp add: utf8_one)
  next
    case 2
    then have u: "unat u < 32 * 64" and c: "\<not> ?n < 0x80" by simp_all
    have "cbb_add_utf8 am u = then_do (CBB_add_u8 am (of_nat (192 + ?n div 64))) (CBB_add_u8 am (of_nat (128 + ?n mod 64)))"
      using assms c 2 by (intro ext) (simp only: cbb_add_utf8_def lead_written(1) [OF u] continuations_written [where u = u] le simp_thms if_True if_False)
    then show ?thesis using emits_then_do [OF emits_add_u8 emits_add_u8] 2 by (simp add: utf8_def del: of_nat_add)
  next
    case 3
    then have u: "unat u < 16 * 4096" and c: "\<not> ?n < 0x80" "\<not> ?n < 0x800" by simp_all
    have "cbb_add_utf8 am u = then_do (CBB_add_u8 am (of_nat (224 + ?n div 4096)))
       (then_do (CBB_add_u8 am (of_nat (128 + ?n div 64 mod 64))) (CBB_add_u8 am (of_nat (128 + ?n mod 64))))"
      using assms c 3 by (intro ext) (simp only: cbb_add_utf8_def lead_written(2) [OF u] continuations_written [where u = u] le simp_thms if_True if_False)
    then show ?thesis using emits_then_do [OF emits_add_u8 emits_then_do [OF emits_add_u8 emits_add_u8]] 3
      by (simp add: utf8_def numeral_2_eq_2 del: of_nat_add)
  next
    case 4
    then have u: "unat u < 8 * 262144" and c: "\<not> ?n < 0x80" "\<not> ?n < 0x800" "\<not> ?n < 0x10000" using n by simp_all
    have "cbb_add_utf8 am u = then_do (CBB_add_u8 am (of_nat (240 + ?n div 262144)))
       (then_do (CBB_add_u8 am (of_nat (128 + ?n div 4096 mod 64)))
       (then_do (CBB_add_u8 am (of_nat (128 + ?n div 64 mod 64))) (CBB_add_u8 am (of_nat (128 + ?n mod 64)))))"
      using assms c 4 by (intro ext) (simp only: cbb_add_utf8_def lead_written(3) [OF u] continuations_written [where u = u] le simp_thms if_True if_False)
    then show ?thesis
      using emits_then_do [OF emits_add_u8 emits_then_do [OF emits_add_u8 emits_then_do [OF emits_add_u8 emits_add_u8]]] 4
      by (simp add: utf8_def numeral_3_eq_3 del: of_nat_add)
  qed
qed

section \<open>The four encodings\<close>

lemma CBS_get_u16_iff: "CBS_get_u16 cbs = (Some c, r) \<longleftrightarrow> cbs = be_bytes 2 (unat c) @ r"
proof -
  have c: "unat c < 65536" using unsigned_less [of c, where ?'a = nat] by simp
  then have w: "unat (ucast c :: u64) = unat c" by (simp add: unsigned_ucast_eq take_bit_eq_mod)
  have e: "unat v < 65536 \<and> c = ucast v \<longleftrightarrow> v = ucast c" for v :: u64
    using c w by (auto simp: word_unat_eq_iff unsigned_ucast_eq take_bit_eq_mod)
  have "CBS_get_u16 cbs = (Some c, r) \<longleftrightarrow>
      (\<exists>v :: u64. (unat v < 65536 \<and> c = ucast v) \<and> cbs = be_bytes 2 (unat v) @ r)"
    unfolding CBS_get_u16_def and_then_eq_Some by (simp add: cbs_get_u_iff) metis
  then show ?thesis unfolding e by (simp add: w)
qed

lemma CBS_get_u32_iff: "CBS_get_u32 cbs = (Some c, r) \<longleftrightarrow> cbs = be_bytes 4 (unat c) @ r"
proof -
  have c: "unat c < 4294967296" using unsigned_less [of c, where ?'a = nat] by simp
  then have w: "unat (ucast c :: u64) = unat c" by (simp add: unsigned_ucast_eq take_bit_eq_mod)
  have e: "unat v < 4294967296 \<and> c = ucast v \<longleftrightarrow> v = ucast c" for v :: u64
    using c w by (auto simp: word_unat_eq_iff unsigned_ucast_eq take_bit_eq_mod)
  have "CBS_get_u32 cbs = (Some c, r) \<longleftrightarrow>
      (\<exists>v :: u64. (unat v < 4294967296 \<and> c = ucast v) \<and> cbs = be_bytes 4 (unat v) @ r)"
    unfolding CBS_get_u32_def and_then_eq_Some by (simp add: cbs_get_u_iff) metis
  then show ?thesis unfolding e by (simp add: w)
qed

lemma utf8_length: "1 \<le> length (utf8 n) \<and> length (utf8 n) \<le> 4"
  by (simp add: utf8_def)

lemma small_ucast: "u \<le> 0xff \<Longrightarrow> unat (ucast u :: u8) = unat u" "u \<le> 0xffff \<Longrightarrow> unat (ucast u :: u16) = unat u" for u :: u32
  by (simp_all add: unsigned_ucast_eq take_bit_eq_mod word_le_nat_alt)

interpretation utf8: codec cbs_get_utf8 is_valid_code_point "\<lambda>u. utf8 (unat u)" cbb_add_utf8 is_valid_code_point
proof (rule codecI)
  show "utf8 (unat u) \<noteq> []" "length (utf8 (unat u)) \<le> 2 ^ 61" for u using utf8_length [of "unat u"] by auto
qed (simp_all add: cbs_get_utf8_iff emits_utf8)

interpretation latin1: codec cbs_get_latin1 "\<lambda>u. u \<le> 0xff" "\<lambda>u. [ucast u]" cbb_add_latin1 "\<lambda>u. u \<le> 0xff"
proof (rule codecI)
  show "cbs_get_latin1 cbs = (Some u, r) \<longleftrightarrow> u \<le> 0xff \<and> cbs = [ucast u] @ r" for cbs u r
  proof -
    have "u = ucast c \<longleftrightarrow> u \<le> 0xff \<and> c = ucast u" for c :: u8
    proof
      assume u: "u = ucast c"
      then have "unat u = unat c" by (simp add: unat_ucast_u8_u32)
      then show "u \<le> 0xff \<and> c = ucast u" using unat_u8_less [of c] by (simp add: word_le_nat_alt word_unat_eq_iff less_Suc_eq_le [symmetric] del: unat_u8_less)
    next
      assume "u \<le> 0xff \<and> c = ucast u"
      then show "u = ucast c" using small_ucast(1) [of u] by (simp add: word_unat_eq_iff unat_ucast_u8_u32)
    qed
    note e = this
    have "cbs_get_latin1 cbs = (Some u, r) \<longleftrightarrow> (\<exists>c :: u8. u = ucast c \<and> cbs = c # r)"
      by (simp add: cbs_get_latin1_def and_then_eq_Some) blast
    then show ?thesis unfolding e by simp
  qed
  show "emits am (cbb_add_latin1 am u) [ucast u]" if "u \<le> 0xff" for am u
  proof -
    have "cbb_add_latin1 am u = CBB_add_u8 am (ucast u)" using that by (intro ext) (simp add: cbb_add_latin1_def)
    then show ?thesis by (simp add: emits_add_u8)
  qed
qed simp_all

interpretation ucs2: codec cbs_get_ucs2_be "\<lambda>u. u \<le> 0xffff \<and> is_valid_code_point u" "\<lambda>u. be_bytes 2 (unat u)"
    cbb_add_ucs2_be "\<lambda>u. u \<le> 0xffff \<and> is_valid_code_point u"
proof (rule codecI)
  show "cbs_get_ucs2_be cbs = (Some u, r) \<longleftrightarrow> (u \<le> 0xffff \<and> is_valid_code_point u) \<and> cbs = be_bytes 2 (unat u) @ r" for cbs u r
  proof -
    have c: "unat (ucast c :: u32) = unat c" "unat c \<le> 65535" for c :: u16
      using unsigned_less [of c, where ?'a = nat] by (simp_all add: unsigned_ucast_eq take_bit_eq_mod)
    have "u = ucast c \<longleftrightarrow> u \<le> 0xffff \<and> c = ucast u" for c :: u16
    proof
      assume u: "u = ucast c"
      then have "unat u = unat c" by (simp add: c)
      then show "u \<le> 0xffff \<and> c = ucast u" using c(2) [of c] small_ucast(2) [of u] by (simp add: word_le_nat_alt word_unat_eq_iff)
    next
      assume "u \<le> 0xffff \<and> c = ucast u"
      then show "u = ucast c" using small_ucast(2) [of u] by (simp add: word_unat_eq_iff c)
    qed
    note e = this
    have "cbs_get_ucs2_be cbs = (Some u, r) \<longleftrightarrow> (\<exists>c :: u16. u = ucast c \<and> is_valid_code_point u \<and> cbs = be_bytes 2 (unat c) @ r)"
      by (simp add: cbs_get_ucs2_be_def and_then_eq_Some CBS_get_u16_iff if_bool_eq_conj) metis
    then show ?thesis using small_ucast(2) [of u] unfolding e by auto
  qed
  show "emits am (cbb_add_ucs2_be am u) (be_bytes 2 (unat u))" if "u \<le> 0xffff \<and> is_valid_code_point u" for am u
  proof -
    have "cbb_add_ucs2_be am u = CBB_add_u16 am (ucast u)" using that by (intro ext) (simp add: cbb_add_ucs2_be_def)
    then show ?thesis using emits_add_u16 [of am "ucast u"] small_ucast(2) that by simp
  qed
  show "be_bytes 2 (unat u) \<noteq> []" for u using length_be_bytes [of 2 "unat u"] by (metis list.size(3) zero_neq_numeral)
qed simp_all

interpretation utf32: codec cbs_get_utf32_be is_valid_code_point "\<lambda>u. be_bytes 4 (unat u)" cbb_add_utf32_be is_valid_code_point
proof (rule codecI)
  show "cbs_get_utf32_be cbs = (Some u, r) \<longleftrightarrow> is_valid_code_point u \<and> cbs = be_bytes 4 (unat u) @ r" for cbs u r
    by (auto simp: cbs_get_utf32_be_def and_then_eq_Some CBS_get_u32_iff split: if_splits)
  show "emits am (cbb_add_utf32_be am u) (be_bytes 4 (unat u))" if "is_valid_code_point u" for am u
  proof -
    have "cbb_add_utf32_be am u = CBB_add_u32 am u" using that by (intro ext) (simp add: cbb_add_utf32_be_def)
    then show ?thesis by (simp add: emits_add_u32)
  qed
  show "be_bytes 4 (unat u) \<noteq> []" for u using length_be_bytes [of 4 "unat u"] by (metis list.size(3) zero_neq_numeral)
qed simp_all

lemma cbb_get_utf8_len_eq: "cbb_get_utf8_len u = length (utf8 (unat u))"
  by (simp add: cbb_get_utf8_len_def utf8_def word_le_nat_alt)

text \<open>C22: Code points survive each encoding and no other bytes are taken for them. \<open>cbs_get_utf8\<close> accepts exactly
  the shortest UTF-8 form of a scalar value that is not reserved, of \<open>cbb_get_utf8_len\<close> bytes, so overlong forms,
  surrogates and stray continuation bytes are refused; and a character added to a fresh CBB in UTF-8, Latin-1, UCS-2 or UTF-32 and
  finished is read back with nothing left.\<close>
theorem unicode_roundtrip:
  assumes "CBB_init am n = (s0, True)" "n \<le> 2 ^ 62"
  shows "(cbs_get_utf8 cbs = (Some v, r) \<longleftrightarrow> scalar_value (unat v) \<and> cbs = utf8 (unat v) @ r) \<and>
    length (utf8 (unat v)) = cbb_get_utf8_len v \<and>
    (cbb_add_utf8 am u s0 = (s1, True) \<and> CBB_finish am s1 = (s2, Some d) \<longrightarrow> cbs_get_utf8 d = (Some u, [])) \<and>
    (cbb_add_latin1 am u s0 = (s1, True) \<and> CBB_finish am s1 = (s2, Some d) \<longrightarrow> cbs_get_latin1 d = (Some u, [])) \<and>
    (cbb_add_ucs2_be am u s0 = (s1, True) \<and> CBB_finish am s1 = (s2, Some d) \<longrightarrow> cbs_get_ucs2_be d = (Some u, [])) \<and>
    (cbb_add_utf32_be am u s0 = (s1, True) \<and> CBB_finish am s1 = (s2, Some d) \<longrightarrow> cbs_get_utf32_be d = (Some u, []))"
proof -
  obtain b where b: "s0 = (Some b, [])" "wf b []" "len b = 0"
    by (rule CBB_init_fresh [OF assms])
  have ok: "cbb_add_utf8 am u s0 = (s1, True) \<Longrightarrow> is_valid_code_point u" "cbb_add_latin1 am u s0 = (s1, True) \<Longrightarrow> u \<le> 0xff"
    "cbb_add_ucs2_be am u s0 = (s1, True) \<Longrightarrow> u \<le> 0xffff \<and> is_valid_code_point u"
    "cbb_add_utf32_be am u s0 = (s1, True) \<Longrightarrow> is_valid_code_point u"
    by (simp_all add: cbb_add_utf8_def cbb_add_latin1_def cbb_add_ucs2_be_def cbb_add_utf32_be_def split: if_splits)
  show ?thesis
    using ok utf8.build_then_read [where a = u and am = am, OF _ b(2,3)] latin1.build_then_read [where a = u and am = am, OF _ b(2,3)]
      ucs2.build_then_read [where a = u and am = am, OF _ b(2,3)] utf32.build_then_read [where a = u and am = am, OF _ b(2,3)]
    unfolding b(1) cbb_get_utf8_len_eq cbs_get_utf8_iff is_valid_code_point_iff by blast
qed

theorem unicode_roundtrip_witness:
  "\<exists>s1 s2 d. cbb_add_utf8 ample 0x20ac (fst (CBB_init ample 0)) = (s1, True) \<and> CBB_finish ample s1 = (s2, Some d) \<and>
     cbs_get_utf8 d = (Some 0x20ac, []) \<and> cbb_get_utf8_len 0x20ac = 3"
proof -
  obtain b where b: "CBB_init ample 0 = ((Some b, []), True)" "wf b []" "len b = 0" "can_resize b"
    using CBB_init_ample [of 0] by auto
  have "is_valid_code_point 0x20ac" by (simp add: is_valid_code_point_iff scalar_value_def)
  from utf8.build_succeeds [where am = ample, OF this b(2-4)]
  obtain s1 s2 where run: "cbb_add_utf8 ample 0x20ac (Some b, []) = (s1, True)" "CBB_finish ample s1 = (s2, Some (utf8 (unat (0x20ac :: u32))))"
    by auto
  have "cbs_get_utf8 (utf8 (unat (0x20ac :: u32))) = (Some 0x20ac, [])"
    using unicode_roundtrip [OF b(1), of _ _ _ "0x20ac" s1 s2 "utf8 (unat (0x20ac :: u32))"] run by simp
  then show ?thesis using run b(1) by (auto simp: cbb_get_utf8_len_def)
qed

end
