(* ===== verification/Cbs_Copy.thy ===== *)
theory Cbs_Copy
  imports Cbs Mem
begin

text \<open>
  The two functions of crypto/bytestring/cbs.c that copy a window into memory of the caller. The block an
  output pointer had before is freed; the results are the pointer, None for NULL, and for
  \<open>CBS_stow\<close> the length.
\<close>

definition CBS_stow :: "alloc \<Rightarrow> cbs \<Rightarrow> (bytes option \<times> nat) \<times> bool" where
  "CBS_stow am cbs = (if length cbs = 0 then ((None, 0), True)
     else case OPENSSL_memdup am cbs of None \<Rightarrow> ((None, 0), False)
       | Some out_ptr \<Rightarrow> ((Some out_ptr, length cbs), True))"

definition CBS_strdup :: "alloc \<Rightarrow> cbs \<Rightarrow> bytes option \<times> bool" where
  "CBS_strdup am cbs = (case OPENSSL_strndup am (Some cbs) (length cbs) of out_ptr \<Rightarrow> (out_ptr, out_ptr \<noteq> None))"

text \<open>A stowed window is a copy of it, and an empty window needs no memory.\<close>

lemma CBS_stow_copies:
  "length cbs \<le> SIZE_MAX - 8 \<Longrightarrow> CBS_stow am cbs = ((p, n), True) \<Longrightarrow>
    n = length cbs \<and> (cbs = [] \<and> p = None \<or> cbs \<noteq> [] \<and> p = Some cbs)"
  using OPENSSL_memdup_Some [of am cbs] by (auto simp: CBS_stow_def split: if_splits option.splits)

lemma CBS_stow_fails:
  "CBS_stow am cbs = ((p, n), False) \<Longrightarrow> cbs \<noteq> [] \<and> OPENSSL_malloc am (length cbs) = None \<and> p = None \<and> n = 0"
  by (auto simp: CBS_stow_def OPENSSL_memdup_def split: if_splits option.splits)

lemma CBS_stow_succeeds: "(\<And>m. am m \<noteq> None) \<Longrightarrow> snd (CBS_stow am cbs)"
  using OPENSSL_malloc_succeeds [of am "length cbs"]
  by (auto simp: CBS_stow_def OPENSSL_memdup_def split: option.splits)

text \<open>\<open>CBS_strdup\<close> copies up to a zero byte and terminates the copy.\<close>

lemma strnlen_takeWhile: "OPENSSL_strnlen s (length s) = length (takeWhile (\<lambda>b. b \<noteq> 0) s)"
  by (induction s) auto

lemma CBS_strdup_copies:
  assumes "length cbs < SIZE_MAX - 8" "CBS_strdup am cbs = (Some p, r)"
  shows "r \<and> p = takeWhile (\<lambda>b. b \<noteq> 0) cbs @ [0]"
proof -
  let ?t = "takeWhile (\<lambda>b. b \<noteq> 0) cbs"
  have t: "take (length ?t) cbs = ?t" by (rule takeWhile_eq_take [symmetric])
  have l: "length ?t \<le> length cbs" by (rule length_takeWhile_le)
  then have a: "size_add (length ?t) 1 = length ?t + 1" using assms(1) by (intro size_add_small) simp
  have "OPENSSL_strndup am (Some cbs) (length cbs) = (case OPENSSL_malloc am (length ?t + 1) of None \<Rightarrow> None
      | Some ret \<Rightarrow> Some (write_at (write_at ret 0 ?t) (length ?t) [0]))"
    unfolding OPENSSL_strndup_def strnlen_takeWhile Let_def option.case a t by simp
  then obtain ret where ret: "OPENSSL_malloc am (length ?t + 1) = Some ret" and p: "p = write_at (write_at ret 0 ?t) (length ?t) [0]"
    using assms(2) by (auto simp: CBS_strdup_def split: option.splits)
  have "length ret = length ?t + 1" using OPENSSL_malloc_length [OF ret] l assms(1) by simp
  then show ?thesis using assms(2) by (auto simp: p write_at_def CBS_strdup_def)
qed

end
