(* ===== verification/Ber.thy ===== *)
theory Ber
  imports Cbb_Props
begin

text \<open>
  crypto/bytestring/ber.c, function by function: the conversion of BER to DER, and the reading of implicitly tagged
  strings that may come in fragments. The assertions of the C code on its tag arguments are the caller's part.
\<close>

section \<open>The functions of ber.c\<close>

definition kMaxDepth :: nat where "kMaxDepth = 2048"

definition is_string_type :: "u32 \<Rightarrow> bool" where
  "is_string_type tag = (tag AND NOT CBS_ASN1_CONSTRUCTED \<in>
     {0x3, 0x4, 0xc, 0x12, 0x13, 0x14, 0x15, 0x16, 0x19, 0x1a, 0x1b, 0x1c, 0x1e})"

text \<open>The test for the header of an indefinite-length element, which is the same in both functions.\<close>

definition is_indefinite :: "nat \<Rightarrow> cbs \<Rightarrow> bool" where
  "is_indefinite header_len contents \<longleftrightarrow>
     length contents = header_len \<and> header_len > 0 \<and> contents ! (header_len - 1) = 0x80"

text \<open>The walk: \<open>find_ber_loop\<close> is the loop of \<open>cbs_find_ber\<close>, with the value of \<open>*ber_found\<close> and the window \<open>in\<close>. The
  recursive call sets \<open>*ber_found\<close> afresh.\<close>

function cbs_find_ber :: "nat \<Rightarrow> cbs \<Rightarrow> bool option"
  and find_ber_loop :: "nat \<Rightarrow> bool \<Rightarrow> cbs \<Rightarrow> bool option" where
  "cbs_find_ber depth orig_in = (if depth > kMaxDepth then None else find_ber_loop depth False orig_in)"
| "find_ber_loop depth ber_found inp =
    (if \<not> length inp > 0 then Some ber_found
     else case CBS_get_any_ber_asn1_element inp of (None, _) \<Rightarrow> None
     | (Some (contents, tag, header_len), inp') \<Rightarrow>
        if is_indefinite header_len contents then Some True
        else if tag AND CBS_ASN1_CONSTRUCTED \<noteq> 0 then
          if is_string_type tag then Some True
          else case CBS_skip header_len contents of (None, _) \<Rightarrow> None
            | (Some _, contents) \<Rightarrow>
               (case cbs_find_ber (depth + 1) contents of None \<Rightarrow> None
                | Some ber_found \<Rightarrow> find_ber_loop depth ber_found inp')
        else find_ber_loop depth ber_found inp')"
  by pat_completeness auto

text \<open>An element takes its header from the window.\<close>

lemma CBS_get_any_ber_asn1_element_shorter:
  assumes "CBS_get_any_ber_asn1_element cbs = (Some (contents, tag, header_len), cbs')"
  shows "length cbs = length contents + length cbs' \<and> header_len \<le> length contents \<and> 0 < header_len"
  using assms unfolding CBS_get_any_ber_asn1_element_iff CBS_get_any_asn1_element_iff
  by (auto simp: length_der_elem der_header_def)

lemma CBS_get_any_ber_asn1_element_None:
  "CBS_get_any_ber_asn1_element cbs = (None, cbs') \<Longrightarrow> cbs' = cbs"
  by (auto simp: CBS_get_any_ber_asn1_element_def cbs_get_any_asn1_element_def and_then_def CBS_get_bytes_def
      cbs_get_None Let_def split: prod.splits option.splits)

lemma skip_shortens: "(Some u, contents') = CBS_skip n contents \<Longrightarrow> length contents' = length contents - n"
  by (drule sym) simp

termination cbs_find_ber
  by (relation "measure (\<lambda>x. case x of Inl (depth, inp) \<Rightarrow> 2 * length inp + 1 | Inr (depth, found, inp) \<Rightarrow> 2 * length inp)")
    (fastforce dest: CBS_get_any_ber_asn1_element_shorter [OF sym] skip_shortens)+

declare cbs_find_ber.simps [simp del] find_ber_loop.simps [simp del]

definition is_eoc :: "nat \<Rightarrow> cbs \<Rightarrow> bool" where
  "is_eoc header_len contents \<longleftrightarrow> header_len = 2 \<and> length contents = 2 \<and> contents = [0, 0]"

text \<open>The choice of \<open>out_contents\<close>: the output itself inside a constructed string, else a child
  opened with \<open>CBB_add_asn1\<close>. \<open>out_contents\<close> is the CBB the pointer stands for, and \<open>from_contents\<close> is \<open>out\<close> after
  the CBB at \<open>out_contents\<close> has become \<open>c\<close>.\<close>

definition open_contents :: "alloc \<Rightarrow> u32 \<Rightarrow> u32 \<Rightarrow> cbb \<Rightarrow> cbb \<times> bool" where
  "open_contents am string_tag tag cbb =
    (if string_tag \<noteq> 0 then
       if tag AND NOT CBS_ASN1_CONSTRUCTED \<noteq> string_tag then (cbb, False) else (cbb, True)
     else let out_tag = (if tag AND CBS_ASN1_CONSTRUCTED \<noteq> 0 \<and> is_string_type tag
            then tag AND NOT CBS_ASN1_CONSTRUCTED else tag)
       in CBB_add_asn1 am out_tag cbb)"

definition child_string_tag :: "u32 \<Rightarrow> u32 \<Rightarrow> u32" where
  "child_string_tag string_tag tag =
    (if string_tag \<noteq> 0 then string_tag
     else if tag AND CBS_ASN1_CONSTRUCTED \<noteq> 0 \<and> is_string_type tag
     then tag AND NOT CBS_ASN1_CONSTRUCTED else string_tag)"

definition out_contents :: "u32 \<Rightarrow> cbb \<Rightarrow> cbb" where
  "out_contents string_tag cbb = (if string_tag \<noteq> 0 then cbb else (fst cbb, tl (snd cbb)))"

definition from_contents :: "u32 \<Rightarrow> cbb \<Rightarrow> cbb \<Rightarrow> cbb" where
  "from_contents string_tag cbb c = (if string_tag \<noteq> 0 then c else (fst c, hd (snd cbb) # snd c))"

text \<open>The loop of \<open>cbs_convert_ber\<close>: a round is a call at the same depth, on the window and the CBB
  the round before left. The three ways to fill the contents all end with \<open>CBB_flush(out)\<close>.\<close>

function cbs_convert_ber :: "alloc \<Rightarrow> u32 \<Rightarrow> bool \<Rightarrow> nat \<Rightarrow> cbs \<Rightarrow> cbb \<Rightarrow> (cbs \<times> cbb) \<times> bool" where
  "cbs_convert_ber am string_tag looking_for_eoc depth inp cbb =
    (if depth > kMaxDepth then ((inp, cbb), False)
     else if \<not> length inp > 0 then ((inp, cbb), \<not> looking_for_eoc)
     else (case CBS_get_any_ber_asn1_element inp of (None, inp) \<Rightarrow> ((inp, cbb), False)
     | (Some (contents, tag, header_len), inp) \<Rightarrow>
        if is_eoc header_len contents then ((inp, cbb), looking_for_eoc)
        else (case open_contents am string_tag tag cbb of (cbb, False) \<Rightarrow> ((inp, cbb), False)
        | (cbb, True) \<Rightarrow>
           (case
              (if is_indefinite header_len contents then
                 cbs_convert_ber am (child_string_tag string_tag tag) True (depth + 1) inp (out_contents string_tag cbb)
               else (case CBS_skip header_len contents of
                 (None, _) \<Rightarrow> ((inp, out_contents string_tag cbb), False)
               | (Some _, contents) \<Rightarrow>
                   if tag AND CBS_ASN1_CONSTRUCTED \<noteq> 0 then
                     (case cbs_convert_ber am (child_string_tag string_tag tag) False (depth + 1) contents (out_contents string_tag cbb) of
                        ((_, c), ok) \<Rightarrow> ((inp, c), ok))
                   else (case CBB_add_bytes am contents (out_contents string_tag cbb) of (c, ok) \<Rightarrow> ((inp, c), ok))))
            of ((inp, c), False) \<Rightarrow> ((inp, from_contents string_tag cbb c), False)
             | ((inp, c), True) \<Rightarrow>
                (case CBB_flush am (from_contents string_tag cbb c) of
                   (cbb, False) \<Rightarrow> ((inp, cbb), False)
                 | (cbb, True) \<Rightarrow> cbs_convert_ber am string_tag looking_for_eoc depth inp cbb)))))"
  by pat_completeness auto

lemma filled_window:
  assumes "((inp2, c), ok) = (if ind then R else (case S of (None, contents) \<Rightarrow> ((inp1, oc), False)
       | (Some u, contents) \<Rightarrow> if con then (case Q contents of ((_, c), ok) \<Rightarrow> ((inp1, c), ok))
           else (case B contents of (c, ok) \<Rightarrow> ((inp1, c), ok))))"
    and "ind \<Longrightarrow> length (fst (fst R)) \<le> length inp1"
  shows "length inp2 \<le> length inp1"
proof (cases ind)
  case True
  then have "R = ((inp2, c), ok)" using assms(1) by simp
  then show ?thesis using assms(2) [OF True] by simp
next
  case False
  then show ?thesis using assms(1) by (auto split: prod.splits option.splits if_splits)
qed

text \<open>One round, and how a round fills the contents.\<close>

definition fill_contents :: "alloc \<Rightarrow> u32 \<Rightarrow> nat \<Rightarrow> cbs \<Rightarrow> u32 \<Rightarrow> nat \<Rightarrow> cbs \<Rightarrow> cbb \<Rightarrow> (cbs \<times> cbb) \<times> bool" where
  "fill_contents am cst depth contents tag header_len inp c =
    (if is_indefinite header_len contents then cbs_convert_ber am cst True (depth + 1) inp c
     else (case CBS_skip header_len contents of
       (None, _) \<Rightarrow> ((inp, c), False)
     | (Some _, contents) \<Rightarrow>
         if tag AND CBS_ASN1_CONSTRUCTED \<noteq> 0
         then (case cbs_convert_ber am cst False (depth + 1) contents c of ((_, c), ok) \<Rightarrow> ((inp, c), ok))
         else (case CBB_add_bytes am contents c of (c, ok) \<Rightarrow> ((inp, c), ok))))"

lemma convert_round:
  assumes "cbs_convert_ber_dom (am, string_tag, eoc, depth, inp, cbb)"
    and d: "\<not> depth > kMaxDepth" "inp \<noteq> []"
    and r: "CBS_get_any_ber_asn1_element inp = (Some (contents, tag, header_len), inp1)"
    and e: "\<not> is_eoc header_len contents"
    and o: "open_contents am string_tag tag cbb = (cbb1, True)"
  shows "cbs_convert_ber am string_tag eoc depth inp cbb =
     (case fill_contents am (child_string_tag string_tag tag) depth contents tag header_len inp1 (out_contents string_tag cbb1) of
        ((inp, c), False) \<Rightarrow> ((inp, from_contents string_tag cbb1 c), False)
      | ((inp, c), True) \<Rightarrow> (case CBB_flush am (from_contents string_tag cbb1 c) of
             (cbb, False) \<Rightarrow> ((inp, cbb), False)
           | (cbb, True) \<Rightarrow> cbs_convert_ber am string_tag eoc depth inp cbb))"
proof -
  have g: "is_eoc header_len contents = False" "(depth > kMaxDepth) = False" "(\<not> length inp > 0) = False"
    using d e by simp_all
  show ?thesis
    unfolding cbs_convert_ber.psimps [OF assms(1)] fill_contents_def
    by (simp only: r o g if_False prod.case option.case bool.case)
qed

text \<open>The window never grows, so that the loop ends also after a call that reads from it.\<close>

lemma cbs_convert_ber_shortens:
  "cbs_convert_ber_dom (am, string_tag, eoc, depth, inp, cbb) \<Longrightarrow>
    length (fst (fst (cbs_convert_ber am string_tag eoc depth inp cbb))) \<le> length inp"
proof (induction am string_tag eoc depth inp cbb rule: cbs_convert_ber.pinduct)
  case (1 am string_tag eoc depth inp cbb)
  note eq = cbs_convert_ber.psimps [OF "1.hyps"]
  obtain e inp1 where r: "CBS_get_any_ber_asn1_element inp = (e, inp1)" by fastforce
  show ?case
  proof (cases "depth > kMaxDepth \<or> inp = [] \<or> e = None")
    case True
    then show ?thesis using r CBS_get_any_ber_asn1_element_None [of inp inp1] by (auto simp: eq)
  next
    case False
    then obtain contents tag header_len where e: "e = Some (contents, tag, header_len)" by auto
    have d: "\<not> depth > kMaxDepth" "inp \<noteq> []" using False by auto
    have l: "length inp1 \<le> length inp" using CBS_get_any_ber_asn1_element_shorter [OF r [unfolded e]] by simp
    obtain cbb1 ok1 where o: "open_contents am string_tag tag cbb = (cbb1, ok1)" by fastforce
    show ?thesis
    proof (cases "is_eoc header_len contents \<or> \<not> ok1")
      case True
      then show ?thesis using d r e o l by (auto simp: eq)
    next
      case go: False
      then have o1: "open_contents am string_tag tag cbb = (cbb1, True)" and ne: "\<not> is_eoc header_len contents"
        using o by simp_all
      let ?fill = "fill_contents am (child_string_tag string_tag tag) depth contents tag header_len inp1 (out_contents string_tag cbb1)"
      obtain inp2 c ok2 where f: "?fill = ((inp2, c), ok2)" by (metis surj_pair)
      have l2: "length inp2 \<le> length inp1"
        by (rule filled_window [OF f [symmetric, unfolded fill_contents_def]],
            rule "1.IH"(1) [OF d(1) _ r [symmetric] e refl refl _ o1 [symmetric]])
          (use ne d in auto)
      obtain cbb3 ok3 where u: "CBB_flush am (from_contents string_tag cbb1 c) = (cbb3, ok3)" by fastforce
      have "length (fst (fst (cbs_convert_ber am string_tag eoc depth inp2 cbb3))) \<le> length inp2" if "ok2" "ok3"
        by (rule "1.IH"(3) [OF d(1) _ r [symmetric] e refl refl _ o1 [symmetric] _ f [symmetric, unfolded fill_contents_def] refl _ u [symmetric]])
          (use ne d that in auto)
      then show ?thesis using l l2
        unfolding convert_round [OF "1.hyps" d r [unfolded e] ne o1] f
        by (auto simp: u split: bool.split)
    qed
  qed
qed

lemma cbs_convert_ber_total: "All cbs_convert_ber_dom"
proof (rule "cbs_convert_ber.termination" [of "measure (\<lambda>(am, string_tag, eoc, depth, inp, cbb). length inp)"], goal_cases)
  case 1 then show ?case by simp
next
  case 2 then show ?case by (fastforce dest: CBS_get_any_ber_asn1_element_shorter [OF sym])
next
  case 3 then show ?case by (fastforce dest: CBS_get_any_ber_asn1_element_shorter [OF sym] skip_shortens)
next
  case (4 am string_tag looking_for_eoc depth inp cbb x inp1 x2 contents ya tag header_len cbb1 ok1 xd ok2 inp2 c cbb3 ok3)
  have "length inp2 \<le> length inp1"
    by (rule filled_window [OF 4(10) [folded 4(11)]], rule cbs_convert_ber_shortens, rule 4(16))
  moreover have "length inp1 < length inp" 
    using CBS_get_any_ber_asn1_element_shorter [OF 4(3) [symmetric, unfolded 4(4) 4(5) [symmetric] 4(6) [symmetric]]]
    by (auto simp del: length_greater_0_conv)
  ultimately show ?case by simp
qed

termination cbs_convert_ber
  by (rule cbs_convert_ber_total)

declare cbs_convert_ber.simps [simp del]

text \<open>\<open>CBS_asn1_ber_to_der\<close> returns \<open>out\<close> and \<open>*out_storage\<close>, None for NULL. On failure of the conversion the
  CBB is cleaned up.\<close>

definition CBS_asn1_ber_to_der :: "alloc \<Rightarrow> (cbs \<times> bytes option) reader" where
  "CBS_asn1_ber_to_der am inp =
    (case cbs_find_ber 0 inp of None \<Rightarrow> (None, inp)
     | Some conversion_needed \<Rightarrow>
        if \<not> conversion_needed then and_then CBS_get_any_asn1_element (\<lambda>(out_cbs, _, _) inp. (Some (out_cbs, None), inp)) inp
        else (case CBB_init am (length inp) of (cbb, False) \<Rightarrow> (None, inp)
          | (cbb, True) \<Rightarrow> (case cbs_convert_ber am 0 False 0 inp cbb of ((inp, cbb), False) \<Rightarrow> (None, inp)
            | ((inp, cbb), True) \<Rightarrow> (case CBB_finish am cbb of (cbb, None) \<Rightarrow> (None, inp)
              | (cbb, Some storage) \<Rightarrow> (Some (storage, Some storage), inp)))))"

text \<open>The loop over the fragments of a constructed string. A round is one \<open>CBS_get_asn1\<close>, which takes at
  least the header.\<close>

function implicit_string_loop :: "alloc \<Rightarrow> u32 \<Rightarrow> cbs \<Rightarrow> cbb \<Rightarrow> cbb \<times> bool" where
  "implicit_string_loop am inner_tag child result =
    (if \<not> length child > 0 then (result, True)
     else (case CBS_get_asn1 inner_tag child of (None, _) \<Rightarrow> (result, False)
       | (Some chunk, child) \<Rightarrow>
          (case CBB_add_bytes am chunk result of (result, False) \<Rightarrow> (result, False)
           | (result, True) \<Rightarrow> implicit_string_loop am inner_tag child result)))"
  by pat_completeness auto

termination implicit_string_loop
  by (relation "measure (\<lambda>(am, inner_tag, child, result). length child)")
    (auto simp: CBS_get_asn1_iff length_der_elem der_header_def dest!: sym [of "(Some _, _)"])

declare implicit_string_loop.simps [simp del]

definition CBS_get_asn1_implicit_string :: "alloc \<Rightarrow> u32 \<Rightarrow> u32 \<Rightarrow> (cbs \<times> bytes option) reader" where
  "CBS_get_asn1_implicit_string am outer_tag inner_tag inp =
    (if CBS_peek_asn1_tag outer_tag inp
     then and_then (CBS_get_asn1 outer_tag) (\<lambda>out_cbs inp. (Some (out_cbs, None), inp)) inp
     else (case CBB_init am (length inp) of (result, False) \<Rightarrow> (None, inp)
       | (result, True) \<Rightarrow>
          (case CBS_get_asn1 (outer_tag OR CBS_ASN1_CONSTRUCTED) inp of (None, inp) \<Rightarrow> (None, inp)
           | (Some child, inp) \<Rightarrow>
              (case implicit_string_loop am inner_tag child result of (result, False) \<Rightarrow> (None, inp)
               | (result, True) \<Rightarrow>
                  (case CBB_finish am result of (result, None) \<Rightarrow> (None, inp)
                   | (result, Some storage) \<Rightarrow> (Some (storage, Some storage), inp))))))"

end
