(* ===== verification/Ber_Props.thy ===== *)
theory Ber_Props
  imports Ber
begin

text \<open>
  What the conversion of crypto/bytestring/ber.c does. A BER document is a forest of elements, \<open>ber list\<close>; \<open>ber_bytes\<close> spells
  it the way the reader of Cbs accepts it, and \<open>der_of\<close> is its DER. The conversion writes \<open>der_of\<close> of the document it
  reads. The walk that decides whether to convert is described by \<open>walk_finds\<close>.
\<close>

section \<open>Documents\<close>

datatype ber = Primitive u32 bytes | Constructed u32 bool "ber list"

text \<open>\<open>ber_bytes\<close> is the spelling of a document: the flag of a constructed element says that its length is
  indefinite.\<close>

fun ber_bytes :: "ber \<Rightarrow> bytes" where
  "ber_bytes (Primitive t c) = der_elem t c"
| "ber_bytes (Constructed t False ts) = der_elem t (concat (map ber_bytes ts))"
| "ber_bytes (Constructed t True ts) = der_tag t @ [0x80] @ concat (map ber_bytes ts) @ [0, 0]"

abbreviation forest_bytes :: "ber list \<Rightarrow> bytes" where
  "forest_bytes ts \<equiv> concat (map ber_bytes ts)"

text \<open>The octets of a string are those of its fragments; its DER is primitive.\<close>

fun string_octets :: "ber \<Rightarrow> bytes" where
  "string_octets (Primitive t c) = c"
| "string_octets (Constructed t indef ts) = concat (map string_octets ts)"

fun der_of :: "ber \<Rightarrow> bytes" where
  "der_of (Primitive t c) = der_elem t c"
| "der_of (Constructed t indef ts) =
    (if is_string_type t then der_elem (t AND NOT CBS_ASN1_CONSTRUCTED) (concat (map string_octets ts))
     else der_elem t (concat (map der_of ts)))"

text \<open>As a document, the DER has the same elements, without indefinite lengths and with strings in one piece.\<close>

fun to_der :: "ber \<Rightarrow> ber" where
  "to_der (Primitive t c) = Primitive t c"
| "to_der (Constructed t indef ts) =
    (if is_string_type t then Primitive (t AND NOT CBS_ASN1_CONSTRUCTED) (concat (map string_octets ts))
     else Constructed t False (map to_der ts))"

lemma der_of_to_der: "der_of t = ber_bytes (to_der t)"
  by (induction t rule: to_der.induct) (simp_all cong: map_cong add: comp_def)

text \<open>Which documents are well formed, at a depth and inside strings of type \<open>st\<close> (0: not inside a string):
  primitive and constructed tags are such, an end of contents is no element, the fragments of a string have its
  type, definite lengths fit 32 bits and the nesting is at most \<open>kMaxDepth\<close>.\<close>

fun ber_ok :: "u32 \<Rightarrow> nat \<Rightarrow> ber \<Rightarrow> bool" where
  "ber_ok st d (Primitive t c) \<longleftrightarrow> t AND CBS_ASN1_CONSTRUCTED = 0 \<and> length c < 2 ^ 32 \<and> \<not> (t = 0 \<and> c = []) \<and>
     (st \<noteq> 0 \<longrightarrow> t AND NOT CBS_ASN1_CONSTRUCTED = st)"
| "ber_ok st d (Constructed t indef ts) \<longleftrightarrow> t AND CBS_ASN1_CONSTRUCTED \<noteq> 0 \<and>
     (\<not> indef \<longrightarrow> length (forest_bytes ts) < 2 ^ 32) \<and> (st \<noteq> 0 \<longrightarrow> t AND NOT CBS_ASN1_CONSTRUCTED = st) \<and>
     d < kMaxDepth \<and> list_all (ber_ok (child_string_tag st t) (d + 1)) ts"

text \<open>What the loop writes for a document: elements, or inside a string the octets alone.\<close>

definition converted_elem :: "u32 \<Rightarrow> ber \<Rightarrow> bytes" where
  "converted_elem st t = (if st \<noteq> 0 then string_octets t else der_of t)"

definition converted :: "u32 \<Rightarrow> ber list \<Rightarrow> bytes" where
  "converted st ts = concat (map (converted_elem st) ts)"

lemma converted_simps [simp]:
  "converted st [] = []"
  "converted st (t # ts) = converted_elem st t @ converted st ts"
  by (simp_all add: converted_def)

text \<open>What a round writes around contents \<open>c\<close>.\<close>

definition item_bytes :: "u32 \<Rightarrow> u32 \<Rightarrow> bytes \<Rightarrow> bytes" where
  "item_bytes st t c = (if st \<noteq> 0 then c else der_elem (if t AND CBS_ASN1_CONSTRUCTED \<noteq> 0 \<and> is_string_type t
     then t AND NOT CBS_ASN1_CONSTRUCTED else t) c)"

lemma string_type_nonzero: "is_string_type t \<Longrightarrow> t AND NOT CBS_ASN1_CONSTRUCTED \<noteq> 0"
  by (auto simp: is_string_type_def)

lemma converted_elem_primitive: "t AND CBS_ASN1_CONSTRUCTED = 0 \<Longrightarrow> converted_elem st (Primitive t c) = item_bytes st t c"
  by (simp add: converted_elem_def item_bytes_def)

lemma converted_elem_constructed:
  "t AND CBS_ASN1_CONSTRUCTED \<noteq> 0 \<Longrightarrow>
    converted_elem st (Constructed t indef ts) = item_bytes st t (converted (child_string_tag st t) ts)"
  using string_type_nonzero [of t]
  by (auto simp: converted_elem_def item_bytes_def converted_def child_string_tag_def cong: map_cong)

section \<open>The reader on documents\<close>

lemma last_header_byte:
  "der_header t n ! (length (der_header t n) - 1) = last (der_len n)"
  by (cases "der_len n" rule: rev_cases) (simp_all add: der_header_def nth_append)

lemma is_indefinite_element: "length c < 2 ^ 32 \<Longrightarrow> \<not> is_indefinite (length (der_header t (length c))) (der_elem t c)"
  unfolding is_indefinite_def
proof 
  assume c: "length (der_elem t c) = length (der_header t (length c)) \<and> 0 < length (der_header t (length c)) \<and>
      der_elem t c ! (length (der_header t (length c)) - 1) = 128"
  then have "c = []" by (simp add: length_der_elem)
  then show False using c last_header_byte [of t 0] by (simp add: der_elem_def der_len_def)
qed

lemma is_indefinite_header: "is_indefinite (length (der_tag t @ [0x80])) (der_tag t @ [0x80])"
  by (simp add: is_indefinite_def nth_append)

lemma der_elem_inject:
  assumes "der_elem t c @ x = der_elem t' c' @ y" "length c < 2 ^ 32" "length c' < 2 ^ 32"
  shows "t = t' \<and> c = c' \<and> x = y"
  using any_asn1.enc_unique [of "(c, t)" "(c', t')" x y] assms by simp

lemma is_eoc_element:
  assumes "length c < 2 ^ 32"
  shows "is_eoc (length (der_header t (length c))) (der_elem t c) \<longleftrightarrow> t = 0 \<and> c = []"
proof -
  have e: "der_elem 0 [] = [0, 0]" by (simp add: der_elem_def der_header_def der_tag_def der_len_def tag_class_def tag_number_def)
  show ?thesis
    using der_elem_inject [of t c "[]" 0 "[]" "[]"] assms e
    by (auto simp: is_eoc_def der_header_def der_tag_def der_len_def tag_class_def tag_number_def)
qed

lemma is_eoc_indefinite: "\<not> is_eoc (length (der_tag t @ [0x80])) (der_tag t @ [0x80])"
  by (auto simp: is_eoc_def append_eq_Cons_conv)

text \<open>The reader on the spelling of an element.\<close>

lemma read_element [simp]:
  "length c < 2 ^ 32 \<Longrightarrow> CBS_get_any_ber_asn1_element (der_elem t c @ w) =
    (Some (der_elem t c, t, length (der_header t (length c))), w)"
  unfolding CBS_get_any_ber_asn1_element_iff CBS_get_any_asn1_element_iff by blast

lemma read_indefinite:
  "t AND CBS_ASN1_CONSTRUCTED \<noteq> 0 \<Longrightarrow> CBS_get_any_ber_asn1_element (der_tag t @ 0x80 # w) =
    (Some (der_tag t @ [0x80], t, length (der_tag t @ [0x80])), w)"
  unfolding CBS_get_any_ber_asn1_element_iff by simp

lemma read_cases:
  assumes "CBS_get_any_ber_asn1_element inp = (Some (contents, t, header_len), w)"
  obtains c where "length c < 2 ^ 32" "contents = der_elem t c" "header_len = length (der_header t (length c))"
      "inp = der_elem t c @ w"
  | "t AND CBS_ASN1_CONSTRUCTED \<noteq> 0" "contents = der_tag t @ [0x80]" "header_len = length contents"
      "inp = der_tag t @ 0x80 # w"
  using assms unfolding CBS_get_any_ber_asn1_element_iff CBS_get_any_asn1_element_iff by auto

lemma skip_header [simp]: "CBS_skip (length (der_header t (length c))) (der_elem t c) = (Some (), c)"
  by (simp add: der_elem_def)

section \<open>A round of the conversion\<close>

text \<open>The conversion as an operation on the CBB.\<close>

definition writes :: "('a \<Rightarrow> (cbs \<times> 'a) \<times> bool) \<Rightarrow> 'a \<Rightarrow> 'a \<times> bool" where
  "writes f c = (snd (fst (f c)), snd (f c))"

lemma writes_eq: "f c = ((w, c'), ok) \<Longrightarrow> writes f c = (c', ok)"
  by (simp add: writes_def)

definition convert_item :: "alloc \<Rightarrow> u32 \<Rightarrow> u32 \<Rightarrow> (cbb \<Rightarrow> cbb \<times> bool) \<Rightarrow> cbb \<Rightarrow> cbb \<times> bool" where
  "convert_item am st t body =
    (if st \<noteq> 0 then then_do body (CBB_flush am)
     else with_child am (CBB_add_asn1 am (if t AND CBS_ASN1_CONSTRUCTED \<noteq> 0 \<and> is_string_type t
            then t AND NOT CBS_ASN1_CONSTRUCTED else t)) body)"

lemma CBB_add_asn1_frame: "CBB_add_asn1 am t s = (s', True) \<Longrightarrow> \<exists>b f. s' = (b, [f])"
  unfolding CBB_add_asn1_alt by (auto split: prod.splits option.splits bool.splits)

lemma convert_round_open:
  assumes d: "\<not> d > kMaxDepth" "inp \<noteq> []"
    and r: "CBS_get_any_ber_asn1_element inp = (Some (contents, t, header_len), w)"
    and e: "\<not> is_eoc header_len contents"
  shows "open_contents am st t cbb = (cbb1, False) \<Longrightarrow> cbs_convert_ber am st eoc d inp cbb = ((w, cbb1), False)"
  using d e by (simp add: cbs_convert_ber.simps [of am st eoc d inp] r)

lemma convert_round_item:
  assumes o: "open_contents am st t cbb = (cbb1, True)"
    and f: "fill (out_contents st cbb1) = ((w, c), ok)"
    and st: "st \<noteq> 0 \<longrightarrow> t AND NOT CBS_ASN1_CONSTRUCTED = st"
  shows "convert_item am st t (writes fill) cbb =
    (if ok then CBB_flush am (from_contents st cbb1 c) else (from_contents st cbb1 c, False))"
proof (cases "st = 0")
  case False
  then have "cbb1 = cbb" using o st by (simp add: open_contents_def)
  then show ?thesis using False f
    by (simp add: convert_item_def then_do_def out_contents_def from_contents_def writes_def)
next
  case True
  then have add: "CBB_add_asn1 am (if t AND CBS_ASN1_CONSTRUCTED \<noteq> 0 \<and> is_string_type t
        then t AND NOT CBS_ASN1_CONSTRUCTED else t) cbb = (cbb1, True)"
    using o by (simp add: open_contents_def Let_def)
  from CBB_add_asn1_frame [OF this] obtain b f where b: "cbb1 = (b, [f])" by blast
  obtain b2 fs2 where c: "c = (b2, fs2)" by (cases c)
  show ?thesis using f unfolding convert_item_def
    by (simp add: True with_child_def then_do_def add on_child_def out_contents_def from_contents_def b c writes_def)
qed

lemma convert_round_fails:
  assumes o: "open_contents am st t cbb = (cbb1, False)"
    and st: "st \<noteq> 0 \<longrightarrow> t AND NOT CBS_ASN1_CONSTRUCTED = st"
  shows "convert_item am st t body cbb = (cbb1, False)"
  using assms by (auto simp: open_contents_def convert_item_def with_child_def then_do_def Let_def split: if_splits)

text \<open>The loop is one round and the rest of the loop.\<close>

lemma convert_round_writes:
  assumes d: "\<not> d > kMaxDepth" "inp \<noteq> []"
    and r: "CBS_get_any_ber_asn1_element inp = (Some (contents, t, header_len), w)"
    and e: "\<not> is_eoc header_len contents"
    and st: "st \<noteq> 0 \<longrightarrow> t AND NOT CBS_ASN1_CONSTRUCTED = st"
    and fill: "\<And>c. snd (fill_contents am (child_string_tag st t) d contents t header_len w c) \<Longrightarrow>
      fst (fst (fill_contents am (child_string_tag st t) d contents t header_len w c)) = w'"
  shows "writes (cbs_convert_ber am st eoc d inp) cbb =
      then_do (convert_item am st t (writes (fill_contents am (child_string_tag st t) d contents t header_len w)))
        (writes (cbs_convert_ber am st eoc d w')) cbb \<and>
    (snd (cbs_convert_ber am st eoc d inp cbb) \<longrightarrow>
      (\<exists>cbb'. cbs_convert_ber am st eoc d inp cbb = cbs_convert_ber am st eoc d w' cbb'))"
proof -
  obtain cbb1 ok1 where o: "open_contents am st t cbb = (cbb1, ok1)" by fastforce
  show ?thesis
  proof (cases ok1)
    case False
    then have o: "open_contents am st t cbb = (cbb1, False)" using o by simp
    show ?thesis using convert_round_open [OF d r e o] convert_round_fails [OF o st]
      by (simp add: writes_def then_do_def)
  next
    case True
    then have o: "open_contents am st t cbb = (cbb1, True)" using o by simp
    let ?fill = "fill_contents am (child_string_tag st t) d contents t header_len w"
    obtain w2 c ok2 where f: "?fill (out_contents st cbb1) = ((w2, c), ok2)" by (metis surj_pair)
    then have w2: "w2 = w'" if ok2 using fill [of "out_contents st cbb1"] that by simp
    obtain cbb3 ok3 where u: "CBB_flush am (from_contents st cbb1 c) = (cbb3, ok3)" by fastforce
    note run = convert_round [OF cbs_convert_ber_total [THEN spec] d r e o, of eoc, unfolded f prod.case u]
    note item = convert_round_item [of am st t cbb cbb1 ?fill, OF o f st, unfolded u]
    show ?thesis
      using run item w2 by (cases ok2; cases ok3) (auto simp: writes_def then_do_def simp del: split_paired_Ex)
  qed
qed

text \<open>How long the conversion of a document can become.\<close>

lemma length_der_tag_primitive: "length (der_tag (t AND NOT CBS_ASN1_CONSTRUCTED)) = length (der_tag t)"
proof -
  have "(t AND NOT CBS_ASN1_CONSTRUCTED) AND CBS_ASN1_TAG_NUMBER_MASK = t AND CBS_ASN1_TAG_NUMBER_MASK"
    by (simp add: CBS_ASN1_CONSTRUCTED_def CBS_ASN1_TAG_NUMBER_MASK_def and.assoc)
  then have "tag_number (t AND NOT CBS_ASN1_CONSTRUCTED) = tag_number t"
    by (simp only: asn1_tag_number [symmetric])
  then show ?thesis by (simp add: der_tag_def)
qed

lemma length_der_len_double: "m \<le> 2 * n \<Longrightarrow> length (der_len m) + m \<le> 2 * (length (der_len n) + n)"
  by (simp add: der_len_def len_bytes_def)

lemma length_der_elem_double:
  "length c \<le> 2 * length b \<Longrightarrow> length (der_tag t') = length (der_tag t) \<Longrightarrow> length (der_elem t' c) \<le> 2 * length (der_elem t b)"
  using length_der_len_double [of "length c" "length b"] by (simp add: der_elem_def der_header_def)

lemma length_der_elem_indefinite:
  "length c \<le> 2 * length b \<Longrightarrow> length (der_tag t') = length (der_tag t) \<Longrightarrow>
    length (der_elem t' c) \<le> 2 * length (der_tag t @ [0x80] @ b @ [0, 0])"
  by (simp add: der_elem_def der_header_def der_len_def len_bytes_def)

lemma length_concat_double:
  "(\<And>t. t \<in> set ts \<Longrightarrow> length (f t) \<le> 2 * length (g t)) \<Longrightarrow>
    length (concat (map f ts)) \<le> 2 * length (concat (map g ts) :: 'b list)"
proof (induction ts)
  case (Cons t ts)
  have "length (f t) \<le> 2 * length (g t)" by (rule Cons.prems) simp
  moreover have "length (concat (map f ts)) \<le> 2 * length (concat (map g ts))" by (rule Cons.IH, rule Cons.prems) simp
  ultimately show ?case by simp
qed simp

lemma length_string_octets: "length (string_octets t) \<le> 2 * length (ber_bytes t)"
proof (induction t rule: ber_bytes.induct)
  case (2 t ts)
  then show ?case using length_concat_double [of ts string_octets ber_bytes] by (simp add: length_der_elem)
next
  case (3 t ts)
  then show ?case using length_concat_double [of ts string_octets ber_bytes] by simp
qed (simp add: length_der_elem)

lemma length_der_of: "length (der_of t) \<le> 2 * length (ber_bytes t)"
proof (induction t rule: ber_bytes.induct)
  case (2 t ts)
  then show ?case
    using length_concat_double [of ts der_of ber_bytes] length_concat_double [of ts string_octets ber_bytes]
    by (auto simp: length_string_octets length_der_tag_primitive intro!: length_der_elem_double)
next
  case (3 t ts)
  then show ?case
    using length_concat_double [of ts der_of ber_bytes] length_concat_double [of ts string_octets ber_bytes]
      length_der_elem_indefinite [of _ "forest_bytes ts"]
    by (auto simp: length_string_octets length_der_tag_primitive)
qed (simp add: length_der_elem)

lemma length_converted: "length (converted st ts) \<le> 2 * length (forest_bytes ts)"
  unfolding converted_def by (rule length_concat_double) (simp add: converted_elem_def length_der_of length_string_octets)

section \<open>The conversion of a document\<close>

text \<open>What follows a document: the end of contents and the rest of the window, or nothing.\<close>

definition document_tail :: "bool \<Rightarrow> bytes \<Rightarrow> bytes" where
  "document_tail eoc rest = (if eoc then 0 # 0 # rest else [])"

definition converts :: "alloc \<Rightarrow> u32 \<Rightarrow> bool \<Rightarrow> nat \<Rightarrow> cbs \<Rightarrow> bytes \<Rightarrow> cbs \<Rightarrow> bool" where
  "converts am st eoc d inp c rest \<longleftrightarrow> emits am (writes (cbs_convert_ber am st eoc d inp)) c \<and>
     (\<forall>cbb. snd (cbs_convert_ber am st eoc d inp cbb) \<longrightarrow> fst (fst (cbs_convert_ber am st eoc d inp cbb)) = rest)"

lemma emits_nothing: "emits am (\<lambda>cbb. (cbb, True)) []"
  by (rule emitsI) (auto simp: written_def wf_def later_def)

lemma converts_Nil:
  assumes "d \<le> kMaxDepth" "\<not> eoc \<longrightarrow> rest = []"
  shows "converts am st eoc d (document_tail eoc rest) [] rest"
proof -
  have "cbs_convert_ber am st eoc d (document_tail eoc rest) cbb = ((rest, cbb), True)" for cbb
  proof (cases eoc)
    case True
    have "der_elem 0 [] = [0, 0]" by (simp add: der_elem_def der_header_def der_tag_def der_len_def tag_class_def tag_number_def)
    then have "CBS_get_any_ber_asn1_element (0 # 0 # rest) = (Some (der_elem 0 [], 0, length (der_header 0 0)), rest)"
      using read_element [of "[]" 0 rest] by simp
    then show ?thesis using assms True is_eoc_element [of "[]" 0]
      by (simp add: cbs_convert_ber.simps [of am st _ d "0 # 0 # rest"] document_tail_def)
  qed (use assms in \<open>simp add: cbs_convert_ber.simps [of am st _ d "[]"] document_tail_def\<close>)
  moreover from this have "writes (cbs_convert_ber am st eoc d (document_tail eoc rest)) = (\<lambda>cbb. (cbb, True))"
    by (intro ext) (simp add: writes_def)
  ultimately show ?thesis by (simp add: converts_def emits_nothing)
qed

lemma converts_round:
  assumes d: "d \<le> kMaxDepth"
    and r: "CBS_get_any_ber_asn1_element inp = (Some (contents, t, header_len), w)" "inp \<noteq> []"
    and e: "\<not> is_eoc header_len contents"
    and st: "st \<noteq> 0 \<longrightarrow> t AND NOT CBS_ASN1_CONSTRUCTED = st"
    and fill: "emits am (writes (fill_contents am (child_string_tag st t) d contents t header_len w)) c"
      "\<And>cbb. snd (fill_contents am (child_string_tag st t) d contents t header_len w cbb) \<Longrightarrow>
        fst (fst (fill_contents am (child_string_tag st t) d contents t header_len w cbb)) = w'"
    and c: "length c \<le> 0xfffffffe"
    and rest: "converts am st eoc d w' c' rest"
  shows "converts am st eoc d inp (item_bytes st t c @ c') rest"
proof -
  let ?item = "convert_item am st t (writes (fill_contents am (child_string_tag st t) d contents t header_len w))"
  note R = convert_round_writes [OF _ r(2,1) e st fill(2), of eoc]
  have item: "emits am ?item (item_bytes st t c)"
    unfolding convert_item_def item_bytes_def
    using emits_then_do [OF fill(1) emits_flush] emits_asn1 [OF fill(1) c] by (cases "st = 0") simp_all
  have "writes (cbs_convert_ber am st eoc d inp) = then_do ?item (writes (cbs_convert_ber am st eoc d w'))"
    using R d by (intro ext) simp
  then have "emits am (writes (cbs_convert_ber am st eoc d inp)) (item_bytes st t c @ c')"
    using emits_then_do [OF item, of "writes (cbs_convert_ber am st eoc d w')" c'] rest by (simp add: converts_def)
  moreover have "fst (fst (cbs_convert_ber am st eoc d inp cbb)) = rest" if "snd (cbs_convert_ber am st eoc d inp cbb)" for cbb
    using R [of cbb] d rest that unfolding converts_def by (metis not_le)
  ultimately show ?thesis by (simp add: converts_def)
qed

text \<open>The contents of each kind of element.\<close>

lemma fill_primitive:
  assumes "t AND CBS_ASN1_CONSTRUCTED = 0" "length c < 2 ^ 32"
  shows "fill_contents am cst d (der_elem t c) t (length (der_header t (length c))) w cbb =
    (case CBB_add_bytes am c cbb of (cbb, ok) \<Rightarrow> ((w, cbb), ok))"
  using assms by (simp add: fill_contents_def is_indefinite_element)

lemma fill_definite:
  assumes "t AND CBS_ASN1_CONSTRUCTED \<noteq> 0" "length c < 2 ^ 32"
  shows "fill_contents am cst d (der_elem t c) t (length (der_header t (length c))) w cbb =
    (case cbs_convert_ber am cst False (d + 1) c cbb of ((_, cbb), ok) \<Rightarrow> ((w, cbb), ok))"
  using assms by (simp add: fill_contents_def is_indefinite_element)

lemma fill_indefinite:
  "fill_contents am cst d (der_tag t @ [0x80]) t (length (der_tag t @ [0x80])) w cbb = cbs_convert_ber am cst True (d + 1) w cbb"
  using is_indefinite_header [of t] by (simp add: fill_contents_def)

lemma converts_primitive:
  assumes ok: "ber_ok st d (Primitive t c)" and d: "d \<le> kMaxDepth" and c: "length c \<le> 0xfffffffe"
    and rest: "converts am st eoc d w c' rest"
  shows "converts am st eoc d (ber_bytes (Primitive t c) @ w)
    (converted_elem st (Primitive t c) @ c') rest"
proof -
  have t: "t AND CBS_ASN1_CONSTRUCTED = 0" "length c < 2 ^ 32" "\<not> (t = 0 \<and> c = [])"
      "st \<noteq> 0 \<longrightarrow> t AND NOT CBS_ASN1_CONSTRUCTED = st"
    using ok by simp_all
  have f: "writes (fill_contents am cst d (der_elem t c) t (length (der_header t (length c))) w) = CBB_add_bytes am c" for cst
    by (rule ext) (use t in \<open>simp add: writes_def fill_primitive split: prod.split\<close>)
  show ?thesis
    using converts_round [OF d read_element [OF t(2)] _ _ t(4) _ _ c rest, of w] t
    by (simp add: is_eoc_element f emits_add_bytes fill_primitive converted_elem_primitive split_def)
qed

lemma converts_constructed:
  assumes ok: "ber_ok st d (Constructed t indef us)" and d: "d \<le> kMaxDepth" and l: "length (forest_bytes us) < 2 ^ 31"
    and child: "\<And>eoc rest. \<not> eoc \<longrightarrow> rest = [] \<Longrightarrow> converts am (child_string_tag st t) eoc (d + 1)
        (forest_bytes us @ document_tail eoc rest) (converted (child_string_tag st t) us) rest"
    and rest: "converts am st eoc d w c' rest"
  shows "converts am st eoc d (ber_bytes (Constructed t indef us) @ w)
    (converted_elem st (Constructed t indef us) @ c') rest"
proof -
  let ?cst = "child_string_tag st t" and ?b = "forest_bytes us"
  have t: "t AND CBS_ASN1_CONSTRUCTED \<noteq> 0" "length ?b < 2 ^ 32" "t \<noteq> 0"
      "st \<noteq> 0 \<longrightarrow> t AND NOT CBS_ASN1_CONSTRUCTED = st"
    using ok l by auto
  have c: "length (converted ?cst us) \<le> 0xfffffffe" using length_converted [of ?cst us] l by simp
  have "converts am st eoc d (ber_bytes (Constructed t indef us) @ w)
      (item_bytes st t (converted ?cst us) @ c') rest"
  proof (cases indef)
    case False
    have ch: "converts am ?cst False (d + 1) ?b (converted ?cst us) []"
      using child [of False "[]"] by (simp add: document_tail_def)
    have f: "writes (fill_contents am ?cst d (der_elem t ?b) t (length (der_header t (length ?b))) w) =
        writes (cbs_convert_ber am ?cst False (d + 1) ?b)"
      by (rule ext) (use t in \<open>simp add: writes_def fill_definite split: prod.split\<close>)
    show ?thesis
      using converts_round [OF d read_element [OF t(2)] _ _ t(4) _ _ c rest, of w] t ch False
      by (simp add: is_eoc_element f fill_definite converts_def split_def)
  next
    case True
    have ch: "converts am ?cst True (d + 1) (?b @ 0 # 0 # w) (converted ?cst us) w"
      using child [of True w] by (simp add: document_tail_def)
    have f: "writes (fill_contents am ?cst d (der_tag t @ [0x80]) t (length (der_tag t @ [0x80])) (?b @ 0 # 0 # w)) =
        writes (cbs_convert_ber am ?cst True (d + 1) (?b @ 0 # 0 # w))"
      by (rule ext) (simp only: writes_def fill_indefinite)
    show ?thesis
      using converts_round [OF d read_indefinite [OF t(1)] _ is_eoc_indefinite t(4) _ _ c rest, of "?b @ 0 # 0 # w"] ch True
      unfolding f fill_indefinite by (simp add: converts_def del: split_paired_All)
  qed
  then show ?thesis by (simp only: converted_elem_constructed [OF t(1)])
qed

lemma converts_document:
  "list_all (ber_ok st d) ts \<Longrightarrow> d \<le> kMaxDepth \<Longrightarrow> length (forest_bytes ts) < 2 ^ 31 \<Longrightarrow> \<not> eoc \<longrightarrow> rest = [] \<Longrightarrow>
    converts am st eoc d (forest_bytes ts @ document_tail eoc rest) (converted st ts) rest"
proof (induction "size_list size ts" arbitrary: ts st d eoc rest rule: less_induct)
  case less
  show ?case
  proof (cases ts)
    case Nil
    then show ?thesis using converts_Nil less.prems by simp
  next
    case (Cons t ts1)
    let ?w = "forest_bytes ts1 @ document_tail eoc rest"
    have rest: "converts am st eoc d ?w (converted st ts1) rest"
      using less.hyps [of ts1 st d eoc rest] less.prems Cons by simp
    have "converts am st eoc d (ber_bytes t @ ?w) (converted_elem st t @ converted st ts1) rest"
    proof (cases t)
      case (Primitive tg c)
      show ?thesis unfolding Primitive
        by (rule converts_primitive [OF _ less.prems(2) _ rest])
          (use less.prems Cons Primitive in \<open>simp_all add: length_der_elem\<close>)
    next
      case (Constructed tg indef us)
      have l: "length (forest_bytes us) < 2 ^ 31"
        using less.prems(3) Cons Constructed by (cases indef) (simp_all add: length_der_elem)
      have "converts am (child_string_tag st tg) eoc' (d + 1) (forest_bytes us @ document_tail eoc' rest')
          (converted (child_string_tag st tg) us) rest'" if "\<not> eoc' \<longrightarrow> rest' = []" for eoc' rest'
        using less.hyps [of us "child_string_tag st tg" "d + 1" eoc' rest'] less.prems Cons Constructed l that by simp
      from converts_constructed [OF _ less.prems(2) l this rest, of indef]
      show ?thesis using less.prems Cons Constructed by simp
    qed
    then show ?thesis using Cons by simp
  qed
qed

text \<open>The other direction: what a successful conversion has read is a document.\<close>

lemma convert_ok_round:
  assumes run: "cbs_convert_ber am st eoc d inp cbb = ((rest, cbb'), True)" and ne: "inp \<noteq> []"
  obtains (last) contents t header_len where "CBS_get_any_ber_asn1_element inp = (Some (contents, t, header_len), rest)"
      "is_eoc header_len contents" "eoc" "d \<le> kMaxDepth"
  | (more) contents t header_len w c0 w2 c cbb2 where
      "CBS_get_any_ber_asn1_element inp = (Some (contents, t, header_len), w)"
      "\<not> is_eoc header_len contents" "st \<noteq> 0 \<longrightarrow> t AND NOT CBS_ASN1_CONSTRUCTED = st"
      "fill_contents am (child_string_tag st t) d contents t header_len w c0 = ((w2, c), True)"
      "cbs_convert_ber am st eoc d w2 cbb2 = ((rest, cbb'), True)" "d \<le> kMaxDepth"
proof -
  have d: "\<not> d > kMaxDepth" using run by (auto simp: cbs_convert_ber.simps [of am st eoc d inp])
  obtain e w where r: "CBS_get_any_ber_asn1_element inp = (e, w)" by fastforce
  have "e \<noteq> None" using run d ne r by (cases e) (simp_all add: cbs_convert_ber.simps [of am st eoc d inp])
  then obtain contents t header_len where e: "e = Some (contents, t, header_len)" by auto
  note r = r [unfolded e]
  show thesis
  proof (cases "is_eoc header_len contents")
    case True
    then have "rest = w \<and> eoc" using run d ne r by (auto simp: cbs_convert_ber.simps [of am st eoc d inp])
    then show thesis using last r True d by auto
  next
    case False
    obtain cbb1 ok1 where o: "open_contents am st t cbb = (cbb1, ok1)" by fastforce
    then have "ok1" using convert_round_open [OF d ne r False, of am st cbb cbb1 eoc] run by (cases ok1) auto
    then have o: "open_contents am st t cbb = (cbb1, True)" using o by simp
    have st: "st \<noteq> 0 \<longrightarrow> t AND NOT CBS_ASN1_CONSTRUCTED = st" using o by (auto simp: open_contents_def split: if_splits)
    obtain w2 c ok2 where f: "fill_contents am (child_string_tag st t) d contents t header_len w (out_contents st cbb1) = ((w2, c), ok2)"
      by (metis surj_pair)
    obtain cbb3 ok3 where u: "CBB_flush am (from_contents st cbb1 c) = (cbb3, ok3)" by fastforce
    have "ok2 \<and> ok3 \<and> cbs_convert_ber am st eoc d w2 cbb3 = ((rest, cbb'), True)"
      using run unfolding convert_round [OF cbs_convert_ber_total [THEN spec] d ne r False o] f prod.case u
      by (cases ok2; cases ok3) simp_all
    then show thesis using more [OF r False st, of "out_contents st cbb1" w2 c cbb3] f d by simp
  qed
qed

lemma ber_bytes_nonempty [simp]: "ber_bytes t \<noteq> []"
  by (cases t rule: ber_bytes.cases) simp_all

lemma fill_reads_element:
  assumes r: "CBS_get_any_ber_asn1_element inp = (Some (contents, t, header_len), w)"
    and ne: "\<not> is_eoc header_len contents"
    and st: "st \<noteq> 0 \<longrightarrow> t AND NOT CBS_ASN1_CONSTRUCTED = st"
    and fill: "fill_contents am (child_string_tag st t) d contents t header_len w c0 = ((w2, c), True)"
    and IH: "\<And>inp' cst eoc' c rest' c'. length inp' < length inp \<Longrightarrow>
        cbs_convert_ber am cst eoc' (d + 1) inp' c = ((rest', c'), True) \<Longrightarrow>
        d + 1 \<le> kMaxDepth \<and> (\<not> eoc' \<longrightarrow> rest' = []) \<and>
        (\<exists>ts. list_all (ber_ok cst (d + 1)) ts \<and> inp' = forest_bytes ts @ document_tail eoc' rest')"
  shows "\<exists>e. ber_ok st d e \<and> inp = ber_bytes e @ w2"
  using r
proof (cases rule: read_cases)
  case (1 b)
  note fill = fill [unfolded 1(2,3)]
  show ?thesis
  proof (cases "t AND CBS_ASN1_CONSTRUCTED = 0")
    case True
    then have "w2 = w" using fill fill_primitive [OF True 1(1)] by (auto split: prod.splits)
    moreover have "\<not> (t = 0 \<and> b = [])" using ne 1(1-3) is_eoc_element by simp
    ultimately show ?thesis using True 1 st by (intro exI [of _ "Primitive t b"]) simp
  next
    case False
    obtain x c1 ok1 where cv: "cbs_convert_ber am (child_string_tag st t) False (d + 1) b c0 = ((x, c1), ok1)"
      by (metis surj_pair)
    then have "w2 = w" ok1 using fill fill_definite [OF False 1(1), of am "child_string_tag st t" d w c0] by simp_all
    moreover have "length b < length inp" using 1(4) by (simp add: length_der_elem der_header_def)
    ultimately obtain us where "list_all (ber_ok (child_string_tag st t) (d + 1)) us" "b = forest_bytes us" "d + 1 \<le> kMaxDepth"
      using IH [of b "child_string_tag st t" False c0 x c1] cv by (auto simp: document_tail_def)
    then show ?thesis using \<open>w2 = w\<close> False 1 st by (intro exI [of _ "Constructed t False us"]) simp
  qed
next
  case 2
  have "cbs_convert_ber am (child_string_tag st t) True (d + 1) w c0 = ((w2, c), True)"
    using fill unfolding 2(2,3) by (simp only: fill_indefinite)
  moreover have "length w < length inp" using 2(4) by simp
  ultimately obtain us where "list_all (ber_ok (child_string_tag st t) (d + 1)) us" "w = forest_bytes us @ 0 # 0 # w2"
      "d + 1 \<le> kMaxDepth"
    using IH by (fastforce simp: document_tail_def)
  then show ?thesis using 2 st by (intro exI [of _ "Constructed t True us"]) simp
qed

lemma convert_reads_document:
  "cbs_convert_ber am st eoc d inp cbb = ((rest, cbb'), True) \<Longrightarrow>
    d \<le> kMaxDepth \<and> (\<not> eoc \<longrightarrow> rest = []) \<and> (\<exists>ts. list_all (ber_ok st d) ts \<and> inp = forest_bytes ts @ document_tail eoc rest)"
proof (induction "length inp" arbitrary: st eoc d inp cbb rest cbb' rule: less_induct)
  case less
  show ?case
  proof (cases "inp = []")
    case True
    then show ?thesis using less.prems
      by (auto simp: cbs_convert_ber.simps [of am st _ d "[]"] document_tail_def split: if_splits intro: exI [of _ "[]"])
  next
    case ne: False
    show ?thesis
    proof (cases rule: convert_ok_round [OF less.prems ne])
      case (1 contents t header_len)
      from 1(1) obtain c where c: "length c < 2 ^ 32" "contents = der_elem t c" "header_len = length (der_header t (length c))"
          "inp = der_elem t c @ rest"
        using 1(2) is_eoc_indefinite by (cases rule: read_cases) auto
      then have "inp = 0 # 0 # rest" using 1(2) by (simp add: is_eoc_def)
      then show ?thesis using 1 by (auto simp: document_tail_def intro: exI [of _ "[]"])
    next
      case (2 contents t header_len w c0 w2 c cbb2)
      have "\<exists>e. ber_ok st d e \<and> inp = ber_bytes e @ w2"
        by (rule fill_reads_element [OF 2(1-4)]) (rule less.hyps)
      then obtain e where e: "ber_ok st d e" "inp = ber_bytes e @ w2" by blast
      then have "length w2 < length inp" using ber_bytes_nonempty [of e] by simp
      from less.hyps [OF this 2(5)] obtain ts where "list_all (ber_ok st d) ts" "w2 = forest_bytes ts @ document_tail eoc rest"
          "\<not> eoc \<longrightarrow> rest = []" by blast
      then show ?thesis using e 2(6) by (intro conjI exI [of _ "e # ts"]) simp_all
    qed
  qed
qed

section \<open>The walk\<close>

text \<open>What the walk reports: an element that is BER ends it, and else the flag is that of the last constructed
  element; what was found in the earlier ones is lost.\<close>

fun walk_finds :: "bool \<Rightarrow> ber list \<Rightarrow> bool" where
  "walk_finds found [] = found"
| "walk_finds found (Primitive t c # ts) = walk_finds found ts"
| "walk_finds found (Constructed t indef us # ts) =
    (indef \<or> is_string_type t \<or> walk_finds (walk_finds False us) ts)"

text \<open>What it is meant to report.\<close>

fun has_ber :: "ber \<Rightarrow> bool" where
  "has_ber (Primitive t c) = False"
| "has_ber (Constructed t indef us) = (indef \<or> is_string_type t \<or> list_ex has_ber us)"

lemma walk_finds_has_ber: "walk_finds found ts \<Longrightarrow> found \<or> list_ex has_ber ts"
  by (induction found ts rule: walk_finds.induct) auto

text \<open>It is right when no element has two constructed children.\<close>

definition is_constructed :: "ber \<Rightarrow> bool" where
  "is_constructed t = (case t of Primitive _ _ \<Rightarrow> False | Constructed _ _ _ \<Rightarrow> True)"

lemma is_constructed_simps [simp]: "\<not> is_constructed (Primitive t c)" "is_constructed (Constructed t indef us)"
  by (simp_all add: is_constructed_def)

fun single_chain :: "ber list \<Rightarrow> bool" where
  "single_chain [] = True"
| "single_chain (Primitive t c # ts) = single_chain ts"
| "single_chain (Constructed t indef us # ts) = (\<not> list_ex is_constructed ts \<and> single_chain us)"

lemma walk_finds_primitives: "\<not> list_ex is_constructed ts \<Longrightarrow> walk_finds found ts = found \<and> \<not> list_ex has_ber ts"
  by (induction found ts rule: walk_finds.induct) auto

lemma walk_finds_single_chain: "single_chain ts \<Longrightarrow> walk_finds found ts = 
    (if list_ex is_constructed ts then list_ex has_ber ts else found)"
  using walk_finds_primitives
  by (induction found ts rule: walk_finds.induct) auto

lemma to_der_no_ber: "\<not> has_ber (to_der t)"
  by (induction t rule: to_der.induct) (auto simp: list_ex_iff)

lemma find_ber_primitive:
  assumes "t AND CBS_ASN1_CONSTRUCTED = 0" "length c < 2 ^ 32"
  shows "find_ber_loop d found (ber_bytes (Primitive t c) @ w) = find_ber_loop d found w"
  using assms by (subst find_ber_loop.simps) (simp add: is_indefinite_element)

lemma find_ber_definite:
  assumes "t AND CBS_ASN1_CONSTRUCTED \<noteq> 0" "length (forest_bytes us) < 2 ^ 32"
  shows "find_ber_loop d found (ber_bytes (Constructed t False us) @ w) = (if is_string_type t then Some True
    else (case cbs_find_ber (d + 1) (forest_bytes us) of None \<Rightarrow> None | Some found \<Rightarrow> find_ber_loop d found w))"
  using assms by (subst find_ber_loop.simps) (simp add: is_indefinite_element)

lemma find_ber_indefinite:
  assumes "t AND CBS_ASN1_CONSTRUCTED \<noteq> 0"
  shows "find_ber_loop d found (ber_bytes (Constructed t True us) @ w) = Some True"
  using assms is_indefinite_header [of t] by (subst find_ber_loop.simps) (simp add: read_indefinite)

lemma find_ber_walks:
  "list_all (ber_ok st d) ts \<Longrightarrow> d \<le> kMaxDepth \<Longrightarrow> find_ber_loop d found (forest_bytes ts) = Some (walk_finds found ts)"
proof (induction found ts arbitrary: st d rule: walk_finds.induct)
  case (1 found)
  then show ?case by (simp add: find_ber_loop.simps)
next
  case (2 found t c ts)
  then show ?case using find_ber_primitive [of t c d found "forest_bytes ts"] "2.IH" [of st d] by simp
next
  case (3 found t indef us ts)
  show ?case
  proof (cases indef)
    case True
    then show ?thesis using 3 find_ber_indefinite [of t d found us "forest_bytes ts"] by simp
  next
    case False
    then show ?thesis using 3 find_ber_definite [of t us d found "forest_bytes ts"]
      by (auto simp: cbs_find_ber.simps)
  qed
qed

section \<open>The properties of the conversion\<close>

lemma CBB_init_succeeds:
  assumes "\<And>m. am m \<noteq> None"
  shows "snd (CBB_init am n)"
proof -
  have m: "OPENSSL_malloc am k \<noteq> None" for k using OPENSSL_malloc_succeeds [of am k] assms by blast
  show ?thesis using m [of n] m [of 32] m [of 0] by (auto simp: CBB_init_def cbb_init_def split: option.splits)
qed

lemma ber_to_der_run:
  assumes "list_all (ber_ok 0 0) ts" "length (forest_bytes ts) < 2 ^ 31"
    and "CBB_init am n = ((Some b, []), True)" "wf b []" "len b = 0"
  shows "cbs_convert_ber am 0 False 0 (forest_bytes ts) (Some b, []) = ((rest, s), True) \<Longrightarrow>
      CBB_finish am s = (s', Some r) \<Longrightarrow> r = forest_bytes (map to_der ts) \<and> rest = []"
    and "can_resize b \<Longrightarrow> (\<And>m. am m \<noteq> None) \<Longrightarrow>
      \<exists>s s'. cbs_convert_ber am 0 False 0 (forest_bytes ts) (Some b, []) = (([], s), True) \<and>
        CBB_finish am s = (s', Some (forest_bytes (map to_der ts)))"
proof -
  have c: "converted 0 ts = forest_bytes (map to_der ts)"
    by (simp add: converted_def converted_elem_def [abs_def] der_of_to_der comp_def)
  let ?f = "cbs_convert_ber am 0 False 0 (forest_bytes ts)"
  have cv: "emits am (writes ?f) (forest_bytes (map to_der ts))" "\<And>cbb. snd (?f cbb) \<Longrightarrow> fst (fst (?f cbb)) = []"
    using converts_document [of 0 0 ts False "[]" am] assms(1,2) by (simp_all add: document_tail_def converts_def c del: split_paired_All)
  have l: "length (forest_bytes (map to_der ts)) \<le> 2 ^ 61"
    using length_converted [of 0 ts] assms(2) by (simp add: c)
  note W = written_fresh [OF cv(1) assms(4,5) l]
  show "r = forest_bytes (map to_der ts) \<and> rest = []"
    if "?f (Some b, []) = ((rest, s), True)" "CBB_finish am s = (s', Some r)"
    using W(1) [of s s' r] writes_eq [of ?f, OF that(1)] that cv(2) [of "(Some b, [])"] by simp
  show "\<exists>s s'. ?f (Some b, []) = (([], s), True) \<and> CBB_finish am s = (s', Some (forest_bytes (map to_der ts)))"
    if grow: "can_resize b" "\<And>m. am m \<noteq> None"
  proof -
    obtain s s' where s: "writes ?f (Some b, []) = (s, True)" "CBB_finish am s = (s', Some (forest_bytes (map to_der ts)))"
      using W(2) [OF grow] by blast
    obtain w s1 ok where r: "?f (Some b, []) = ((w, s1), ok)" by (metis surj_pair)
    then show ?thesis using s cv(2) [of "(Some b, [])"] by (simp add: writes_def)
  qed
qed

lemma ber_to_der_converted:
  assumes "list_all (ber_ok 0 0) ts" "length (forest_bytes ts) < 2 ^ 31" "walk_finds False ts" "\<And>m. am m \<noteq> None"
  shows "CBS_asn1_ber_to_der am (forest_bytes ts) =
    (Some (forest_bytes (map to_der ts), Some (forest_bytes (map to_der ts))), [])"
proof -
  have n: "length (forest_bytes ts) \<le> 2 ^ 62" using assms(2) by simp
  have "snd (CBB_init am (length (forest_bytes ts)))"
    by (rule CBB_init_succeeds) (rule assms(4))
  then obtain s0 where s0: "CBB_init am (length (forest_bytes ts)) = (s0, True)"
    by (cases "CBB_init am (length (forest_bytes ts))") auto
  obtain b where b: "s0 = (Some b, [])" "wf b []" "len b = 0" "can_resize b" by (rule CBB_init_fresh [OF s0 n])
  obtain s s' where s: "cbs_convert_ber am 0 False 0 (forest_bytes ts) (Some b, []) = (([], s), True)"
      "CBB_finish am s = (s', Some (forest_bytes (map to_der ts)))"
    using ber_to_der_run(2) [OF assms(1,2) s0 [unfolded b(1)] b(2-4) assms(4)] by blast
  have "cbs_find_ber 0 (forest_bytes ts) = Some True"
    using find_ber_walks [OF assms(1), of False] assms(3) by (simp add: cbs_find_ber.simps)
  then show ?thesis using s s0 b(1) by (simp add: CBS_asn1_ber_to_der_def)
qed

lemma ber_to_der_verbatim:
  assumes "list_all (ber_ok 0 0) (t # ts)" "\<not> walk_finds False (t # ts)"
  shows "CBS_asn1_ber_to_der am (forest_bytes (t # ts)) = (Some (ber_bytes t, None), forest_bytes ts)"
proof -
  have w: "cbs_find_ber 0 (forest_bytes (t # ts)) = Some False"
    using find_ber_walks [OF assms(1), of False] assms(2) by (simp add: cbs_find_ber.simps)
  obtain tg c where c: "ber_bytes t = der_elem tg c" "length c < 2 ^ 32"
    using assms by (cases t rule: ber_bytes.cases) auto
  have "CBS_get_any_asn1_element (ber_bytes t @ forest_bytes ts) =
      (Some (ber_bytes t, tg, length (der_header tg (length c))), forest_bytes ts)"
    using c by (auto simp: CBS_get_any_asn1_element_iff)
  then show ?thesis using w by (simp add: CBS_asn1_ber_to_der_def)
qed

lemma ber_to_der_storage:
  assumes "CBS_asn1_ber_to_der am inp = (Some (out_cbs, Some storage), rest)" "length inp < 2 ^ 31"
  shows "rest = [] \<and> out_cbs = storage \<and> (\<exists>ts. list_all (ber_ok 0 0) ts \<and> inp = forest_bytes ts \<and>
      list_ex has_ber ts \<and> storage = forest_bytes (map to_der ts))"
proof -
  obtain f where f: "cbs_find_ber 0 inp = Some f" using assms(1) by (auto simp: CBS_asn1_ber_to_der_def split: option.splits)
  then have "f" using assms(1) by (cases f) (auto simp: CBS_asn1_ber_to_der_def and_then_eq_Some)
  then obtain s0 where s0: "CBB_init am (length inp) = (s0, True)"
    using assms(1) f by (auto simp: CBS_asn1_ber_to_der_def split: prod.splits bool.splits)
  obtain b where b: "s0 = (Some b, [])" "wf b []" "len b = 0" "can_resize b"
    using assms(2) by (elim CBB_init_fresh [OF s0, rotated]) simp
  obtain s where s: "cbs_convert_ber am 0 False 0 inp s0 = ((rest, s), True)" "CBB_finish am s = (fst (CBB_finish am s), Some storage)"
      "out_cbs = storage"
    using assms(1) f \<open>f\<close> s0 by (auto simp: CBS_asn1_ber_to_der_def split: prod.splits bool.splits option.splits)
  obtain ts where ts: "list_all (ber_ok 0 0) ts" "inp = forest_bytes ts"
    using convert_reads_document [OF s(1)] by (auto simp: document_tail_def)
  have "walk_finds False ts"
    using find_ber_walks [OF ts(1), of False] f \<open>f\<close> ts(2) by (simp add: cbs_find_ber.simps)
  then have "list_ex has_ber ts" using walk_finds_has_ber by blast
  moreover have "storage = forest_bytes (map to_der ts) \<and> rest = []"
    using ber_to_der_run(1) [OF ts(1) _ s0 [unfolded b(1)] b(2,3) _ s(2)] s(1) ts(2) assms(2) b(1) by simp
  ultimately show ?thesis using ts s(3) by blast
qed

text \<open>C23: \<open>CBS_asn1_ber_to_der\<close> on a document. If the walk finds BER, the whole window is converted: with an
  allocator that delivers the result is the DER of all the elements of the window. Otherwise the result is the first
  element as it is, without storage. Conversely, whenever the function returns storage, the window was a
  well-formed document with BER in it, and the storage holds its DER, in which no BER is left.\<close>

theorem ber_to_der_converts:
  assumes "length inp < 2 ^ 31"
  shows "(list_all (ber_ok 0 0) ts \<and> inp = forest_bytes ts \<and> walk_finds False ts \<and> (\<forall>m. am m \<noteq> None) \<longrightarrow>
      CBS_asn1_ber_to_der am inp = (Some (forest_bytes (map to_der ts), Some (forest_bytes (map to_der ts))), [])) \<and>
    (list_all (ber_ok 0 0) (t # ts) \<and> inp = forest_bytes (t # ts) \<and> \<not> walk_finds False (t # ts) \<longrightarrow>
      CBS_asn1_ber_to_der am inp = (Some (ber_bytes t, None), forest_bytes ts)) \<and>
    (CBS_asn1_ber_to_der am inp = (Some (out_cbs, Some storage), rest) \<longrightarrow>
      rest = [] \<and> out_cbs = storage \<and> (\<exists>ts. list_all (ber_ok 0 0) ts \<and> inp = forest_bytes ts \<and>
        list_ex has_ber ts \<and> storage = forest_bytes (map to_der ts) \<and> \<not> list_ex has_ber (map to_der ts)))"
  using ber_to_der_converted [of ts am] ber_to_der_verbatim [of t ts am] ber_to_der_storage [of am inp out_cbs storage rest] assms
    to_der_no_ber
  by (auto simp: list_ex_iff simp del: walk_finds.simps)

theorem ber_to_der_converts_witness:
  "CBS_asn1_ber_to_der ample [0x24, 0x80, 4, 1, 0xaa, 4, 1, 0xbb, 0, 0] = (Some ([4, 2, 0xaa, 0xbb], Some [4, 2, 0xaa, 0xbb]), [])"
proof -
  let ?ts = "[Constructed 0x20000004 True [Primitive 4 [0xaa], Primitive 4 [0xbb]]]"
  have ok: "list_all (ber_ok 0 0) ?ts"
    by (simp add: child_string_tag_def is_string_type_def CBS_ASN1_CONSTRUCTED_def kMaxDepth_def)
  have b: "[0x24, 0x80, 4, 1, 0xaa, 4, 1, 0xbb, 0, 0] = forest_bytes ?ts"
    by (simp add: der_elem_def der_header_def der_tag_def der_len_def tag_class_def tag_number_def)
  have d: "forest_bytes (map to_der ?ts) = [4, 2, 0xaa, 0xbb]"
    by (simp add: is_string_type_def CBS_ASN1_CONSTRUCTED_def
        der_elem_def der_header_def der_tag_def der_len_def tag_class_def tag_number_def)
  have l: "length [0x24 :: u8, 0x80, 4, 1, 0xaa, 4, 1, 0xbb, 0, 0] < 2 ^ 31" by simp
  have "CBS_asn1_ber_to_der ample [0x24, 0x80, 4, 1, 0xaa, 4, 1, 0xbb, 0, 0] =
      (Some (forest_bytes (map to_der ?ts), Some (forest_bytes (map to_der ?ts))), [])"
    by (rule conjunct1 [OF ber_to_der_converts [OF l], THEN mp]) (intro conjI allI ok b; simp)
  then show ?thesis by (simp only: d)
qed

text \<open>C24: two documents for which the function does not do what internal.h says. In the first, a SEQUENCE holds
  a SEQUENCE with a constructed OCTET STRING and then an empty SEQUENCE: walking the second child resets
  what was found in the first, and the BER is returned as if it were DER, with the constructed string in it.
  In the second, a constructed OCTET STRING is followed by a NULL that does not belong to the element: it is consumed
  too, and comes back at the end of the converted contents.\<close>

theorem ber_to_der_divergences:
  "let child = Constructed 0x20000010 False [Constructed 0x20000004 False [Primitive 4 [0xaa]]];
       t = Constructed 0x20000010 False [child, Constructed 0x20000010 False []];
       bytes1 = [0x30, 9, 0x30, 5, 0x24, 3, 4, 1, 0xaa, 0x30, 0];
       bytes2 = [0x24, 3, 4, 1, 0xaa, 5, 0]
   in ber_ok 0 0 t \<and> ber_bytes t = bytes1 \<and> has_ber t \<and>
      CBS_asn1_ber_to_der am bytes1 = (Some (bytes1, None), []) \<and>
      CBS_asn1_ber_to_der ample bytes2 = (Some ([4, 1, 0xaa, 5, 0], Some [4, 1, 0xaa, 5, 0]), [])"
proof -
  let ?t = "Constructed 0x20000010 False [Constructed 0x20000010 False [Constructed 0x20000004 False [Primitive 4 [0xaa]]],
      Constructed 0x20000010 False []]"
  let ?us = "[Constructed 0x20000004 False [Primitive 4 [0xaa]], Primitive 5 []]"
  note defs = child_string_tag_def is_string_type_def CBS_ASN1_CONSTRUCTED_def kMaxDepth_def
    der_elem_def der_header_def der_tag_def der_len_def tag_class_def tag_number_def
  have ok: "list_all (ber_ok 0 0) [?t]" "list_all (ber_ok 0 0) ?us" by (simp_all add: defs)
  have b: "forest_bytes [?t] = [0x30, 9, 0x30, 5, 0x24, 3, 4, 1, 0xaa, 0x30, 0]" "forest_bytes ?us = [0x24, 3, 4, 1, 0xaa, 5, 0]"
    by (simp_all add: defs)
  have w: "\<not> walk_finds False [?t]" "walk_finds False ?us" by (simp_all add: defs)
  have d: "forest_bytes (map to_der ?us) = [4, 1, 0xaa, 5, 0]" by (simp add: defs)
  have "CBS_asn1_ber_to_der am (forest_bytes [?t]) = (Some (ber_bytes ?t, None), forest_bytes [])"
    by (rule ber_to_der_verbatim [OF ok(1) w(1)])
  moreover have "CBS_asn1_ber_to_der ample (forest_bytes ?us) = (Some (forest_bytes (map to_der ?us), Some (forest_bytes (map to_der ?us))), [])"
    by (rule ber_to_der_converted [OF ok(2) _ w(2)]) (simp only: b, simp_all)
  moreover have "has_ber ?t" by (simp add: defs)
  ultimately show ?thesis using ok(1) b d by (simp add: Let_def)
qed

section \<open>Implicitly tagged strings\<close>

lemma implicit_string_loop_emits:
  "list_all (\<lambda>c. length c < 2 ^ 32) chunks \<Longrightarrow>
    emits am (implicit_string_loop am tag (concat (map (der_elem tag) chunks))) (concat chunks)"
proof (induction chunks)
  case Nil
  have "implicit_string_loop am tag [] = (\<lambda>cbb. (cbb, True))"
    by (rule ext) (simp add: implicit_string_loop.simps)
  then show ?case by (simp add: emits_nothing)
next
  case (Cons c chunks)
  let ?w = "concat (map (der_elem tag) chunks)"
  have "CBS_get_asn1 tag (der_elem tag c @ ?w) = (Some c, ?w)" using Cons.prems by (simp add: CBS_get_asn1_iff)
  then have "implicit_string_loop am tag (der_elem tag c @ ?w) = then_do (CBB_add_bytes am c) (implicit_string_loop am tag ?w)"
    by (intro ext) (simp add: implicit_string_loop.simps [of am tag "der_elem tag c @ ?w"] then_do_def)
  then show ?case using emits_then_do [OF emits_add_bytes [of am c] Cons.IH] Cons.prems by simp
qed

lemma implicit_string_loop_reads:
  "implicit_string_loop am tag child s = (s', True) \<Longrightarrow>
    \<exists>chunks. list_all (\<lambda>c. length c < 2 ^ 32) chunks \<and> child = concat (map (der_elem tag) chunks)"
proof (induction am tag child s rule: implicit_string_loop.induct)
  case (1 am tag child s)
  show ?case
  proof (cases "child = []")
    case False
    obtain e w where r: "CBS_get_asn1 tag child = (e, w)" by fastforce
    then obtain c where c: "e = Some c" using "1.prems" False by (cases e) (auto simp: implicit_string_loop.simps [of am tag child])
    obtain s1 ok where a: "CBB_add_bytes am c s = (s1, ok)" by fastforce
    have "ok \<and> implicit_string_loop am tag w s1 = (s', True)"
      using "1.prems" False r c a by (cases ok) (auto simp: implicit_string_loop.simps [of am tag child])
    then obtain chunks where "list_all (\<lambda>c. length c < 2 ^ 32) chunks" "w = concat (map (der_elem tag) chunks)"
      using "1.IH" [OF _ r [symmetric] c a [symmetric]] False by auto
    then show ?thesis using r c by (intro exI [of _ "c # chunks"]) (simp add: CBS_get_asn1_iff)
  qed (auto intro: exI [of _ "[]"])
qed

lemma peek_element [simp]: "CBS_peek_asn1_tag t (der_elem t' c @ rest) \<longleftrightarrow> t = t'"
  using asn1_tag.enc_unique [of t' _ t] by (auto simp: CBS_peek_asn1_tag_iff der_elem_def der_header_def)

lemma constructed_tag_differs: 
  assumes "t AND CBS_ASN1_CONSTRUCTED = 0"
  shows "t \<noteq> t OR CBS_ASN1_CONSTRUCTED"
proof
  assume t: "t = t OR CBS_ASN1_CONSTRUCTED"
  have "(t OR CBS_ASN1_CONSTRUCTED) AND CBS_ASN1_CONSTRUCTED = CBS_ASN1_CONSTRUCTED"
    by (rule bit_word_eqI) (auto simp: bit_simps)
  then have "t AND CBS_ASN1_CONSTRUCTED = CBS_ASN1_CONSTRUCTED" using t by simp
  then show False using assms by (simp add: CBS_ASN1_CONSTRUCTED_def)
qed

lemma fragments_short:
  "list_all (\<lambda>c. length c \<le> length (concat (map (der_elem t) chunks))) chunks \<and>
    length (concat chunks) \<le> length (concat (map (der_elem t) chunks))"
  by (induction chunks) (auto simp: length_der_elem list_all_iff)

lemma implicit_string_primitive:
  "CBS_get_asn1_implicit_string am outer_tag inner_tag inp = (Some (out_cbs, None), rest) \<longleftrightarrow>
    length out_cbs < 2 ^ 32 \<and> inp = der_elem outer_tag out_cbs @ rest"
proof (cases "CBS_peek_asn1_tag outer_tag inp")
  case True
  then show ?thesis by (auto simp: CBS_get_asn1_implicit_string_def and_then_eq_Some CBS_get_asn1_iff)
next
  case False
  then have "inp \<noteq> der_elem outer_tag out_cbs @ rest" by auto
  then show ?thesis using False
    by (auto simp: CBS_get_asn1_implicit_string_def split: prod.splits bool.splits option.splits)
qed

lemma implicit_string_run:
  assumes "length child < 2 ^ 32" "child = concat (map (der_elem tag) chunks)"
    and s0: "CBB_init am n = (s0, True)" "n \<le> 2 ^ 62"
  shows "implicit_string_loop am tag child s0 = (s1, True) \<Longrightarrow> CBB_finish am s1 = (s2, Some r) \<Longrightarrow> r = concat chunks"
    and "(\<And>m. am m \<noteq> None) \<Longrightarrow> \<exists>s1 s2. implicit_string_loop am tag child s0 = (s1, True) \<and> CBB_finish am s1 = (s2, Some (concat chunks))"
proof -
  have c: "list_all (\<lambda>c. length c < 2 ^ 32) chunks" "length (concat chunks) \<le> 2 ^ 61"
    using fragments_short [of tag chunks] assms(1,2) by (auto simp: list_all_iff)
  obtain b where b: "s0 = (Some b, [])" "wf b []" "len b = 0" "can_resize b" by (rule CBB_init_fresh [OF s0])
  note W = written_fresh [OF implicit_string_loop_emits [OF c(1), of am tag] b(2,3) c(2)]
  show "implicit_string_loop am tag child s0 = (s1, True) \<Longrightarrow> CBB_finish am s1 = (s2, Some r) \<Longrightarrow> r = concat chunks"
    using W(1) by (simp add: assms(2) b(1))
  show "\<exists>s1 s2. implicit_string_loop am tag child s0 = (s1, True) \<and> CBB_finish am s1 = (s2, Some (concat chunks))"
    if "\<And>m. am m \<noteq> None"
    using W(2) [OF b(4) that] by (simp add: assms(2) b(1))
qed

lemma implicit_string_storage:
  assumes run: "CBS_get_asn1_implicit_string am outer_tag inner_tag inp = (Some (out_cbs, Some storage), rest)"
    and l: "length inp < 2 ^ 32"
  shows "out_cbs = storage \<and> (\<exists>chunks. storage = concat chunks \<and>
      inp = der_elem (outer_tag OR CBS_ASN1_CONSTRUCTED) (concat (map (der_elem inner_tag) chunks)) @ rest)"
proof -
  have p: "\<not> CBS_peek_asn1_tag outer_tag inp" using run by (auto simp: CBS_get_asn1_implicit_string_def and_then_eq_Some)
  then obtain s0 child s1 s2 where s: "CBB_init am (length inp) = (s0, True)"
      "CBS_get_asn1 (outer_tag OR CBS_ASN1_CONSTRUCTED) inp = (Some child, rest)"
      "implicit_string_loop am inner_tag child s0 = (s1, True)" "CBB_finish am s1 = (s2, Some storage)" "out_cbs = storage"
    using run by (auto simp: CBS_get_asn1_implicit_string_def split: prod.splits bool.splits option.splits)
  obtain chunks where c: "child = concat (map (der_elem inner_tag) chunks)" using implicit_string_loop_reads [OF s(3)] by blast
  have i: "inp = der_elem (outer_tag OR CBS_ASN1_CONSTRUCTED) child @ rest" "length child < 2 ^ 32"
    using s(2) by (simp_all add: CBS_get_asn1_iff)
  have "length inp \<le> 2 ^ 62" using l by simp
  from implicit_string_run(1) [OF i(2) c s(1) this s(3,4)] show ?thesis using s(5) i(1) c by blast
qed

lemma implicit_string_constructed:
  assumes "inp = der_elem (outer_tag OR CBS_ASN1_CONSTRUCTED) (concat (map (der_elem inner_tag) chunks)) @ rest"
    and "outer_tag AND CBS_ASN1_CONSTRUCTED = 0" "length inp < 2 ^ 32" "\<And>m. am m \<noteq> None"
  shows "CBS_get_asn1_implicit_string am outer_tag inner_tag inp = (Some (concat chunks, Some (concat chunks)), rest)"
proof -
  let ?child = "concat (map (der_elem inner_tag) chunks)"
  have l: "length ?child < 2 ^ 32" "length inp \<le> 2 ^ 62" using assms(1,3) by (simp_all add: length_der_elem)
  have p: "\<not> CBS_peek_asn1_tag outer_tag inp" using constructed_tag_differs [OF assms(2)] by (simp add: assms(1))
  have g: "CBS_get_asn1 (outer_tag OR CBS_ASN1_CONSTRUCTED) inp = (Some ?child, rest)"
    using l assms(1) by (simp add: CBS_get_asn1_iff)
  obtain s0 where s0: "CBB_init am (length inp) = (s0, True)"
    using CBB_init_succeeds [of am "length inp", OF assms(4)] by (cases "CBB_init am (length inp)") auto
  obtain s1 s2 where "implicit_string_loop am inner_tag ?child s0 = (s1, True)" "CBB_finish am s1 = (s2, Some (concat chunks))"
    using implicit_string_run(2) [OF l(1) refl s0 l(2) assms(4)] by blast
  then show ?thesis using p g s0 by (simp add: CBS_get_asn1_implicit_string_def)
qed

text \<open>C25: \<open>CBS_get_asn1_implicit_string\<close> reads a string in one piece or in fragments. Without storage it has read the
  element of the outer tag whose contents it returns, and every such element is read so. With storage it has read
  a constructed element of the outer tag that consists of primitive elements of the inner tag, and returns their
  contents joined; and every such element is read so if the allocator delivers.\<close>

theorem implicit_string_joins_fragments:
  assumes "length inp < 2 ^ 32" "outer_tag AND CBS_ASN1_CONSTRUCTED = 0"
  shows "(CBS_get_asn1_implicit_string am outer_tag inner_tag inp = (Some (out_cbs, None), rest) \<longleftrightarrow>
      inp = der_elem outer_tag out_cbs @ rest) \<and>
    (CBS_get_asn1_implicit_string am outer_tag inner_tag inp = (Some (out_cbs, Some storage), rest) \<longrightarrow>
      out_cbs = storage \<and> (\<exists>chunks. storage = concat chunks \<and>
        inp = der_elem (outer_tag OR CBS_ASN1_CONSTRUCTED) (concat (map (der_elem inner_tag) chunks)) @ rest)) \<and>
    ((\<forall>m. am m \<noteq> None) \<and>
      inp = der_elem (outer_tag OR CBS_ASN1_CONSTRUCTED) (concat (map (der_elem inner_tag) chunks)) @ rest \<longrightarrow>
      CBS_get_asn1_implicit_string am outer_tag inner_tag inp = (Some (concat chunks, Some (concat chunks)), rest))"
  using implicit_string_primitive [of am outer_tag inner_tag inp out_cbs rest]
    implicit_string_storage [of am outer_tag inner_tag inp out_cbs storage rest]
    implicit_string_constructed [of inp outer_tag inner_tag chunks rest am] assms
  by (auto simp: length_der_elem)

theorem implicit_string_joins_fragments_witness:
  "CBS_get_asn1_implicit_string ample 0x80000000 4 [0xa0, 6, 4, 1, 1, 4, 1, 2, 9] = (Some ([1, 2], Some [1, 2]), [9])"
proof -
  have i: "[0xa0, 6, 4, 1, 1, 4, 1, 2, 9] = der_elem (0x80000000 OR CBS_ASN1_CONSTRUCTED) (concat (map (der_elem 4) [[1], [2]])) @ [9]"
    by (simp add: CBS_ASN1_CONSTRUCTED_def der_elem_def der_header_def der_tag_def der_len_def tag_class_def tag_number_def)
  have l: "length [0xa0 :: u8, 6, 4, 1, 1, 4, 1, 2, 9] < 2 ^ 32" "(0x80000000 :: u32) AND CBS_ASN1_CONSTRUCTED = 0"
    by (simp_all add: CBS_ASN1_CONSTRUCTED_def)
  have "CBS_get_asn1_implicit_string ample 0x80000000 4 [0xa0, 6, 4, 1, 1, 4, 1, 2, 9] =
      (Some (concat [[1], [2]], Some (concat [[1], [2]])), [9])"
    by (rule implicit_string_joins_fragments [OF l, THEN conjunct2, THEN conjunct2, THEN mp]) (intro conjI allI i; simp)
  then show ?thesis by simp
qed

text \<open>C26: the conversion returns for every input, every state of the output and every allocator. Its loop goes on
  with the window that a nested call leaves, so this rests on an invariant: no call lengthens the window. The
  predicate is the domain of the recursion: no infinite chain of calls and rounds starts at these arguments.\<close>

theorem cbs_convert_ber_returns:
  "cbs_convert_ber_dom (am, string_tag, looking_for_eoc, depth, inp, cbb) \<and>
    length (fst (fst (cbs_convert_ber am string_tag looking_for_eoc depth inp cbb))) \<le> length inp"
  using cbs_convert_ber_total cbs_convert_ber_shortens by blast

end
