(* ===== verification/Spec2Isabelle.thy ===== *)
theory Spec2Isabelle
  imports Nanopb_Skip Cbs Mem Cbb_Props Base64 Buf Stack Oid Set_Of Lhash Pool Unicode Cbs_Copy Ber_Props
begin

text \<open>
  A verification of C code of the Teamy iOS application. Teamy itself is a Swift user interface over
  Firebase; the C it runs on is in src/TeamyApp/Pods, and this development models the parts of it that every
  request passes: the protocol buffer codec nanopb, and of BoringSSL (under BoringSSL-GRPC/src/crypto) the
  parser and builder of DER, base64, and the containers and memory functions under them.

  \<^bold>\<open>Theories.\<close>
  \<^item> Teamy\_Prelude: the integer types of the target, \<open>size_t\<close> arithmetic that wraps at 2^64, numbers as bytes
    in both orders, bit lemmas. Der\_Spec: DER as a specification, and the locale \<open>canonical\<close>.
  \<^item> Nanopb\_Stream, Nanopb\_Varint, Nanopb\_Wire: nanopb/pb\_encode.c and pb\_decode.c below the message level. A
    \<open>pb_ostream\<close> or \<open>pb_istream\<close> has the fields of the struct; its callback is the sink or source. The
    locales \<open>pb_input\<close>, \<open>pb_output\<close> and \<open>pb_bounded_output\<close> say what the primitives need of a stream, and
    memory streams and sizing streams are their instances.
  \<^item> Nanopb\_Field, Nanopb\_Encode: the message level of nanopb/pb\_encode.c, with the field iterator of nanopb/pb\_common.c and the
    descriptors of nanopb/pb.h. The encoder reads an \<open>image\<close>: memory by address, descriptor arrays and client functions by
    address. Nanopb\_Denotes, Nanopb\_Values and Nanopb\_Message give what it writes, as \<open>message_bytes\<close>, a function without streams;
    Nanopb\_Props states this in terms of buffers. Nanopb\_Skip: the loop of \<open>pb_decode_noinit\<close> over unknown fields, which gets through
    whatever the encoder writes.
  \<^item> Mem: crypto/mem.c. Cbs, Cbs\_Copy: crypto/bytestring/cbs.c; a CBS is the list of the bytes left in the window, and
    a reader returns a value and the window after it. Cbb, Cbb\_Flush, Cbb\_Write, Cbb\_Asn1, Cbb\_Props:
    crypto/bytestring/cbb.c; the state is the shared \<open>cbb_buffer_st\<close> and one frame for each open child, innermost
    first. Oid and Set\_Of: object identifiers as text, and the sorting of SET OF. Unicode: crypto/bytestring/unicode.c.
    Ber and Ber\_Props: crypto/bytestring/ber.c, the conversion of BER to DER.
  \<^item> Constant\_Time and Base64: the masks of crypto/internal.h and crypto/base64/base64.c.
  \<^item> Buf, Stack, Lhash, Pool: crypto/buf/buf.c, crypto/stack/stack.c, crypto/lhash/lhash.c, and crypto/pool/pool.c
    with crypto/refcount\_c11.c and crypto/thread\_pthread.c. A hash table has a list of items for each chain. The pool is a system
    of calls that interleave: a call is its program counter and local variables, a step is one access of shared memory, be it an
    atomic load, a compare-exchange that may fail, taking or releasing the lock, or a table operation under it. The hash and comparison
    functions of the table read the buffers through their pointers, and a step that reads a freed buffer, or unlocks
    a lock that is not held, has no result.

  Functions, types and fields keep their C names. A function that returns 0 or NULL returns None or False; an output
  parameter is part of the result; an assertion or abort is a step without result.

  \<^bold>\<open>How the parts fit.\<close> Every reader of Cbs is shown equal to a specification, \<open>reader cbs = (Some v, rest)\<close> iff \<open>cbs\<close> is
  the encoding of \<open>v\<close> followed by \<open>rest\<close>; that is the locale \<open>canonical\<close>, and uniqueness of encodings and
  extensibility of input follow inside it. Every operation of the builder satisfies \<open>emits am op c\<close>: it appends \<open>c\<close> to
  the contents that the pending frames amount to, or fails and marks the buffer. The locale \<open>codec\<close> joins a canonical
  reader and an emitting writer, and gives the round trips; it is interpreted for the ASN.1 values
  and the four encodings of characters. The locale \<open>comparator\<close> is the contract of a comparison function, for
  sorted stacks and for SET OF; \<open>hashing\<close> is that of a hash and a comparison, for hash tables, interpreted on the
  buffers of the pool. The pool's invariant uses the laws of the table only through that interpretation, which is for any memory. The encoders of nanopb all
  satisfy \<open>denotes f r\<close>: on a sizing stream \<open>f\<close> counts the bytes \<open>r\<close>, on a memory stream it writes them or fails for want of room;
  sequences, submessages and packed arrays keep that relation. The conversion of BER
  sits between the two halves of bytestring: it takes elements from a window and writes them to a CBB. Both sides are
  related to a document, a forest of elements: the window is its spelling (\<open>ber_bytes\<close>), and the conversion \<open>emits\<close> that of
  its DER (\<open>to_der\<close>).

  \<^bold>\<open>Parameters.\<close> The allocator is an argument \<open>am\<close>, a function from the size to None or the contents of the block, so
  every theorem holds for every pattern of failures; theorems that promise success assume that it never fails. \<open>qsort\<close>,
  the callbacks of streams, comparison, hash, copy and free functions are arguments. Atomic operations
  and \<open>pthread_rwlock_t\<close> are taken to do what their standards say: a weak exchange may fail spuriously, and a blocked call
  goes on once the lock is free. The callbacks of nanopb messages are asked to write the same bytes each time (\<open>clients\<close>), as its documentation
  does. Where a function calls the allocator twice for one size, both calls succeed or both fail. \<open>CBB_finish\<close> is called on a builder that
  is no child and with both output pointers.

  \<^bold>\<open>Bounds.\<close> Sizes are natural numbers with the wrap-around of \<open>size_t\<close> written out. Theorems about the
  builder assume contents of at most 2^60 bytes, initial capacities of at most 2^62, and 1000 open children, far beyond
  what an address space or a caller reaches; those about the conversion of BER assume input below 2^31 bytes, since the DER can be
  longer than the BER and lengths end at 32 bits; the load of a hash table is stated for fewer than 2^58 operations. Loops
  that are not structural have termination proofs. Fuel stands for the stack in two places, the nesting of nanopb messages and their chains of
  extensions, which both come from data; for message types nested less than \<open>d\<close> deep fuel \<open>d + 1\<close> is enough, and more
  does not change the result. Messages of nanopb are followed up to 2^61 bytes, and up to 2^32 by a reader. In a run of
  \<open>n\<close> calls on a pool there are at most \<open>n * (12 * n + 13)\<close> steps besides spurious failures.

  \<^bold>\<open>Not modelled.\<close> The Swift application; the message decoder of nanopb beyond unknown fields, which
  writes and allocates through untyped pointers into structures laid out by generated descriptors; of BoringSSL the arithmetic, the ciphers and
  hashes, X.509, PEM, BIO, error queues and TLS; gRPC, Firebase, abseil and LevelDB, which are C++ and Objective-C. The
  manifest gives the reason for each.
\<close>

end
